(* ===== verification/Prelude.thy ===== *)
theory Prelude
  imports Main "HOL-Library.Word" "HOL-Library.AList"
begin

text \<open>
  Shared vocabulary of the wirefan development.

  A Go \<open>string\<close> or \<open>[]byte\<close> is a \<^typ>\<open>string\<close>: HOL characters are bytes, so \<open>length\<close> is
  Go's \<open>len\<close>. A Go map is an association list (\<open>gomap\<close>) whose keys are distinct, a
  \<open>map[T]struct{}\<close> is a list without duplicates: both can be iterated and counted, and the
  order in which Go ranges over a map, which the language leaves open, is the order of the list.
  Wherever code ranges over a map, a lemma shows that the order does not matter or the statement
  is about sets. A buffered Go channel is the list of its elements, oldest first, with its
  capacity an argument of the non-blocking send. Times are nanoseconds since the epoch.

  The collections \<open>gomap_simps\<close> and \<open>chan_simps\<close> carry the facts component proofs share.
\<close>

named_theorems gomap_simps "lookup, update, delete and distinctness of Go maps"
named_theorems chan_simps "buffered Go channels"

type_synonym bytes = string
type_synonym ('k, 'v) gomap = "('k \<times> 'v) list"

subsection \<open>Go maps\<close>

abbreviation gm_get :: "('k, 'v) gomap \<Rightarrow> 'k \<Rightarrow> 'v option" where
  "gm_get m k \<equiv> map_of m k"

abbreviation gm_put :: "'k \<Rightarrow> 'v \<Rightarrow> ('k, 'v) gomap \<Rightarrow> ('k, 'v) gomap" where
  "gm_put k v m \<equiv> AList.update k v m"

abbreviation gm_del :: "'k \<Rightarrow> ('k, 'v) gomap \<Rightarrow> ('k, 'v) gomap" where
  "gm_del k m \<equiv> AList.delete k m"

abbreviation gm_ok :: "('k, 'v) gomap \<Rightarrow> bool" where
  "gm_ok m \<equiv> distinct (map fst m)"

lemma gm_get_put [simp, gomap_simps]:
  "gm_get (gm_put k v m) k' = (if k' = k then Some v else gm_get m k')"
  by (simp add: update_conv)

lemma gm_get_del [simp, gomap_simps]:
  "gm_get (gm_del k m) k' = (if k' = k then None else gm_get m k')"
  by (simp add: delete_conv')

lemma gm_ok_put [simp, intro, gomap_simps]: "gm_ok m \<Longrightarrow> gm_ok (gm_put k v m)"
  by (rule distinct_update)

lemma gm_ok_del [simp, intro, gomap_simps]: "gm_ok m \<Longrightarrow> gm_ok (gm_del k m)"
  by (simp add: distinct_delete)

lemma gm_ok_filter [simp, intro, gomap_simps]: "gm_ok m \<Longrightarrow> gm_ok (filter P m)"
  by (induction m) auto

lemma gm_get_filter:
  "gm_ok m \<Longrightarrow> gm_get (filter P m) k = (case gm_get m k of
     None \<Rightarrow> None | Some v \<Rightarrow> if P (k, v) then Some v else None)"
proof (induction m)
  case (Cons a m)
  obtain k' v' where [simp]: "a = (k', v')" by (cases a)
  have "k' \<notin> fst ` set (filter P m)"
    using Cons.prems by auto
  then have *: "map_of (filter P m) k' = None"
    by (metis map_of_eq_None_iff)
  from Cons show ?case
    using * by (auto split: option.splits)
qed simp

lemma gm_get_in_set: "gm_ok m \<Longrightarrow> (k, v) \<in> set m \<longleftrightarrow> gm_get m k = Some v"
  by auto

text \<open>Lookups stay lookups: they are not rewritten to membership in the list.\<close>

declare map_of_eq_Some_iff [simp del] Some_eq_map_of_iff [simp del]

lemma gm_length_card: "gm_ok m \<Longrightarrow> length m = card (dom (map_of m))"
proof -
  assume "gm_ok m"
  then have "card (set (map fst m)) = length (map fst m)"
    by (rule distinct_card)
  then show ?thesis
    by (simp add: dom_map_of_conv_image_fst)
qed

lemma gm_length_put:
  "length (gm_put k v m) = (if gm_get m k = None then Suc (length m) else length m)"
  by (induction m) auto

lemma gm_length_del_le: "length (gm_del k m) \<le> length m"
  by (rule length_delete_le)

lemma gm_length_del:
  "gm_ok m \<Longrightarrow> length (gm_del k m) = (if gm_get m k = None then length m else length m - 1)"
proof (induction m)
  case (Cons a m)
  obtain k' v' where [simp]: "a = (k', v')" by (cases a)
  show ?case
  proof (cases "k' = k")
    case True
    with Cons.prems have "k \<notin> fst ` set m" by auto
    then show ?thesis using True by (simp add: delete_id)
  next
    case False
    with Cons have IH: "length (gm_del k m) = (if gm_get m k = None then length m else length m - 1)"
      by simp
    show ?thesis
    proof (cases m)
      case Nil
      with False show ?thesis by simp
    next
      case (Cons b m')
      with False IH show ?thesis by auto
    qed
  qed
qed simp

subsection \<open>Sets: maps to the empty struct\<close>

abbreviation set_add :: "'a \<Rightarrow> 'a list \<Rightarrow> 'a list" where
  "set_add x xs \<equiv> (if x \<in> set xs then xs else xs @ [x])"

abbreviation set_del :: "'a \<Rightarrow> 'a list \<Rightarrow> 'a list" where
  "set_del x xs \<equiv> filter (\<lambda>y. y \<noteq> x) xs"

lemma set_set_add: "set (set_add x xs) = insert x (set xs)"
  by auto

lemma distinct_set_add: "distinct xs \<Longrightarrow> distinct (set_add x xs)"
  by simp

subsection \<open>Buffered channels\<close>

text \<open>
  \<open>select { case ch <- v: ... default: ... }\<close> on a channel of capacity \<open>cap\<close>: the send happens
  exactly when the buffer has room. The second component reports whether it happened.
\<close>

definition try_send :: "nat \<Rightarrow> 'a list \<Rightarrow> 'a \<Rightarrow> 'a list \<times> bool" where
  "try_send cap q v = (if length q < cap then (q @ [v], True) else (q, False))"

lemma try_send_len [chan_simps]: "length q \<le> cap \<Longrightarrow> length (fst (try_send cap q v)) \<le> cap"
  by (simp add: try_send_def)

lemma try_send_room [chan_simps]: "length q < cap \<Longrightarrow> try_send cap q v = (q @ [v], True)"
  by (simp add: try_send_def)

lemma try_send_full [chan_simps]: "cap \<le> length q \<Longrightarrow> try_send cap q v = (q, False)"
  by (simp add: try_send_def)

subsection \<open>Folds over independent cells\<close>

text \<open>
  A loop that applies an update of its own to each element of a list of distinct keys: the
  result at a key is one application, and so does not depend on the order of the list.
\<close>

lemma fold_fun_upd_at:
  "distinct xs \<Longrightarrow>
   fold (\<lambda>x f. f(x := g x (f x))) xs f y = (if y \<in> set xs then g y (f y) else f y)"
  by (induction xs arbitrary: f) auto

lemma fold_fun_upd_perm:
  assumes "distinct xs" "distinct ys" "set xs = set ys"
  shows "fold (\<lambda>x f. f(x := g x (f x))) xs f = fold (\<lambda>x f. f(x := g x (f x))) ys f"
  by (rule ext) (simp add: fold_fun_upd_at assms)

subsection \<open>Loops that a callback can stop\<close>

text \<open>
  The body returns whether to go on and the new state, as the function \<open>Range\<close> is given does.
\<close>

fun loop_until :: "('c \<Rightarrow> 's \<Rightarrow> bool \<times> 's) \<Rightarrow> 'c list \<Rightarrow> 's \<Rightarrow> bool \<times> 's" where
  "loop_until f [] s = (True, s)"
| "loop_until f (c # cs) s = (case f c s of (True, s') \<Rightarrow> loop_until f cs s' | (False, s') \<Rightarrow> (False, s'))"

lemma loop_until_fold:
  "(\<And>c s. c \<in> set cs \<Longrightarrow> fst (f c s)) \<Longrightarrow> loop_until f cs s = (True, fold (\<lambda>c s. snd (f c s)) cs s)"
proof (induction cs arbitrary: s)
  case (Cons c cs)
  have "fst (f c s)" using Cons.prems by simp
  then obtain s' where "f c s = (True, s')" by (cases "f c s") auto
  with Cons show ?case by simp
qed simp

end
