(* ===== verification/Go_Strings.thy ===== *)
theory Go_Strings
  imports Prelude "HOL-Library.Sublist"
begin

text \<open>
  The parts of Go's \<open>strings\<close>, \<open>strconv\<close>, \<open>encoding/hex\<close> and \<open>unicode/utf8\<close> that wirefan
  calls, on byte strings. Numbers are printed and read in base ten; \<open>ParseInt\<close> keeps the sign
  and range rules of \<open>strconv.ParseInt(s, 10, 64)\<close>. \<open>decode_rune\<close> is the step of
  \<open>for _, r := range s\<close>: the rune and how many bytes it took, with \<open>0xFFFD\<close> and one byte
  for an invalid sequence.
\<close>

abbreviation byte_val :: "char \<Rightarrow> nat" where
  "byte_val c \<equiv> of_char c"

lemma byte_val_less [simp]: "byte_val c < 256"
  by (metis (mono_tags, lifting) UNIV_I imageI nat_of_char_less_256 atLeastLessThan_iff)

subsection \<open>Prefixes and splitting\<close>

definition HasPrefix :: "string \<Rightarrow> string \<Rightarrow> bool" where
  "HasPrefix s p \<longleftrightarrow> take (length p) s = p"

definition TrimPrefix :: "string \<Rightarrow> string \<Rightarrow> string" where
  "TrimPrefix s p = (if HasPrefix s p then drop (length p) s else s)"

lemma HasPrefix_append [simp]: "HasPrefix (p @ s) p"
  by (simp add: HasPrefix_def)

lemma HasPrefix_iff: "HasPrefix s p \<longleftrightarrow> (\<exists>t. s = p @ t)"
  by (metis HasPrefix_append HasPrefix_def append_take_drop_id)

text \<open>\<open>cut c s\<close> splits \<open>s\<close> around its first byte \<open>c\<close>, when there is one.\<close>

fun cut :: "char \<Rightarrow> string \<Rightarrow> (string \<times> string) option" where
  "cut c [] = None"
| "cut c (x # xs) = (if x = c then Some ([], xs)
     else map_option (\<lambda>(a, b). (x # a, b)) (cut c xs))"

lemma cut_append: "c \<notin> set a \<Longrightarrow> cut c (a @ c # b) = Some (a, b)"
  by (induction a) auto

lemma sep_inj:
  assumes "(c::char) \<notin> set a" "c \<notin> set a'" and eq: "a @ c # b = a' @ c # b'"
  shows "a = a' \<and> b = b'"
proof -
  have "Some (a, b) = cut c (a @ c # b)" using assms(1) by (rule cut_append [symmetric])
  also have "\<dots> = cut c (a' @ c # b')" by (simp only: eq)
  also have "\<dots> = Some (a', b')" using assms(2) by (rule cut_append)
  finally show ?thesis by simp
qed

lemma cut_None_iff: "cut c s = None \<longleftrightarrow> c \<notin> set s"
  by (induction s) auto

lemma cut_Some: "cut c s = Some (a, b) \<Longrightarrow> s = a @ c # b \<and> c \<notin> set a"
  by (induction s arbitrary: a) (auto split: if_splits)

lemma cut_Some_length [simp]: "cut c s = Some (a, b) \<Longrightarrow> length b < length s"
  by (drule cut_Some) auto

text \<open>\<open>strings.SplitN(s, c, n)\<close> for \<open>n > 0\<close>, and \<open>strings.Split(s, c)\<close>.\<close>

fun SplitN :: "string \<Rightarrow> char \<Rightarrow> nat \<Rightarrow> string list" where
  "SplitN s c 0 = []"
| "SplitN s c (Suc 0) = [s]"
| "SplitN s c (Suc (Suc n)) = (case cut c s of
     None \<Rightarrow> [s] | Some (a, b) \<Rightarrow> a # SplitN b c (Suc n))"

function Split :: "string \<Rightarrow> char \<Rightarrow> string list" where
  "Split s c = (case cut c s of None \<Rightarrow> [s] | Some (a, b) \<Rightarrow> a # Split b c)"
  by pat_completeness auto
termination
  by (relation "measure (\<lambda>(s, c). length s)") auto

declare Split.simps [simp del]

lemma Split_nonempty: "Split s c \<noteq> []"
  by (subst Split.simps) (auto split: option.splits)

lemma Split_no_sep: "\<forall>p \<in> set (Split s c). c \<notin> set p"
proof (induction s c rule: Split.induct)
  case (1 s c)
  then show ?case
    by (subst Split.simps) (auto simp: cut_None_iff split: option.splits dest: cut_Some)
qed

lemma Split_single: "c \<notin> set s \<Longrightarrow> Split s c = [s]"
  by (subst Split.simps) (auto simp: cut_None_iff [symmetric])

lemma Split_append: "c \<notin> set a \<Longrightarrow> Split (a @ c # b) c = a # Split b c"
  by (subst Split.simps) (simp add: cut_append)

text \<open>\<open>strings.Join\<close>.\<close>

fun Join :: "string list \<Rightarrow> string \<Rightarrow> string" where
  "Join [] sep = []"
| "Join [x] sep = x"
| "Join (x # y # ys) sep = x @ sep @ Join (y # ys) sep"

lemma Split_Join: "xs \<noteq> [] \<Longrightarrow> (\<And>x. x \<in> set xs \<Longrightarrow> c \<notin> set x) \<Longrightarrow> Split (Join xs [c]) c = xs"
proof (induction xs "[c]" rule: Join.induct)
  case (3 x y ys)
  then show ?case by (simp add: Split_append)
qed (simp_all add: Split_single)

lemma Join_Split: "Join (Split s c) [c] = s"
proof (induction s c rule: Split.induct)
  case (1 s c)
  show ?case
  proof (cases "cut c s")
    case None
    then show ?thesis by (subst Split.simps) simp
  next
    case (Some ab)
    then obtain a b where ab: "cut c s = Some (a, b)" by (cases ab) auto
    obtain y ys where y: "Split b c = y # ys"
      using Split_nonempty [of b c] by (cases "Split b c") auto
    from 1 ab have "Join (Split b c) [c] = b" by blast
    with ab y cut_Some [OF ab] show ?thesis
      by (subst Split.simps) simp
  qed
qed

text \<open>\<open>strings.Count\<close> and \<open>strings.LastIndex\<close> of one byte, \<open>strings.ContainsAny\<close>.\<close>

definition CountByte :: "string \<Rightarrow> char \<Rightarrow> nat" where
  "CountByte s c = length (filter ((=) c) s)"

fun LastIndex :: "string \<Rightarrow> char \<Rightarrow> nat option" where
  "LastIndex [] c = None"
| "LastIndex (x # xs) c = (case LastIndex xs c of
     Some i \<Rightarrow> Some (Suc i) | None \<Rightarrow> if x = c then Some 0 else None)"

lemma LastIndex_append: "c \<notin> set b \<Longrightarrow> LastIndex (a @ c # b) c = Some (length a)"
proof -
  assume b: "c \<notin> set b"
  then have "LastIndex b c = None" by (induction b) auto
  then show ?thesis by (induction a) auto
qed

definition ContainsAny :: "string \<Rightarrow> string \<Rightarrow> bool" where
  "ContainsAny s chars \<longleftrightarrow> list_ex (\<lambda>c. c \<in> set chars) s"

subsection \<open>White space\<close>

text \<open>
  The UTF-8 encodings of the runes \<open>unicode.IsSpace\<close> accepts. \<open>strings.TrimSpace\<close> removes them
  from both ends.
\<close>

definition space_seqs :: "string list" where
  "space_seqs =
    [[CHR 0x0A], [CHR 0x09], [CHR 0x0B], [CHR 0x0C], [CHR 0x0D], '' '',
     [CHR 0xC2, CHR 0x85], [CHR 0xC2, CHR 0xA0], [CHR 0xE1, CHR 0x9A, CHR 0x80],
     [CHR 0xE2, CHR 0x80, CHR 0x80], [CHR 0xE2, CHR 0x80, CHR 0x81],
     [CHR 0xE2, CHR 0x80, CHR 0x82], [CHR 0xE2, CHR 0x80, CHR 0x83],
     [CHR 0xE2, CHR 0x80, CHR 0x84], [CHR 0xE2, CHR 0x80, CHR 0x85],
     [CHR 0xE2, CHR 0x80, CHR 0x86], [CHR 0xE2, CHR 0x80, CHR 0x87],
     [CHR 0xE2, CHR 0x80, CHR 0x88], [CHR 0xE2, CHR 0x80, CHR 0x89],
     [CHR 0xE2, CHR 0x80, CHR 0x8A], [CHR 0xE2, CHR 0x80, CHR 0xA8],
     [CHR 0xE2, CHR 0x80, CHR 0xA9], [CHR 0xE2, CHR 0x80, CHR 0xAF],
     [CHR 0xE2, CHR 0x81, CHR 0x9F], [CHR 0xE3, CHR 0x80, CHR 0x80]]"

lemma space_seqs_nonempty: "p \<in> set space_seqs \<Longrightarrow> p \<noteq> []"
  by (auto simp: space_seqs_def)

text \<open>\<open>strip_any ps s\<close> removes prefixes in \<open>ps\<close> from \<open>s\<close> for as long as there is one.\<close>

function strip_any :: "string list \<Rightarrow> string \<Rightarrow> string" where
  "strip_any ps s = (case find (\<lambda>p. p \<noteq> [] \<and> HasPrefix s p) ps of
     None \<Rightarrow> s | Some p \<Rightarrow> strip_any ps (drop (length p) s))"
  by pat_completeness auto
termination
  by (relation "measure (\<lambda>(ps, s). length s)")
     (auto simp: find_Some_iff HasPrefix_iff)

declare strip_any.simps [simp del]

definition TrimSpace :: "string \<Rightarrow> string" where
  "TrimSpace s = (let l = strip_any space_seqs s
     in rev (strip_any (map rev space_seqs) (rev l)))"

lemma strip_any_suffix: "\<exists>a. s = a @ strip_any ps s"
proof (induction ps s rule: strip_any.induct)
  case (1 ps s)
  show ?case
  proof (cases "find (\<lambda>p. p \<noteq> [] \<and> HasPrefix s p) ps")
    case None
    then show ?thesis by (subst strip_any.simps) simp
  next
    case (Some p)
    with 1 obtain a where "drop (length p) s = a @ strip_any ps (drop (length p) s)" by blast
    then have "s = (take (length p) s @ a) @ strip_any ps (drop (length p) s)"
      by (metis append.assoc append_take_drop_id)
    then have "\<exists>b. s = b @ strip_any ps (drop (length p) s)" ..
    with Some show ?thesis
      by (simp add: strip_any.simps [of ps s])
  qed
qed

lemma strip_any_done: "p \<in> set ps \<Longrightarrow> p \<noteq> [] \<Longrightarrow> \<not> HasPrefix (strip_any ps s) p"
proof (induction ps s rule: strip_any.induct)
  case (1 ps s)
  then show ?case
    by (auto simp: strip_any.simps [of ps s] find_None_iff split: option.splits)
qed

text \<open>What is left is a contiguous part of the input that starts and ends with no white space.\<close>

lemma TrimSpace_infix: "\<exists>a b. s = a @ TrimSpace s @ b"
proof -
  obtain a where a: "s = a @ strip_any space_seqs s"
    using strip_any_suffix by blast
  define l where "l = strip_any space_seqs s"
  obtain b where "rev l = b @ strip_any (map rev space_seqs) (rev l)"
    using strip_any_suffix by blast
  then have "l = rev (strip_any (map rev space_seqs) (rev l)) @ rev b"
    by (metis rev_append rev_rev_ident)
  then show ?thesis
    using a unfolding TrimSpace_def Let_def l_def [symmetric] by metis
qed

lemma strip_any_id: "(\<And>p. p \<in> set ps \<Longrightarrow> p \<noteq> [] \<Longrightarrow> \<not> HasPrefix s p) \<Longrightarrow> strip_any ps s = s"
proof -
  assume "\<And>p. p \<in> set ps \<Longrightarrow> p \<noteq> [] \<Longrightarrow> \<not> HasPrefix s p"
  then have "find (\<lambda>p. p \<noteq> [] \<and> HasPrefix s p) ps = None" by (auto simp: find_None_iff)
  then show ?thesis by (simp add: strip_any.simps [of ps s])
qed

lemma TrimSpace_idem: "TrimSpace (TrimSpace s) = TrimSpace s"
proof -
  define l where "l = strip_any space_seqs s"
  define t where "t = strip_any (map rev space_seqs) (rev l)"
  have T: "TrimSpace s = rev t" by (simp add: TrimSpace_def l_def t_def)
  obtain b where b: "rev l = b @ t" using strip_any_suffix [of "rev l"] unfolding t_def by blast
  then have l: "l = rev t @ rev b" by (metis rev_append rev_rev_ident)
  have "\<not> HasPrefix (rev t) p" if "p \<in> set space_seqs" "p \<noteq> []" for p
    using strip_any_done [OF that, of s] l unfolding l_def [symmetric] by (auto simp: HasPrefix_iff)
  then have 1: "strip_any space_seqs (rev t) = rev t" by (rule strip_any_id)
  have 2: "strip_any (map rev space_seqs) t = t"
    by (rule strip_any_id) (use strip_any_done [of _ "map rev space_seqs" "rev l"] in \<open>simp add: t_def\<close>)
  show ?thesis unfolding T by (simp add: TrimSpace_def 1 2)
qed

subsection \<open>Decimal numbers\<close>

definition digit_char :: "nat \<Rightarrow> char" where
  "digit_char d = char_of (48 + d)"

definition digit_val :: "char \<Rightarrow> nat option" where
  "digit_val c = (let b = byte_val c in if 48 \<le> b \<and> b \<le> 57 then Some (b - 48) else None)"

lemma digit_val_char [simp]: "d < 10 \<Longrightarrow> digit_val (digit_char d) = Some d"
  by (simp add: digit_val_def digit_char_def Let_def)

fun utoa :: "nat \<Rightarrow> string" where
  "utoa n = (if n < 10 then [digit_char n] else utoa (n div 10) @ [digit_char (n mod 10)])"

declare utoa.simps [simp del]

text \<open>\<open>strconv.FormatInt(i, 10)\<close>, which is also what \<open>%d\<close> prints.\<close>

definition FormatInt :: "int \<Rightarrow> string" where
  "FormatInt i = (if i < 0 then ''-'' @ utoa (nat (- i)) else utoa (nat i))"

definition is_digit :: "char \<Rightarrow> bool" where
  "is_digit c \<longleftrightarrow> digit_val c \<noteq> None"

fun digits_val :: "nat \<Rightarrow> string \<Rightarrow> nat option" where
  "digits_val acc [] = Some acc"
| "digits_val acc (c # cs) = (case digit_val c of
     None \<Rightarrow> None | Some d \<Rightarrow> digits_val (acc * 10 + d) cs)"

text \<open>
  \<open>strconv.ParseInt(s, 10, 64)\<close>: an optional sign, at least one digit, nothing else, and a value
  in the range of \<open>int64\<close>. Syntax and range errors are both \<open>None\<close>; no caller tells them apart.
\<close>

definition ParseInt :: "string \<Rightarrow> int option" where
  "ParseInt s = (case s of
     [] \<Rightarrow> None
   | c # cs \<Rightarrow>
      (let neg = (c = CHR ''-''); body = (if c = CHR ''-'' \<or> c = CHR ''+'' then cs else s)
       in if body = [] then None
          else case digits_val 0 body of
            None \<Rightarrow> None
          | Some un \<Rightarrow>
             if neg then (if un > 2 ^ 63 then None else Some (- int un))
             else (if un \<ge> 2 ^ 63 then None else Some (int un))))"

lemma digits_val_append:
  "digits_val acc (a @ b) = (case digits_val acc a of None \<Rightarrow> None | Some v \<Rightarrow> digits_val v b)"
  by (induction a arbitrary: acc) (auto split: option.splits)

lemma utoa_digits: "c \<in> set (utoa n) \<Longrightarrow> is_digit c"
proof (induction n rule: utoa.induct)
  case (1 n)
  show ?case
  proof (cases "n < 10")
    case True
    with "1.prems" show ?thesis by (simp add: utoa.simps [of n] is_digit_def)
  next
    case False
    then have "n mod 10 < 10" by simp
    with False "1" show ?thesis
      by (auto simp: utoa.simps [of n] is_digit_def simp del: One_nat_def)
  qed
qed

lemma utoa_nonempty [simp]: "utoa n \<noteq> []"
  by (subst utoa.simps) simp

lemma digits_val_utoa: "digits_val 0 (utoa n) = Some n"
proof (induction n rule: utoa.induct)
  case (1 n)
  show ?case
  proof (cases "n < 10")
    case True
    then show ?thesis by (simp add: utoa.simps [of n])
  next
    case False
    with 1 have "digits_val 0 (utoa (n div 10)) = Some (n div 10)" by simp
    moreover have "n div 10 * 10 + n mod 10 = n" by simp
    ultimately show ?thesis using False
      by (simp add: utoa.simps [of n] digits_val_append del: One_nat_def)
  qed
qed

lemma utoa_inj: "utoa m = utoa n \<Longrightarrow> m = n"
  by (metis digits_val_utoa option.inject)

lemma not_digit [simp]:
  "\<not> is_digit (CHR ''-'')" "\<not> is_digit (CHR ''+'')" "\<not> is_digit (CHR '':'')" "\<not> is_digit (CHR ''|'')"
  by (simp_all add: is_digit_def digit_val_def)

lemma FormatInt_chars: "c \<in> set (FormatInt i) \<Longrightarrow> c = CHR ''-'' \<or> is_digit c"
  by (auto simp: FormatInt_def dest: utoa_digits split: if_splits)

lemma FormatInt_no_sep: "CHR ''|'' \<notin> set (FormatInt i)" "CHR '':'' \<notin> set (FormatInt i)"
  using FormatInt_chars by fastforce+

text \<open>Reading back a printed \<open>int64\<close> gives the same number.\<close>

lemma ParseInt_FormatInt: "- (2 ^ 63) \<le> i \<Longrightarrow> i < 2 ^ 63 \<Longrightarrow> ParseInt (FormatInt i) = Some i"
proof (cases "i < 0")
  case True
  assume "- (2 ^ 63) \<le> i"
  with True show ?thesis
    by (simp add: FormatInt_def ParseInt_def digits_val_utoa)
next
  case False
  assume ub: "i < 2 ^ 63"
  obtain c cs where u: "utoa (nat i) = c # cs" by (cases "utoa (nat i)") auto
  then have "is_digit c" using utoa_digits [of c "nat i"] by simp
  then have "c \<noteq> CHR ''-''" "c \<noteq> CHR ''+''" by auto
  moreover have "digits_val 0 (c # cs) = Some (nat i)"
    using digits_val_utoa [of "nat i"] u by simp
  ultimately show ?thesis using False ub u
    by (simp add: FormatInt_def ParseInt_def Let_def del: digits_val.simps)
qed

lemma FormatInt_inj: "FormatInt i = FormatInt j \<Longrightarrow> i = j"
proof -
  assume eq: "FormatInt i = FormatInt j"
  have hd_digit: "hd (utoa n) \<noteq> CHR ''-''" for n
    using utoa_digits [of "hd (utoa n)" n] by (metis hd_in_set not_digit(1) utoa_nonempty)
  show ?thesis
  proof (cases "i < 0"; cases "j < 0")
    assume "i < 0" "j < 0"
    with eq show ?thesis by (auto simp: FormatInt_def dest: utoa_inj)
  next
    assume "i < 0" "\<not> j < 0"
    with eq hd_digit [of "nat j"] show ?thesis by (auto simp: FormatInt_def dest: sym)
  next
    assume "\<not> i < 0" "j < 0"
    with eq hd_digit [of "nat i"] show ?thesis by (auto simp: FormatInt_def)
  next
    assume "\<not> i < 0" "\<not> j < 0"
    with eq show ?thesis by (auto simp: FormatInt_def dest: utoa_inj)
  qed
qed

lemma ParseInt_range: "ParseInt s = Some i \<Longrightarrow> - (2 ^ 63) \<le> i \<and> i < 2 ^ 63"
  by (auto simp: ParseInt_def Let_def split: list.splits if_splits option.splits)

end
