(* ===== verification/Go_Encoding.thy ===== *)
theory Go_Encoding
  imports Go_Strings
begin

text \<open>
  Byte encodings of the Go standard library: \<open>encoding/hex\<close>, \<open>encoding/base64\<close> with
  \<open>RawURLEncoding\<close>, and \<open>unicode/utf8\<close>. The base64 decoder is Go's lenient one: it skips CR and
  LF wherever they occur and ignores the unused bits of the last quantum, so several strings
  decode to the same bytes; encoding and then decoding returns the input.
\<close>

subsection \<open>Hexadecimal\<close>

definition hex_digit :: "nat \<Rightarrow> char" where
  "hex_digit v = (if v < 10 then char_of (48 + v) else char_of (87 + v))"

definition hex_EncodeToString :: "bytes \<Rightarrow> string" where
  "hex_EncodeToString b =
     concat (map (\<lambda>c. [hex_digit (byte_val c div 16), hex_digit (byte_val c mod 16)]) b)"

definition is_lower_hex :: "char \<Rightarrow> bool" where
  "is_lower_hex c \<longleftrightarrow> (let b = byte_val c in (48 \<le> b \<and> b \<le> 57) \<or> (97 \<le> b \<and> b \<le> 102))"

lemma byte_val_hex_digit: "v < 16 \<Longrightarrow> byte_val (hex_digit v) = (if v < 10 then 48 + v else 87 + v)"
  by (simp add: hex_digit_def)

lemma is_lower_hex_digit [simp]: "v < 16 \<Longrightarrow> is_lower_hex (hex_digit v)"
  by (auto simp: is_lower_hex_def byte_val_hex_digit Let_def)

lemma hex_digit_inj: "u < 16 \<Longrightarrow> v < 16 \<Longrightarrow> hex_digit u = hex_digit v \<Longrightarrow> u = v"
proof -
  assume "u < 16" "v < 16" "hex_digit u = hex_digit v"
  then have "(if u < 10 then 48 + u else 87 + u) = (if v < 10 then 48 + v else 87 + v)"
    using byte_val_hex_digit by metis
  with \<open>u < 16\<close> \<open>v < 16\<close> show ?thesis by (auto split: if_splits)
qed

lemma hex_length [simp]: "length (hex_EncodeToString b) = 2 * length b"
  by (induction b) (auto simp: hex_EncodeToString_def)

lemma byte_nibbles: "byte_val c div 16 < 16" "byte_val c mod 16 < 16"
  using byte_val_less [of c] by (auto intro: less_mult_imp_div_less)

lemma hex_chars: "c \<in> set (hex_EncodeToString b) \<Longrightarrow> is_lower_hex c"
  by (auto simp: hex_EncodeToString_def byte_nibbles)

lemma hex_inj: "hex_EncodeToString a = hex_EncodeToString b \<Longrightarrow> a = b"
proof (induction a arbitrary: b)
  case Nil
  then show ?case by (cases b) (auto simp: hex_EncodeToString_def)
next
  case (Cons x a)
  then obtain y b' where b: "b = y # b'"
    by (cases b) (auto simp: hex_EncodeToString_def)
  with Cons.prems have
    "hex_digit (byte_val x div 16) = hex_digit (byte_val y div 16)"
    "hex_digit (byte_val x mod 16) = hex_digit (byte_val y mod 16)"
    and rest: "hex_EncodeToString a = hex_EncodeToString b'"
    by (auto simp: hex_EncodeToString_def)
  then have "byte_val x div 16 = byte_val y div 16" "byte_val x mod 16 = byte_val y mod 16"
    by (auto intro!: hex_digit_inj simp: byte_nibbles)
  then have "byte_val x = byte_val y" by (metis div_mult_mod_eq)
  then have "x = y" by simp
  with Cons.IH [OF rest] b show ?case by simp
qed

subsection \<open>base64.RawURLEncoding\<close>

definition enc6 :: "nat \<Rightarrow> char" where
  "enc6 v = (if v < 26 then char_of (65 + v) else if v < 52 then char_of (71 + v)
     else if v < 62 then char_of (v - 4) else if v = 62 then CHR ''-'' else CHR ''_'')"

definition dec6 :: "char \<Rightarrow> nat option" where
  "dec6 c = (let b = byte_val c in
     if 65 \<le> b \<and> b \<le> 90 then Some (b - 65) else if 97 \<le> b \<and> b \<le> 122 then Some (b - 71)
     else if 48 \<le> b \<and> b \<le> 57 then Some (b + 4) else if b = 45 then Some 62
     else if b = 95 then Some 63 else None)"

lemma dec6_enc6 [simp]: "v < 64 \<Longrightarrow> dec6 (enc6 v) = Some v"
proof -
  assume v: "v < 64"
  consider "v < 26" | "26 \<le> v" "v < 52" | "52 \<le> v" "v < 62" | "v = 62" | "v = 63"
    using v by linarith
  then show ?thesis
    by cases (auto simp: enc6_def dec6_def Let_def)
qed

lemma dec6_less: "dec6 c = Some v \<Longrightarrow> v < 64"
  by (auto simp: dec6_def Let_def split: if_splits)

fun b64_encode :: "nat list \<Rightarrow> nat list" where
  "b64_encode [] = []"
| "b64_encode [a] = [a div 4, a mod 4 * 16]"
| "b64_encode [a, b] = [a div 4, a mod 4 * 16 + b div 16, b mod 16 * 4]"
| "b64_encode (a # b # c # r) =
     a div 4 # (a mod 4 * 16 + b div 16) # (b mod 16 * 4 + c div 64) # c mod 64 # b64_encode r"

fun b64_decode :: "nat list \<Rightarrow> nat list option" where
  "b64_decode [] = Some []"
| "b64_decode [w] = None"
| "b64_decode [w, x] = Some [w * 4 + x div 16]"
| "b64_decode [w, x, y] = Some [w * 4 + x div 16, x mod 16 * 16 + y div 4]"
| "b64_decode (w # x # y # z # r) = map_option
     (\<lambda>t. (w * 4 + x div 16) # (x mod 16 * 16 + y div 4) # (y mod 4 * 64 + z) # t) (b64_decode r)"

definition RawURL_EncodeToString :: "bytes \<Rightarrow> string" where
  "RawURL_EncodeToString b = map enc6 (b64_encode (map of_char b))"

definition RawURL_DecodeString :: "string \<Rightarrow> bytes option" where
  "RawURL_DecodeString s =
     (let vs = map dec6 (filter (\<lambda>c. c \<noteq> CHR 0x0A \<and> c \<noteq> CHR 0x0D) s)
      in if None \<in> set vs then None else map_option (map char_of) (b64_decode (map the vs)))"

lemma b64_encode_less: "\<forall>v \<in> set bs. v < 256 \<Longrightarrow> u \<in> set (b64_encode bs) \<Longrightarrow> u < 64"
  by (induction bs rule: b64_encode.induct) auto

lemma b64_roundtrip: "\<forall>v \<in> set bs. v < 256 \<Longrightarrow> b64_decode (b64_encode bs) = Some bs"
proof (induction bs rule: b64_encode.induct)
  case (4 a b c r)
  then have "b64_decode (b64_encode r) = Some r" by simp
  moreover have
    "a div 4 * 4 + (a mod 4 * 16 + b div 16) div 16 = a"
    "(a mod 4 * 16 + b div 16) mod 16 * 16 + (b mod 16 * 4 + c div 64) div 4 = b"
    "(b mod 16 * 4 + c div 64) mod 4 * 64 + c mod 64 = c"
    using 4 by auto
  ultimately show ?case by simp
next
  case (3 a b)
  then have
    "a div 4 * 4 + (a mod 4 * 16 + b div 16) div 16 = a"
    "(a mod 4 * 16 + b div 16) mod 16 * 16 + (b mod 16 * 4) div 4 = b"
    by auto
  then show ?case by simp
qed auto

lemma dec6_newline: "dec6 (CHR 0x0A) = None" "dec6 (CHR 0x0D) = None"
  by (simp_all add: dec6_def)

text \<open>Encoding and then decoding returns the bytes.\<close>

lemma RawURL_roundtrip: "RawURL_DecodeString (RawURL_EncodeToString b) = Some b"
proof -
  let ?vs = "b64_encode (map of_char b)"
  have small: "\<forall>v \<in> set ?vs. v < 64"
    by (rule ballI, erule b64_encode_less [rotated]) auto
  have "enc6 v \<noteq> CHR 0x0A \<and> enc6 v \<noteq> CHR 0x0D" if "v < 64" for v
    using dec6_enc6 [OF that] dec6_newline by (metis option.distinct(1))
  with small have flt: "filter (\<lambda>c. c \<noteq> CHR 0x0A \<and> c \<noteq> CHR 0x0D) (map enc6 ?vs) = map enc6 ?vs"
    by (auto simp: filter_id_conv)
  from small have dec: "map dec6 (map enc6 ?vs) = map Some ?vs"
    by (auto simp: map_eq_conv)
  have "b64_decode ?vs = Some (map of_char b)"
    by (rule b64_roundtrip) auto
  then show ?thesis
    unfolding RawURL_EncodeToString_def RawURL_DecodeString_def Let_def flt dec
    by (auto simp: comp_def)
qed

subsection \<open>UTF-8\<close>

definition in_range :: "nat \<Rightarrow> nat \<Rightarrow> char \<Rightarrow> bool" where
  "in_range lo hi c \<longleftrightarrow> lo \<le> byte_val c \<and> byte_val c \<le> hi"

abbreviation cont_val :: "char \<Rightarrow> nat" where
  "cont_val c \<equiv> byte_val c - 0x80"

text \<open>The bounds of the second byte, which depend on the first (\<open>acceptRanges\<close>).\<close>

definition second_lo :: "nat \<Rightarrow> nat" where
  "second_lo b0 = (if b0 = 0xE0 then 0xA0 else if b0 = 0xF0 then 0x90 else 0x80)"

definition second_hi :: "nat \<Rightarrow> nat" where
  "second_hi b0 = (if b0 = 0xED then 0x9F else if b0 = 0xF4 then 0x8F else 0xBF)"

abbreviation RuneError :: nat where
  "RuneError \<equiv> 0xFFFD"

fun decode_rune :: "string \<Rightarrow> nat \<times> nat" where
  "decode_rune [] = (RuneError, 0)"
| "decode_rune (c0 # cs) = (let b0 = byte_val c0 in
     if b0 < 0x80 then (b0, 1)
     else if 0xC2 \<le> b0 \<and> b0 \<le> 0xDF then
       (case cs of
          c1 # _ \<Rightarrow> if in_range 0x80 0xBF c1 then ((b0 - 0xC0) * 64 + cont_val c1, 2) else (RuneError, 1)
        | [] \<Rightarrow> (RuneError, 1))
     else if 0xE0 \<le> b0 \<and> b0 \<le> 0xEF then
       (case cs of
          c1 # c2 # _ \<Rightarrow>
            if in_range (second_lo b0) (second_hi b0) c1 \<and> in_range 0x80 0xBF c2
            then ((b0 - 0xE0) * 4096 + cont_val c1 * 64 + cont_val c2, 3) else (RuneError, 1)
        | _ \<Rightarrow> (RuneError, 1))
     else if 0xF0 \<le> b0 \<and> b0 \<le> 0xF4 then
       (case cs of
          c1 # c2 # c3 # _ \<Rightarrow>
            if in_range (second_lo b0) (second_hi b0) c1 \<and> in_range 0x80 0xBF c2 \<and> in_range 0x80 0xBF c3
            then ((b0 - 0xF0) * 262144 + cont_val c1 * 4096 + cont_val c2 * 64 + cont_val c3, 4)
            else (RuneError, 1)
        | _ \<Rightarrow> (RuneError, 1))
     else (RuneError, 1))"

declare decode_rune.simps(2) [simp del]

lemma decode_rune_size: "s \<noteq> [] \<Longrightarrow> 1 \<le> snd (decode_rune s) \<and> snd (decode_rune s) \<le> length s"
  by (cases s) (auto simp: decode_rune.simps(2) Let_def split: list.splits)

text \<open>The runes \<open>for _, r := range s\<close> visits, and \<open>utf8.Valid\<close>.\<close>

function runes :: "string \<Rightarrow> nat list" where
  "runes [] = []"
| "runes (c # cs) = fst (decode_rune (c # cs)) # runes (drop (snd (decode_rune (c # cs))) (c # cs))"
  by pat_completeness auto
termination
proof (relation "measure length")
  fix c :: char and cs
  have "1 \<le> snd (decode_rune (c # cs)) \<and> snd (decode_rune (c # cs)) \<le> length (c # cs)"
    by (rule decode_rune_size) simp
  then show "(drop (snd (decode_rune (c # cs))) (c # cs), c # cs) \<in> measure length"
    by simp
qed simp

function utf8_Valid :: "string \<Rightarrow> bool" where
  "utf8_Valid [] = True"
| "utf8_Valid (c # cs) = (decode_rune (c # cs) \<noteq> (RuneError, 1) \<and>
     utf8_Valid (drop (snd (decode_rune (c # cs))) (c # cs)))"
  by pat_completeness auto
termination
proof (relation "measure length")
  fix c :: char and cs
  have "1 \<le> snd (decode_rune (c # cs)) \<and> snd (decode_rune (c # cs)) \<le> length (c # cs)"
    by (rule decode_rune_size) simp
  then show "(drop (snd (decode_rune (c # cs))) (c # cs), c # cs) \<in> measure length"
    by simp
qed simp

text \<open>\<open>string(r)\<close>: surrogates and values past \<open>0x10FFFF\<close> become the replacement rune.\<close>

definition encode_rune :: "nat \<Rightarrow> string" where
  "encode_rune r =
    (if r < 0x80 then [char_of r]
     else if r < 0x800 then [char_of (0xC0 + r div 64), char_of (0x80 + r mod 64)]
     else if (0xD800 \<le> r \<and> r \<le> 0xDFFF) \<or> 0x10FFFF < r then [CHR 0xEF, CHR 0xBF, CHR 0xBD]
     else if r < 0x10000 then
       [char_of (0xE0 + r div 4096), char_of (0x80 + r div 64 mod 64), char_of (0x80 + r mod 64)]
     else [char_of (0xF0 + r div 262144), char_of (0x80 + r div 4096 mod 64),
           char_of (0x80 + r div 64 mod 64), char_of (0x80 + r mod 64)])"

lemma encode_rune_length: "1 \<le> length (encode_rune r) \<and> length (encode_rune r) \<le> 4"
  by (simp add: encode_rune_def)

lemma ascii_decode: "byte_val c < 0x80 \<Longrightarrow> decode_rune (c # cs) = (byte_val c, 1)"
  by (simp add: decode_rune.simps(2))

lemma runes_ascii [simp]: "byte_val c < 0x80 \<Longrightarrow> runes (c # cs) = byte_val c # runes cs"
  by (simp add: ascii_decode)

lemma utf8_Valid_ascii [simp]: "byte_val c < 0x80 \<Longrightarrow> utf8_Valid (c # cs) = utf8_Valid cs"
  by (simp add: ascii_decode)

declare utf8_Valid.simps(2) [simp del] runes.simps(2) [simp del]

text \<open>A byte below \<open>0x80\<close> anywhere in a string is one of its runes: it never hides in another.\<close>

lemma decode_rune_cont:
  assumes "i < snd (decode_rune s)" "0 < i"
  shows "0x80 \<le> byte_val (s ! i)"
  using assms
  by (cases s)
     (auto simp: decode_rune.simps(2) Let_def in_range_def second_lo_def less_Suc_eq nth_Cons'
           numeral_2_eq_2 numeral_3_eq_3 split: list.splits if_splits)

lemma decode_rune_first_ascii:
  "fst (decode_rune (c # cs)) < 0x80 \<Longrightarrow> byte_val c < 0x80"
  by (auto simp: decode_rune.simps(2) Let_def in_range_def second_lo_def split: list.splits if_splits)

text \<open>Encoding a decoded rune gives back its bytes.\<close>

lemma decode_prefix:
  assumes "decode_rune s = (r, n)" "(r, n) \<noteq> (RuneError, 1)" "s \<noteq> []"
  shows "decode_rune (take n s @ t) = (r, n)"
  using assms
  by (cases s) (auto simp: decode_rune.simps(2) Let_def split: list.splits if_splits)

lemma digit64: "y < 64 \<Longrightarrow> (x * 64 + y) div 64 = x" "y < 64 \<Longrightarrow> (x * 64 + y) mod 64 = (y::nat)"
  by simp_all

lemma second_bounds: "second_lo b0 \<le> b1 \<Longrightarrow> b1 \<le> second_hi b0 \<Longrightarrow> 0x80 \<le> b1 \<and> b1 \<le> 0xBF"
  by (auto simp: second_lo_def second_hi_def split: if_splits)

lemma encode2:
  assumes "0xC2 \<le> b0" "b0 \<le> 0xDF" "0x80 \<le> b1" "b1 \<le> (0xBF::nat)"
  shows "encode_rune ((b0 - 0xC0) * 64 + (b1 - 0x80)) = [char_of b0, char_of b1]"
proof -
  define x y where "x = b0 - 0xC0" and "y = b1 - 0x80"
  then have xy: "b0 = 0xC0 + x" "b1 = 0x80 + y" "2 \<le> x" "x < 32" "y < 64" using assms by auto
  then have "0x80 \<le> x * 64 + y" "x * 64 + y < 0x800" by auto
  then show ?thesis using xy digit64 [OF xy(5), of x] by (simp add: encode_rune_def)
qed

lemma encode3:
  assumes "0xE0 \<le> b0" "b0 \<le> 0xEF" "second_lo b0 \<le> b1" "b1 \<le> second_hi b0" "0x80 \<le> b2" "b2 \<le> (0xBF::nat)"
  shows "encode_rune ((b0 - 0xE0) * 4096 + (b1 - 0x80) * 64 + (b2 - 0x80)) = [char_of b0, char_of b1, char_of b2]"
proof -
  define x y z where "x = b0 - 0xE0" and "y = b1 - 0x80" and "z = b2 - 0x80"
  then have xyz: "b0 = 0xE0 + x" "b1 = 0x80 + y" "b2 = 0x80 + z" "x < 16" "y < 64" "z < 64"
    using assms second_bounds [OF assms(3,4)] by auto
  have lohi: "x = 0 \<Longrightarrow> 0x20 \<le> y" "x = 13 \<Longrightarrow> y < 0x20"
    using assms xyz by (auto simp: second_lo_def second_hi_def split: if_splits)
  have r: "x * 4096 + y * 64 + z = (x * 64 + y) * 64 + z" by simp
  have lo: "0x800 \<le> (x * 64 + y) * 64 + z" using lohi(1) xyz by (cases "x = 0") auto
  have hi: "(x * 64 + y) * 64 + z < 0x10000" using xyz by auto
  have sur: "\<not> (0xD800 \<le> (x * 64 + y) * 64 + z \<and> (x * 64 + y) * 64 + z \<le> 0xDFFF)"
  proof (cases "x = 13")
    case True
    with lohi xyz show ?thesis by auto
  next
    case False
    with xyz have "x \<le> 12 \<or> 14 \<le> x" by auto
    with xyz show ?thesis by auto
  qed
  define w where "w = (x * 64 + y) * 64 + z"
  have d1: "w div 64 = x * 64 + y" "w mod 64 = z" unfolding w_def by (rule digit64 [OF xyz(6)])+
  have d2: "w div 4096 = x" using d1 digit64 [OF xyz(5)] by (simp add: div_mult2_eq [of _ 64 64, simplified])
  show ?thesis
    unfolding x_def [symmetric] y_def [symmetric] z_def [symmetric] r w_def [symmetric]
    using lo hi sur d1 d2 digit64(2) [OF xyz(5), of x] unfolding w_def [symmetric]
    by (auto simp: encode_rune_def xyz(1-3))
qed

lemma encode4:
  assumes "0xF0 \<le> b0" "b0 \<le> 0xF4" "second_lo b0 \<le> b1" "b1 \<le> second_hi b0" "0x80 \<le> b2" "b2 \<le> (0xBF::nat)"
    "0x80 \<le> b3" "b3 \<le> (0xBF::nat)"
  shows "encode_rune ((b0 - 0xF0) * 262144 + (b1 - 0x80) * 4096 + (b2 - 0x80) * 64 + (b3 - 0x80)) =
    [char_of b0, char_of b1, char_of b2, char_of b3]"
proof -
  define x y z u where "x = b0 - 0xF0" and "y = b1 - 0x80" and "z = b2 - 0x80" and "u = b3 - 0x80"
  then have xyz: "b0 = 0xF0 + x" "b1 = 0x80 + y" "b2 = 0x80 + z" "b3 = 0x80 + u" "x \<le> 4" "y < 64" "z < 64" "u < 64"
    using assms second_bounds [OF assms(3,4)] by auto
  have lohi: "x = 0 \<Longrightarrow> 0x10 \<le> y" "x = 4 \<Longrightarrow> y < 0x10"
    using assms xyz by (auto simp: second_lo_def second_hi_def split: if_splits)
  let ?r = "((x * 64 + y) * 64 + z) * 64 + u"
  have r: "x * 262144 + y * 4096 + z * 64 + u = ?r" by simp
  have lo: "0x10000 \<le> ?r" using lohi(1) xyz by (cases "x = 0") auto
  have hi: "?r \<le> 0x10FFFF" using lohi(2) xyz by (cases "x = 4") auto
  define w where "w = ?r"
  have d1: "w div 64 = (x * 64 + y) * 64 + z" "w mod 64 = u" unfolding w_def by (rule digit64 [OF xyz(8)])+
  have d2: "w div 4096 = x * 64 + y" using d1 digit64 [OF xyz(7)] by (simp add: div_mult2_eq [of _ 64 64, simplified])
  have d3: "w div 262144 = x" using d2 digit64 [OF xyz(6)] by (simp add: div_mult2_eq [of _ 4096 64, simplified])
  show ?thesis
    unfolding x_def [symmetric] y_def [symmetric] z_def [symmetric] u_def [symmetric] r w_def [symmetric]
    using lo hi d1 d2 d3 digit64(2) [OF xyz(7), of "x * 64 + y"] digit64(2) [OF xyz(6), of x]
    unfolding w_def [symmetric] by (simp add: encode_rune_def xyz(1-4))
qed

lemma encode_decode:
  assumes "decode_rune s = (r, n)" "(r, n) \<noteq> (RuneError, 1)" "s \<noteq> []"
  shows "encode_rune r = take n s"
proof -
  obtain c cs where s: "s = c # cs" using assms by (cases s) auto
  have hi: "\<not> byte_val c < 0x80 \<Longrightarrow> \<not> (0xC2 \<le> byte_val c \<and> byte_val c \<le> 0xDF) \<Longrightarrow> \<not> (0xE0 \<le> byte_val c \<and> byte_val c \<le> 0xEF)
    \<Longrightarrow> 0xF0 \<le> byte_val c \<and> byte_val c \<le> 0xF4"
    using assms unfolding s decode_rune.simps(2) Let_def by (auto split: if_splits)
  consider "byte_val c < 0x80" | "0xC2 \<le> byte_val c" "byte_val c \<le> 0xDF" | "0xE0 \<le> byte_val c" "byte_val c \<le> 0xEF"
    | "0xF0 \<le> byte_val c" "byte_val c \<le> 0xF4" using hi by blast
  then show ?thesis
  proof cases
    case 1
    with assms s show ?thesis by (auto simp: ascii_decode encode_rune_def)
  next
    case 2
    with assms s obtain c1 t where "cs = c1 # t" "in_range 0x80 0xBF c1" "n = 2"
      "r = (byte_val c - 0xC0) * 64 + cont_val c1"
      by (auto simp: decode_rune.simps(2) Let_def split: list.splits if_splits)
    then show ?thesis using 2 encode2 [of "byte_val c" "byte_val c1"] by (simp add: s in_range_def)
  next
    case 3
    with assms s obtain c1 c2 t where "cs = c1 # c2 # t" "in_range (second_lo (byte_val c)) (second_hi (byte_val c)) c1"
      "in_range 0x80 0xBF c2" "n = 3"
      "r = (byte_val c - 0xE0) * 4096 + cont_val c1 * 64 + cont_val c2"
      by (auto simp: decode_rune.simps(2) Let_def split: list.splits if_splits)
    then show ?thesis using 3 encode3 [of "byte_val c" "byte_val c1" "byte_val c2"] by (simp add: s in_range_def)
  next
    case 4
    with assms s obtain c1 c2 c3 t where "cs = c1 # c2 # c3 # t" "in_range (second_lo (byte_val c)) (second_hi (byte_val c)) c1"
      "in_range 0x80 0xBF c2" "in_range 0x80 0xBF c3" "n = 4"
      "r = (byte_val c - 0xF0) * 262144 + cont_val c1 * 4096 + cont_val c2 * 64 + cont_val c3"
      by (auto simp: decode_rune.simps(2) Let_def split: list.splits if_splits)
    then show ?thesis using 4 encode4 [of "byte_val c" "byte_val c1" "byte_val c2" "byte_val c3"] by (simp add: s in_range_def)
  qed
qed

subsection \<open>hash/fnv\<close>

unbundle bit_operations_syntax

text \<open>\<open>fnv.New32a()\<close>, \<open>Write\<close>, \<open>Sum32()\<close>: multiplication wraps at 32 bits.\<close>

definition fnv32a :: "bytes \<Rightarrow> 32 word" where
  "fnv32a bs = foldl (\<lambda>h c. (h XOR of_nat (byte_val c)) * 16777619) 2166136261 bs"

definition shard_index :: "nat \<Rightarrow> bytes \<Rightarrow> nat" where
  "shard_index n name = unat (fnv32a name mod of_nat n)"

lemma shard_index_less:
  assumes "0 < n" "n < 2 ^ 32"
  shows "shard_index n name < n"
proof -
  have "unat (of_nat n :: 32 word) = n"
    using assms by (simp add: unat_of_nat take_bit_nat_eq_self)
  then show ?thesis
    using assms by (simp add: shard_index_def unat_mod)
qed

end
