(* ===== verification/Json.thy ===== *)
theory Json
  imports Go_Encoding
begin

text \<open>
  The part of \<open>encoding/json\<close> wirefan uses. Output: string literals as the encoder writes them
  (with HTML escaping off, as \<open>marshalFrame\<close> sets it, or on) and the compaction of a
  \<open>json.RawMessage\<close>. Input: the grammar the scanner accepts, the nesting limit, the unquoting of
  string literals, and the rules by which an object's members are stored in a struct (exact field
  name first, then case folding; later members win; \<open>null\<close> leaves a string alone).

  Parsing spends fuel, one unit per value and per member; the length of the input plus one is
  always enough (\<open>parse_val_fuel\<close>).
\<close>

abbreviation quote :: char where "quote \<equiv> CHR 0x22"
abbreviation backslash :: char where "backslash \<equiv> CHR 0x5C"

subsection \<open>Encoding strings\<close>

definition hex4 :: "nat \<Rightarrow> string" where
  "hex4 n = [hex_digit (n div 4096 mod 16), hex_digit (n div 256 mod 16), hex_digit (n div 16 mod 16), hex_digit (n mod 16)]"

definition u_escape :: "nat \<Rightarrow> string" where
  "u_escape n = backslash # CHR ''u'' # hex4 n"

definition html_char :: "char \<Rightarrow> bool" where
  "html_char c \<longleftrightarrow> c \<in> {CHR ''<'', CHR ''>'', CHR ''&''}"

definition escape_ascii :: "bool \<Rightarrow> char \<Rightarrow> string" where
  "escape_ascii html c =
    (if c = quote \<or> c = backslash then [backslash, c]
     else if c = CHR 0x08 then [backslash, CHR ''b'']
     else if c = CHR 0x0C then [backslash, CHR ''f'']
     else if c = CHR 0x0A then [backslash, CHR ''n'']
     else if c = CHR 0x0D then [backslash, CHR ''r'']
     else if c = CHR 0x09 then [backslash, CHR ''t'']
     else if byte_val c < 0x20 \<or> (html \<and> html_char c) then u_escape (byte_val c)
     else [c])"

function escape_body :: "bool \<Rightarrow> string \<Rightarrow> string" where
  "escape_body html [] = []"
| "escape_body html (c # cs) =
    (if byte_val c < 0x80 then escape_ascii html c @ escape_body html cs
     else let (r, n) = decode_rune (c # cs) in
       (if (r, n) = (RuneError, 1) then u_escape RuneError
        else if r = 0x2028 \<or> r = 0x2029 then u_escape r
        else take n (c # cs)) @ escape_body html (drop n (c # cs)))"
  by pat_completeness auto
termination
proof (relation "measure (\<lambda>(html, s). length s)")
  fix html :: bool and c :: char and cs and x and r n :: nat
  assume "x = decode_rune (c # cs)" "(r, n) = x"
  then show "((html, drop n (c # cs)), html, c # cs) \<in> measure (\<lambda>(html, s). length s)"
    using decode_rune_size [of "c # cs"] by (metis case_prod_conv in_measure length_drop
        length_greater_0_conv diff_less less_le_trans list.distinct(1) snd_conv zero_less_one)
qed auto

declare escape_body.simps(2) [simp del]

lemma escape_body_ascii [simp]: "byte_val c < 0x80 \<Longrightarrow> escape_body h (c # cs) = escape_ascii h c @ escape_body h cs"
  by (simp add: escape_body.simps(2))

definition json_string :: "bool \<Rightarrow> string \<Rightarrow> string" where
  "json_string html s = [quote] @ escape_body html s @ [quote]"

subsection \<open>Objects\<close>

text \<open>An object from keys (plain ASCII names in this program) and already encoded values.\<close>

definition json_object :: "(string \<times> string) list \<Rightarrow> string" where
  "json_object kvs = ''{'' @ Join (map (\<lambda>(k, v). [quote] @ k @ [quote] @ '':'' @ v) kvs) '','' @ ''}''"

text \<open>\<open>compact\<close>: white space outside string literals is dropped. The state says whether the scan is inside a literal and after a backslash.\<close>

definition is_ws :: "char \<Rightarrow> bool" where
  "is_ws c \<longleftrightarrow> c \<in> {CHR '' '', CHR 0x09, CHR 0x0D, CHR 0x0A}"

fun compact :: "bool \<Rightarrow> string \<Rightarrow> string" where
  "compact in_str [] = []"
| "compact False (c # cs) = (if is_ws c then compact False cs
     else c # compact (c = quote) cs)"
| "compact True (c # cs) = (if c = backslash then (case cs of [] \<Rightarrow> [c] | d # ds \<Rightarrow> c # d # compact True ds)
     else c # compact (c \<noteq> quote) cs)"

lemma compact_length: "length (compact b s) \<le> length s"
  by (induction b s rule: compact.induct) (auto split: list.splits)

subsection \<open>Scanning\<close>

fun skip_ws :: "string \<Rightarrow> string" where
  "skip_ws [] = []"
| "skip_ws (c # cs) = (if is_ws c then skip_ws cs else c # cs)"

definition hex_val :: "char \<Rightarrow> nat option" where
  "hex_val c = (let b = byte_val c in
     if 48 \<le> b \<and> b \<le> 57 then Some (b - 48)
     else if 97 \<le> b \<and> b \<le> 102 then Some (b - 87)
     else if 65 \<le> b \<and> b \<le> 70 then Some (b - 55) else None)"

definition is_hex :: "char \<Rightarrow> bool" where
  "is_hex c \<longleftrightarrow> hex_val c \<noteq> None"

definition simple_escape :: "char \<Rightarrow> char option" where
  "simple_escape c =
    (if c = quote \<or> c = backslash \<or> c = CHR ''/'' then Some c
     else if c = CHR ''b'' then Some (CHR 0x08) else if c = CHR ''f'' then Some (CHR 0x0C)
     else if c = CHR ''n'' then Some (CHR 0x0A) else if c = CHR ''r'' then Some (CHR 0x0D)
     else if c = CHR ''t'' then Some (CHR 0x09) else None)"

text \<open>After the opening quote: the raw body of the literal and what follows the closing quote. \<open>esc_size\<close> is the number of bytes an escape takes after its backslash.\<close>

definition prepend :: "string \<Rightarrow> (string \<times> string) option \<Rightarrow> (string \<times> string) option" where
  "prepend p r = map_option (\<lambda>(a, b). (p @ a, b)) r"

fun esc_size :: "string \<Rightarrow> nat option" where
  "esc_size [] = None"
| "esc_size (e # r) =
    (if simple_escape e \<noteq> None then Some 1
     else if e = CHR ''u'' \<and> 4 \<le> length r \<and> list_all is_hex (take 4 r) then Some 5
     else None)"

fun scan_string :: "string \<Rightarrow> (string \<times> string) option" where
  "scan_string [] = None"
| "scan_string (c # cs) =
    (if c = quote then Some ([], cs)
     else if c = backslash then
       (case esc_size cs of
          None \<Rightarrow> None
        | Some k \<Rightarrow> prepend (c # take k cs) (scan_string (drop k cs)))
     else if byte_val c < 0x20 then None
     else prepend [c] (scan_string cs))"

text \<open>\<open>unquote\<close> of a scanned body: escapes, surrogate pairs, and invalid UTF-8 replaced.\<close>

definition hex4_val :: "char \<Rightarrow> char \<Rightarrow> char \<Rightarrow> char \<Rightarrow> nat" where
  "hex4_val a b c d = ((the (hex_val a) * 16 + the (hex_val b)) * 16 + the (hex_val c)) * 16 + the (hex_val d)"

definition is_surrogate :: "nat \<Rightarrow> bool" where
  "is_surrogate r \<longleftrightarrow> 0xD800 \<le> r \<and> r < 0xE000"

text \<open>\<open>getu4\<close>: the value of a leading \<open>\\uXXXX\<close>, when there is one.\<close>

fun getu4 :: "string \<Rightarrow> nat option" where
  "getu4 (b # u # x1 # x2 # x3 # x4 # r) =
     (if b = backslash \<and> u = CHR ''u'' \<and> is_hex x1 \<and> is_hex x2 \<and> is_hex x3 \<and> is_hex x4
      then Some (hex4_val x1 x2 x3 x4) else None)"
| "getu4 _ = None"

definition utf16_DecodeRune :: "nat \<Rightarrow> nat \<Rightarrow> nat" where
  "utf16_DecodeRune r1 r2 = (if 0xD800 \<le> r1 \<and> r1 < 0xDC00 \<and> 0xDC00 \<le> r2 \<and> r2 < 0xE000
     then (r1 - 0xD800) * 1024 + (r2 - 0xDC00) + 0x10000 else RuneError)"

function unquote :: "string \<Rightarrow> string" where
  "unquote [] = []"
| "unquote (c # cs) =
    (if c = backslash then
       (case cs of
          [] \<Rightarrow> []
        | e # r \<Rightarrow>
          (case simple_escape e of
             Some v \<Rightarrow> v # unquote r
           | None \<Rightarrow>
              (case getu4 (c # cs) of
                 None \<Rightarrow> []
               | Some rr \<Rightarrow>
                  if is_surrogate rr then
                    (case getu4 (drop 6 (c # cs)) of
                       Some rr1 \<Rightarrow>
                         if utf16_DecodeRune rr rr1 \<noteq> RuneError
                         then encode_rune (utf16_DecodeRune rr rr1) @ unquote (drop 12 (c # cs))
                         else encode_rune RuneError @ unquote (drop 6 (c # cs))
                     | None \<Rightarrow> encode_rune RuneError @ unquote (drop 6 (c # cs)))
                  else encode_rune rr @ unquote (drop 6 (c # cs)))))
     else if byte_val c < 0x80 then c # unquote cs
     else let (r, n) = decode_rune (c # cs) in encode_rune r @ unquote (drop n (c # cs)))"
  by pat_completeness auto
termination
proof (relation "measure length")
  fix c :: char and cs and x and r n :: nat
  assume "x = decode_rune (c # cs)" "(r, n) = x"
  then show "(drop n (c # cs), c # cs) \<in> measure length"
    using decode_rune_size [of "c # cs"] by (metis in_measure length_drop
        length_greater_0_conv diff_less less_le_trans list.distinct(1) snd_conv zero_less_one)
qed auto

subsection \<open>Values\<close>

text \<open>An object's member keeps the bytes its value was read from, which is what a \<open>json.RawMessage\<close> field stores.\<close>

datatype json =
    JNull
  | JBool bool
  | JNum string
  | JStr string
  | JArr "json list"
  | JObj "(string \<times> json \<times> bytes) list"

fun span_digits :: "string \<Rightarrow> string \<times> string" where
  "span_digits [] = ([], [])"
| "span_digits (c # cs) = (if is_digit c then (let (a, b) = span_digits cs in (c # a, b)) else ([], c # cs))"

text \<open>The number grammar: an optional sign, no leading zeros, an optional fraction and exponent.\<close>

definition scan_int :: "string \<Rightarrow> string option" where
  "scan_int s = (case s of
      [] \<Rightarrow> None
    | c # cs \<Rightarrow> if c = CHR ''0'' then Some cs
               else if is_digit c then Some (snd (span_digits cs)) else None)"

definition scan_digits1 :: "string \<Rightarrow> string option" where
  "scan_digits1 s = (let (a, b) = span_digits s in if a = [] then None else Some b)"

definition scan_frac :: "string \<Rightarrow> string option" where
  "scan_frac s = (case s of
      [] \<Rightarrow> Some []
    | c # cs \<Rightarrow> if c = CHR ''.'' then scan_digits1 cs else Some s)"

definition scan_exp :: "string \<Rightarrow> string option" where
  "scan_exp s = (case s of
      [] \<Rightarrow> Some []
    | c # cs \<Rightarrow>
       if c = CHR ''e'' \<or> c = CHR ''E'' then
         (case cs of [] \<Rightarrow> None
          | d # ds \<Rightarrow> if d = CHR ''+'' \<or> d = CHR ''-'' then scan_digits1 ds else scan_digits1 cs)
       else Some s)"

definition scan_number :: "string \<Rightarrow> string option" where
  "scan_number s =
     Option.bind (scan_int (TrimPrefix s ''-'')) (\<lambda>r. Option.bind (scan_frac r) scan_exp)"

definition scan_lit :: "string \<Rightarrow> string \<Rightarrow> string option" where
  "scan_lit w s = (if HasPrefix s w then Some (drop (length w) s) else None)"

definition maxNestingDepth :: nat where
  "maxNestingDepth = 10000"

definition consumed :: "string \<Rightarrow> string \<Rightarrow> string" where
  "consumed s r = take (length s - length r) s"

text \<open>
  One token: white space is skipped before it. The depth counts the objects and arrays that are open.
\<close>

definition tok :: "char \<Rightarrow> string \<Rightarrow> string option" where
  "tok c s = (case skip_ws s of [] \<Rightarrow> None | e # es \<Rightarrow> if e = c then Some es else None)"

definition tok_quote :: "string \<Rightarrow> (string \<times> string) option" where
  "tok_quote s = Option.bind (tok quote s) scan_string"

definition parse_scalar :: "string \<Rightarrow> (json \<times> string) option" where
  "parse_scalar s =
    (case s of
       [] \<Rightarrow> None
     | c # cs \<Rightarrow>
        if c = quote then map_option (\<lambda>(b, r). (JStr (unquote b), r)) (scan_string cs)
        else if c = CHR ''t'' then map_option (Pair (JBool True)) (scan_lit ''true'' s)
        else if c = CHR ''f'' then map_option (Pair (JBool False)) (scan_lit ''false'' s)
        else if c = CHR ''n'' then map_option (Pair JNull) (scan_lit ''null'' s)
        else map_option (\<lambda>r. (JNum (consumed s r), r)) (scan_number s))"

fun parse_val :: "nat \<Rightarrow> nat \<Rightarrow> string \<Rightarrow> (json \<times> string) option"
  and parse_elems :: "nat \<Rightarrow> nat \<Rightarrow> string \<Rightarrow> (json list \<times> string) option"
  and parse_members :: "nat \<Rightarrow> nat \<Rightarrow> string \<Rightarrow> ((string \<times> json \<times> bytes) list \<times> string) option" where
  "parse_val 0 d s = None"
| "parse_val (Suc n) d s =
    (case tok (CHR ''{'') s of
       Some r \<Rightarrow>
         if maxNestingDepth \<le> d then None
         else (case tok (CHR ''}'') r of
             Some r' \<Rightarrow> Some (JObj [], r')
           | None \<Rightarrow> map_option (map_prod JObj id) (parse_members n (Suc d) r))
     | None \<Rightarrow>
        (case tok (CHR ''['') s of
           Some r \<Rightarrow>
             if maxNestingDepth \<le> d then None
             else (case tok (CHR '']'') r of
                 Some r' \<Rightarrow> Some (JArr [], r')
               | None \<Rightarrow> map_option (map_prod JArr id) (parse_elems n (Suc d) r))
         | None \<Rightarrow> parse_scalar (skip_ws s)))"
| "parse_elems 0 d s = None"
| "parse_elems (Suc n) d s =
    Option.bind (parse_val n d s) (\<lambda>(v, r).
      case tok (CHR '']'') r of
        Some r' \<Rightarrow> Some ([v], r')
      | None \<Rightarrow> Option.bind (tok (CHR '','') r) (\<lambda>r'.
          map_option (map_prod (Cons v) id) (parse_elems n d r')))"
| "parse_members 0 d s = None"
| "parse_members (Suc n) d s =
    Option.bind (tok_quote s) (\<lambda>(k, r1). Option.bind (tok (CHR '':'') r1) (\<lambda>r2.
      Option.bind (parse_val n d r2) (\<lambda>(v, r3).
        let member = (unquote k, v, consumed (skip_ws r2) r3) in
        case tok (CHR ''}'') r3 of
          Some r' \<Rightarrow> Some ([member], r')
        | None \<Rightarrow> Option.bind (tok (CHR '','') r3) (\<lambda>r'.
            map_option (map_prod (Cons member) id) (parse_members n d r')))))"

definition json_parse :: "string \<Rightarrow> json option" where
  "json_parse s =
    (case parse_val (2 * length s + 1) 0 s of
       Some (v, r) \<Rightarrow> if skip_ws r = [] then Some v else None
     | None \<Rightarrow> None)"

subsection \<open>Enough fuel\<close>

lemma skip_ws_length: "length (skip_ws s) \<le> length s"
  by (induction s) auto

lemma tok_length: "tok c s = Some r \<Longrightarrow> length r < length s"
  using skip_ws_length [of s] by (auto simp: tok_def split: list.splits if_splits)

lemma scan_string_split: "scan_string s = Some (b, r) \<Longrightarrow> s = b @ quote # r"
proof (induction s arbitrary: b r rule: scan_string.induct)
  case (2 c cs)
  then show ?case
    by (auto simp: prepend_def split: if_splits option.splits)
qed simp

lemma tok_quote_length: "tok_quote s = Some (k, r) \<Longrightarrow> length r < length s"
  by (fastforce simp: tok_quote_def bind_eq_Some_conv dest: scan_string_split tok_length)

lemma span_digits_length: "length (snd (span_digits s)) \<le> length s"
  by (induction s) (auto split: prod.splits)

lemma scan_digits1_length: "scan_digits1 s = Some r \<Longrightarrow> length r \<le> length s"
  using span_digits_length [of s] by (auto simp: scan_digits1_def split: prod.splits if_splits)

lemma scan_int_length: "scan_int s = Some r \<Longrightarrow> length r < length s"
  using span_digits_length [of "tl s"] by (auto simp: scan_int_def split: list.splits if_splits)

lemma scan_frac_length: "scan_frac s = Some r \<Longrightarrow> length r \<le> length s"
  by (fastforce simp: scan_frac_def split: list.splits if_splits dest: scan_digits1_length)

lemma scan_exp_length: "scan_exp s = Some r \<Longrightarrow> length r \<le> length s"
  by (fastforce simp: scan_exp_def split: list.splits if_splits dest: scan_digits1_length)

lemma scan_number_length: "scan_number s = Some r \<Longrightarrow> length r < length s"
proof -
  assume "scan_number s = Some r"
  then obtain a b where "scan_int (TrimPrefix s ''-'') = Some a" "scan_frac a = Some b" "scan_exp b = Some r"
    by (auto simp: scan_number_def bind_eq_Some_conv)
  then have "length r < length (TrimPrefix s ''-'')"
    by (meson scan_int_length scan_frac_length scan_exp_length le_less_trans le_trans)
  then show ?thesis by (auto simp: TrimPrefix_def split: if_splits)
qed

lemma scan_lit_length: "scan_lit w s = Some r \<Longrightarrow> w \<noteq> [] \<Longrightarrow> length r < length s"
  by (auto simp: scan_lit_def HasPrefix_iff split: if_splits)

lemma parse_scalar_length: "parse_scalar s = Some (v, r) \<Longrightarrow> length r < length s"
  by (auto simp: parse_scalar_def split: list.splits if_splits
      dest!: scan_string_split scan_number_length scan_lit_length)

lemma parse_shorter:
  "(parse_val n d s = Some (v, r) \<longrightarrow> length r < length s) \<and>
   (parse_elems n d s = Some (vs, r) \<longrightarrow> length r < length s) \<and>
   (parse_members n d s = Some (ms, r) \<longrightarrow> length r < length s)"
proof (induction n arbitrary: d s v vs ms r)
  case (Suc n)
  have val: "parse_val n d s = Some (v, r) \<Longrightarrow> length r < length s"
    and elems: "parse_elems n d s = Some (vs, r) \<Longrightarrow> length r < length s"
    and members: "parse_members n d s = Some (ms, r) \<Longrightarrow> length r < length s" for d s v vs ms r
    using Suc by blast+
  have "length r < length s" if "parse_val (Suc n) d s = Some (v, r)"
    using that skip_ws_length [of s]
    by (fastforce dest: tok_length elems members parse_scalar_length split: option.splits if_splits)
  moreover have "length r < length s" if "parse_elems (Suc n) d s = Some (vs, r)"
    using that by (fastforce simp: bind_eq_Some_conv dest: tok_length val elems split: option.splits)
  moreover have "length r < length s" if "parse_members (Suc n) d s = Some (ms, r)"
    using that by (fastforce simp: bind_eq_Some_conv Let_def dest: tok_length tok_quote_length val members split: option.splits)
  ultimately show ?case by blast
qed simp

lemmas parse_val_shorter = parse_shorter [THEN conjunct1, rule_format]

text \<open>More fuel than twice the length does not change the result: the bound of \<open>json_parse\<close> is enough.\<close>

lemma parse_fuel:
  "(2 * length s < n \<longrightarrow> parse_val (Suc n) d s = parse_val n d s) \<and>
   (2 * length s + 1 < n \<longrightarrow> parse_elems (Suc n) d s = parse_elems n d s) \<and>
   (2 * length s + 1 < n \<longrightarrow> parse_members (Suc n) d s = parse_members n d s)"
proof (induction n arbitrary: d s)
  case (Suc n)
  have val: "2 * length s < n \<Longrightarrow> parse_val (Suc n) d s = parse_val n d s"
    and elems: "2 * length s + 1 < n \<Longrightarrow> parse_elems (Suc n) d s = parse_elems n d s"
    and members: "2 * length s + 1 < n \<Longrightarrow> parse_members (Suc n) d s = parse_members n d s" for d s
    using Suc by blast+
  have "parse_val (Suc (Suc n)) d s = parse_val (Suc n) d s" if "2 * length s < Suc n"
  proof -
    have "parse_members (Suc n) (Suc d) r = parse_members n (Suc d) r \<and>
          parse_elems (Suc n) (Suc d) r = parse_elems n (Suc d) r" if "tok c s = Some r" for c r
      using tok_length [OF that] \<open>2 * length s < Suc n\<close> by (intro conjI members elems) auto
    then show ?thesis
      by (simp only: parse_val.simps split: option.split) auto
  qed
  moreover have "parse_elems (Suc (Suc n)) d s = parse_elems (Suc n) d s" if "2 * length s + 1 < Suc n"
  proof -
    have "parse_elems (Suc n) d r' = parse_elems n d r'"
      if "parse_val n d s = Some (v, r)" "tok c r = Some r'" for v r c r'
      using tok_length [OF that(2)] parse_val_shorter [OF that(1)] \<open>2 * length s + 1 < Suc n\<close>
      by (intro elems) auto
    moreover have "parse_val (Suc n) d s = parse_val n d s"
      using \<open>2 * length s + 1 < Suc n\<close> by (intro val) auto
    ultimately show ?thesis
      by (simp only: parse_elems.simps) (auto intro!: bind_option_cong split: option.split)
  qed
  moreover have "parse_members (Suc (Suc n)) d s = parse_members (Suc n) d s" if "2 * length s + 1 < Suc n"
  proof -
    have v: "parse_val (Suc n) d r2 = parse_val n d r2"
      if "tok_quote s = Some (k, r1)" "tok c r1 = Some r2" for k r1 c r2
      using tok_length [OF that(2)] tok_quote_length [OF that(1)] \<open>2 * length s + 1 < Suc n\<close>
      by (intro val) auto
    have "parse_members (Suc n) d r' = parse_members n d r'"
      if "tok_quote s = Some (k, r1)" "tok c r1 = Some r2" "parse_val n d r2 = Some (v, r)" "tok e r = Some r'"
      for k r1 c r2 v r e r'
      using tok_length [OF that(2)] tok_length [OF that(4)] tok_quote_length [OF that(1)]
        parse_val_shorter [OF that(3)] \<open>2 * length s + 1 < Suc n\<close>
      by (intro members) auto
    with v show ?thesis
      by (simp only: parse_members.simps) (auto simp: Let_def intro!: bind_option_cong split: option.split)
  qed
  ultimately show ?case by blast
qed simp

lemma parse_val_fuel: "2 * length s < n \<Longrightarrow> parse_val n 0 s = parse_val (2 * length s + 1) 0 s"
proof (induction n)
  case (Suc n)
  show ?case
  proof (cases "2 * length s < n")
    case True
    then show ?thesis using Suc.IH parse_fuel [of s n 0] by simp
  next
    case False
    with Suc.prems have "Suc n = 2 * length s + 1" by simp
    then show ?thesis by simp
  qed
qed simp

subsection \<open>String literals: decoding inverts encoding\<close>

lemma hex_val_digit [simp]: "n < 16 \<Longrightarrow> hex_val (hex_digit n) = Some n"
  by (auto simp: hex_val_def Let_def byte_val_hex_digit)

lemma hex4_val_hex4:
  assumes "n < 65536"
  shows "hex4_val (hex_digit (n div 4096 mod 16)) (hex_digit (n div 256 mod 16)) (hex_digit (n div 16 mod 16)) (hex_digit (n mod 16)) = n"
proof -
  have q: "n div 4096 < 16" using assms by auto
  have d: "n div 256 = n div 16 div 16" "n div 4096 = n div 16 div 16 div 16"
    by (simp_all add: div_mult2_eq [symmetric])
  have "((n div 16 div 16 div 16 * 16 + n div 16 div 16 mod 16) * 16 + n div 16 mod 16) * 16 + n mod 16 = n"
    by (simp only: div_mult_mod_eq)
  then show ?thesis using q unfolding hex4_val_def by (simp only: d mod_less hex_val_digit mod_less_divisor zero_less_numeral option.sel)
qed

lemma unquote_u_escape:
  assumes "n < 65536" "\<not> is_surrogate n"
  shows "unquote (u_escape n @ t) = encode_rune n @ unquote t"
  using assms hex4_val_hex4 [OF assms(1)]
  by (simp add: u_escape_def hex4_def is_hex_def simple_escape_def)

lemma unquote_escape_ascii: "byte_val c < 0x80 \<Longrightarrow> unquote (escape_ascii h c @ t) = c # unquote t"
  using unquote_u_escape [of "byte_val c" t]
  by (auto simp: escape_ascii_def simple_escape_def is_surrogate_def encode_rune_def)

lemma unquote_rune:
  assumes "decode_rune (c # cs) = (r, n)" "(r, n) \<noteq> (RuneError, 1)" "0x80 \<le> byte_val c"
  shows "unquote (take n (c # cs) @ t) = take n (c # cs) @ unquote t"
proof -
  have n: "1 \<le> n" "n \<le> length (c # cs)" using decode_rune_size [of "c # cs"] assms by auto
  then obtain ds where d: "take n (c # cs) @ t = c # ds" by (cases n) auto
  have "decode_rune (c # ds) = (r, n)" using decode_prefix [OF assms(1,2), of t] unfolding d by simp
  moreover have "c \<noteq> backslash" using assms(3) by auto
  moreover have "drop n (c # ds) = t" unfolding d [symmetric] using n by simp
  ultimately show ?thesis using assms(3) encode_decode [OF assms(1,2)] by (simp add: d)
qed

text \<open>Reading a string literal back gives the string: escapes lose nothing of valid UTF-8.\<close>

lemma unquote_escape: "utf8_Valid s \<Longrightarrow> unquote (escape_body h s) = s"
proof (induction h s rule: escape_body.induct)
  case (2 h c cs)
  obtain r n where d: "decode_rune (c # cs) = (r, n)" by (cases "decode_rune (c # cs)")
  have ok: "(r, n) \<noteq> (RuneError, 1)" "utf8_Valid (drop n (c # cs))" using 2(3) d by (auto simp: utf8_Valid.simps(2))
  show ?case
  proof (cases "byte_val c < 0x80")
    case True
    with d ok 2(1) show ?thesis by (auto simp: unquote_escape_ascii ascii_decode)
  next
    case False
    have IH: "unquote (escape_body h (drop n (c # cs))) = drop n (c # cs)"
      using 2(2) [OF False d [symmetric]] ok by simp
    have line: "unquote (u_escape r @ escape_body h (drop n (c # cs))) = c # cs" if "r = 0x2028 \<or> r = 0x2029"
      using that unquote_u_escape [of r] encode_decode [OF d ok(1)] IH append_take_drop_id [of n "c # cs"]
      by (auto simp: is_surrogate_def)
    have "unquote (take n (c # cs) @ escape_body h (drop n (c # cs))) = c # cs"
      using unquote_rune [OF d ok(1)] False IH append_take_drop_id [of n "c # cs"] by simp
    with line False ok(1) d show ?thesis by (auto simp: escape_body.simps(2))
  qed
qed simp

subsection \<open>Scanning what the encoder wrote\<close>

lemma scan_u_escape: "scan_string (u_escape n @ t) = prepend (u_escape n) (scan_string t)"
  by (simp add: u_escape_def hex4_def is_hex_def simple_escape_def)

lemma scan_escape_ascii: "byte_val c < 0x80 \<Longrightarrow> scan_string (escape_ascii h c @ t) = prepend (escape_ascii h c) (scan_string t)"
  using scan_u_escape [of "byte_val c" t]
  by (auto simp: escape_ascii_def simple_escape_def)

lemma prepend_append [simp]: "prepend a (prepend b x) = prepend (a @ b) x"
  by (cases x) (auto simp: prepend_def)

lemma prepend_nil [simp]: "prepend [] x = x"
  by (cases x) (auto simp: prepend_def)

lemma scan_high: "\<forall>c \<in> set a. 0x80 \<le> byte_val c \<Longrightarrow> scan_string (a @ t) = prepend a (scan_string t)"
  by (induction a) auto

lemma rune_bytes_high:
  assumes "decode_rune (c # cs) = (r, n)" "0x80 \<le> byte_val c"
  shows "\<forall>x \<in> set (take n (c # cs)). 0x80 \<le> byte_val x"
proof
  fix x assume "x \<in> set (take n (c # cs))"
  then obtain i where "i < n" "x = (c # cs) ! i" by (auto simp: in_set_conv_nth)
  then show "0x80 \<le> byte_val x"
    using decode_rune_cont [of i "c # cs"] assms by (cases "i = 0") auto
qed

lemma scan_escape: "scan_string (escape_body h s @ t) = prepend (escape_body h s) (scan_string t)"
proof (induction h s rule: escape_body.induct)
  case (2 h c cs)
  obtain r n where d: "decode_rune (c # cs) = (r, n)" by (cases "decode_rune (c # cs)")
  show ?case
  proof (cases "byte_val c < 0x80")
    case True
    with 2(1) show ?thesis by (simp add: scan_escape_ascii)
  next
    case False
    have IH: "scan_string (escape_body h (drop n (c # cs)) @ t) = prepend (escape_body h (drop n (c # cs))) (scan_string t)"
      using 2(2) [OF False d [symmetric]] by simp
    show ?thesis using False d IH scan_u_escape scan_high [OF rune_bytes_high [OF d]] by (auto simp: escape_body.simps(2))
  qed
qed simp

lemma scan_json_string: "scan_string (escape_body h s @ quote # t) = Some (escape_body h s, t)"
  by (simp add: scan_escape prepend_def)

subsection \<open>Decoding into a struct\<close>

text \<open>
  The fields of a target struct: a Go \<open>string\<close> or a \<open>json.RawMessage\<close>. A member goes to the field
  of exactly its name, else to the field its name folds to: \<open>foldName\<close> upper-cases ASCII letters and
  maps the two other runes that fold to one of them (the long s and the Kelvin sign).
  A decoded struct is the map of the fields that were set.
\<close>

datatype fkind = FString | FRaw

definition foldRune :: "nat \<Rightarrow> nat" where
  "foldRune r = (if 97 \<le> r \<and> r \<le> 122 then r - 32 else if r = 0x17F then 83 else if r = 0x212A then 75 else r)"

definition foldName :: "string \<Rightarrow> nat list" where
  "foldName s = map foldRune (runes s)"

definition field_of :: "(string \<times> fkind) list \<Rightarrow> string \<Rightarrow> (string \<times> fkind) option" where
  "field_of fields key =
    (case find (\<lambda>(f, _). f = key) fields of
       Some x \<Rightarrow> Some x
     | None \<Rightarrow> find (\<lambda>(f, _). foldName f = foldName key) fields)"

text \<open>The flag records whether no error was saved so far; \<open>strict\<close> is \<open>DisallowUnknownFields\<close>.\<close>

fun store_member :: "(string \<times> fkind) list \<Rightarrow> bool \<Rightarrow> string \<times> json \<times> bytes \<Rightarrow> (string, string) gomap \<times> bool \<Rightarrow> (string, string) gomap \<times> bool" where
  "store_member fields strict (k, v, raw) (st, ok) =
    (case field_of fields k of
       None \<Rightarrow> (st, ok \<and> \<not> strict)
     | Some (f, FRaw) \<Rightarrow> (gm_put f raw st, ok)
     | Some (f, FString) \<Rightarrow>
        (case v of
           JStr x \<Rightarrow> (gm_put f x st, ok)
         | JNull \<Rightarrow> (st, ok)
         | _ \<Rightarrow> (st, False)))"

definition decode_struct :: "(string \<times> fkind) list \<Rightarrow> bool \<Rightarrow> json \<Rightarrow> (string, string) gomap option" where
  "decode_struct fields strict v =
    (case v of
       JNull \<Rightarrow> Some []
     | JObj ms \<Rightarrow> (case fold (store_member fields strict) ms ([], True) of (st, ok) \<Rightarrow> if ok then Some st else None)
     | _ \<Rightarrow> None)"

text \<open>\<open>json.Unmarshal\<close> takes the whole input, \<open>Decoder.Decode\<close> the first value of a stream.\<close>

definition json_Unmarshal :: "(string \<times> fkind) list \<Rightarrow> bytes \<Rightarrow> (string, string) gomap option" where
  "json_Unmarshal fields raw = Option.bind (json_parse raw) (decode_struct fields False)"

definition json_Decode :: "(string \<times> fkind) list \<Rightarrow> bool \<Rightarrow> bytes \<Rightarrow> (string, string) gomap option" where
  "json_Decode fields strict s =
    Option.bind (parse_val (2 * length s + 1) 0 s) (\<lambda>(v, r). decode_struct fields strict v)"

definition str_field :: "string \<Rightarrow> (string, string) gomap \<Rightarrow> string" where
  "str_field f st = (case gm_get st f of Some v \<Rightarrow> v | None \<Rightarrow> [])"

subsection \<open>Objects: parsing inverts encoding\<close>

definition plain_key :: "string \<Rightarrow> bool" where
  "plain_key k \<longleftrightarrow> (\<forall>c \<in> set k. 0x20 \<le> byte_val c \<and> byte_val c < 0x80 \<and> c \<noteq> quote \<and> c \<noteq> backslash)"

lemma scan_plain: "plain_key k \<Longrightarrow> scan_string (k @ quote # t) = Some (k, t)"
  by (induction k) (auto simp: plain_key_def prepend_def)

lemma unquote_plain: "plain_key k \<Longrightarrow> unquote k = k"
  by (induction k) (auto simp: plain_key_def)

lemma tok_hit: "\<not> is_ws c \<Longrightarrow> tok c (c # t) = Some t"
  by (simp add: tok_def)

lemma tok_miss: "\<not> is_ws e \<Longrightarrow> e \<noteq> c \<Longrightarrow> tok c (e # t) = None"
  by (simp add: tok_def)

lemma punct_not_ws [simp]:
  "\<not> is_ws quote" "\<not> is_ws (CHR '':'')" "\<not> is_ws (CHR '','')" "\<not> is_ws (CHR ''{'')" "\<not> is_ws (CHR ''}'')"
  by (simp_all add: is_ws_def)

lemma parse_json_string:
  "utf8_Valid v \<Longrightarrow> parse_val (Suc n) d (json_string h v @ t) = Some (JStr v, t)"
  by (simp add: json_string_def tok_miss parse_scalar_def scan_json_string unquote_escape)

lemma parse_string_members:
  assumes "kvs \<noteq> []" "length kvs < n" "\<forall>(k, v) \<in> set kvs. plain_key k \<and> utf8_Valid v"
  shows "parse_members n d (Join (map (\<lambda>(k, v). [quote] @ k @ [quote] @ '':'' @ json_string h v) kvs) '','' @ CHR ''}'' # t) =
    Some (map (\<lambda>(k, v). (k, JStr v, json_string h v)) kvs, t)"
  using assms
proof (induction kvs arbitrary: n)
  case (Cons kv kvs)
  obtain k v where kv: "kv = (k, v)" by (cases kv)
  obtain m where n: "n = Suc (Suc m)" using Cons.prems(2) by (cases n; cases "n - 1") auto
  have kvok: "plain_key k" "utf8_Valid v" using Cons.prems(3) kv by auto
  have con: "consumed (skip_ws (json_string h v @ u)) u = json_string h v" for u
    by (simp add: consumed_def json_string_def)
  have tq: "tok_quote (quote # k @ quote # u) = Some (k, u)" for u
    using scan_plain [OF kvok(1)] by (simp add: tok_quote_def tok_hit)
  show ?case
  proof (cases kvs)
    case Nil
    then show ?thesis
      using kvok tq con parse_json_string [OF kvok(2)]
      by (simp add: kv n tok_hit unquote_plain Let_def del: parse_val.simps)
  next
    case (Cons kv' kvs')
    have IH: "parse_members (Suc m) d (Join (map (\<lambda>(k, v). [quote] @ k @ [quote] @ '':'' @ json_string h v) kvs) '','' @ CHR ''}'' # t) =
      Some (map (\<lambda>(k, v). (k, JStr v, json_string h v)) kvs, t)"
      using Cons.IH [of "Suc m"] Cons.prems n local.Cons by auto
    have J: "Join (map (\<lambda>(k, v). [quote] @ k @ [quote] @ '':'' @ json_string h v) (kv # kvs)) '','' @ CHR ''}'' # t =
      quote # k @ quote # CHR '':'' # json_string h v @ CHR '','' #
        (Join (map (\<lambda>(k, v). [quote] @ k @ [quote] @ '':'' @ json_string h v) kvs) '','' @ CHR ''}'' # t)"
      by (simp add: local.Cons kv)
    show ?thesis
      unfolding J unfolding n parse_members.simps(2) [of "Suc m"] tq
      using IH by (simp add: tok_hit tok_miss kvok unquote_plain con parse_json_string Let_def kv del: parse_val.simps parse_members.simps)
  qed
qed simp

lemma Join_length: "\<forall>x \<in> set xs. x \<noteq> [] \<Longrightarrow> length xs \<le> length (Join xs sep)"
proof (induction xs)
  case (Cons x xs)
  then have "1 \<le> length x" by (cases x) auto
  moreover have "length xs \<le> length (Join xs sep)" using Cons by simp
  ultimately show ?case by (cases xs) auto
qed simp

text \<open>An object of strings parses to its members, whatever the strings hold.\<close>

lemma parse_string_object:
  assumes "kvs \<noteq> []" "\<forall>(k, v) \<in> set kvs. plain_key k \<and> utf8_Valid v"
  shows "json_parse (json_object (map (\<lambda>(k, v). (k, json_string h v)) kvs)) =
    Some (JObj (map (\<lambda>(k, v). (k, JStr v, json_string h v)) kvs))"
proof -
  let ?f = "\<lambda>(k, v). [quote] @ k @ [quote] @ '':'' @ json_string h v"
  let ?J = "Join (map ?f kvs) '',''"
  have obj: "json_object (map (\<lambda>(k, v). (k, json_string h v)) kvs) = CHR ''{'' # ?J @ CHR ''}'' # []"
    by (simp add: json_object_def case_prod_unfold comp_def)
  have len: "length kvs \<le> length ?J"
    using Join_length [of "map ?f kvs" "'',''"] by (simp add: case_prod_unfold)
  have "?J \<noteq> []" using len assms(1) by auto
  moreover have "hd ?J = quote"
    using assms(1) by (cases kvs; cases "tl kvs") auto
  ultimately have hd: "tok (CHR ''}'') (?J @ CHR ''}'' # []) = None"
    by (cases ?J) (auto simp: tok_def)
  have "parse_members (2 * length (CHR ''{'' # ?J @ CHR ''}'' # [])) (Suc 0) (?J @ CHR ''}'' # []) =
    Some (map (\<lambda>(k, v). (k, JStr v, json_string h v)) kvs, [])"
    by (rule parse_string_members [OF assms(1) _ assms(2)]) (use len in simp)
  then show ?thesis
    unfolding json_parse_def obj Suc_eq_plus1 [symmetric] parse_val.simps
    using hd by (simp add: tok_hit maxNestingDepth_def del: parse_members.simps)
qed

end
