(* ===== verification/Frames.thy ===== *)
theory Frames
  imports Json
begin

text \<open>
  The wire format of \<open>internal/conn/handler.go\<close> and \<open>conn.go\<close>: the messages a client sends, the
  channel-name rules, and the frames the server writes. \<open>encoding/json\<close> writes the keys of a map in
  order and the fields of a struct as declared, so the frames below list them as they appear on the
  wire.
\<close>

subsection \<open>Channel names\<close>

definition maxChannelNameLen :: nat where
  "maxChannelNameLen = 128"

definition ctl_rune :: "nat \<Rightarrow> bool" where
  "ctl_rune r \<longleftrightarrow> r < 0x20 \<or> r = 0x7F"

text \<open>The error, when there is one, is its text.\<close>

definition ValidateChannelName :: "string \<Rightarrow> string option" where
  "ValidateChannelName name =
    (if name = [] then Some ''channel name is empty''
     else if length name > maxChannelNameLen then Some (''channel name exceeds '' @ utoa maxChannelNameLen @ '' bytes'')
     else if list_ex ctl_rune (runes name) then Some ''channel name contains control character''
     else None)"

definition reservedChannelPrefix :: string where
  "reservedChannelPrefix = ''_''"

definition statsChannel :: string where
  "statsChannel = ''_wirefan-stats''"

definition reservedSubscribeAllowed :: "string \<Rightarrow> bool" where
  "reservedSubscribeAllowed name \<longleftrightarrow> name = statsChannel"

definition authRequiredPrefixes :: "string list" where
  "authRequiredPrefixes = [''private-'', ''presence-'']"

definition channelReserved :: "string \<Rightarrow> bool" where
  "channelReserved name \<longleftrightarrow> HasPrefix name reservedChannelPrefix"

definition ChannelRequiresAuth :: "string \<Rightarrow> bool" where
  "ChannelRequiresAuth name \<longleftrightarrow> list_ex (HasPrefix name) authRequiredPrefixes"

lemma reserved_not_auth: "channelReserved name \<Longrightarrow> \<not> ChannelRequiresAuth name"
  by (cases name) (auto simp: channelReserved_def ChannelRequiresAuth_def authRequiredPrefixes_def
      reservedChannelPrefix_def HasPrefix_def)

text \<open>An accepted name has none of the bytes that are ASCII control characters.\<close>

lemma runes_ctl_byte: "c \<in> set s \<Longrightarrow> byte_val c < 0x80 \<Longrightarrow> byte_val c \<in> set (runes s)"
proof (induction s rule: runes.induct)
  case (2 d ds)
  obtain r n where d: "decode_rune (d # ds) = (r, n)" by (cases "decode_rune (d # ds)")
  have n: "1 \<le> n" "n \<le> length (d # ds)" using decode_rune_size [of "d # ds"] d by auto
  obtain i where i: "i < length (d # ds)" "c = (d # ds) ! i" using "2.prems"(1) by (metis in_set_conv_nth)
  show ?case
  proof (cases "i < n")
    case True
    then have "i = 0" using decode_rune_cont [of i "d # ds"] d i(2) "2.prems"(2) by fastforce
    with i(2) have "c = d" by simp
    with "2.prems"(2) show ?thesis by simp
  next
    case False
    then have "c \<in> set (drop n (d # ds))" using i n
      by (metis in_set_conv_nth length_drop le_add_diff_inverse linorder_not_less nth_drop add_less_cancel_left nat_le_linear)
    then show ?thesis using 2 d by (simp add: runes.simps(2))
  qed
qed simp

lemma valid_name:
  assumes "ValidateChannelName name = None"
  shows "name \<noteq> [] \<and> length name \<le> maxChannelNameLen \<and> (\<forall>c \<in> set name. 0x20 \<le> byte_val c \<and> byte_val c \<noteq> 0x7F)"
proof -
  have "\<not> ctl_rune (byte_val c)" if "c \<in> set name" "byte_val c < 0x80" for c
    using runes_ctl_byte [OF that] assms by (auto simp: ValidateChannelName_def list_ex_iff split: if_splits)
  then show ?thesis using assms
    by (force simp: ValidateChannelName_def ctl_rune_def split: if_splits)
qed

subsection \<open>Client messages\<close>

record incoming =
  msg_Type :: string
  msg_Channel :: string
  msg_Token :: string
  msg_Data :: bytes

definition incoming_fields :: "(string \<times> fkind) list" where
  "incoming_fields = [(''type'', FString), (''channel'', FString), (''token'', FString), (''data'', FRaw)]"

definition Unmarshal_incoming :: "bytes \<Rightarrow> incoming option" where
  "Unmarshal_incoming raw = map_option (\<lambda>st.
     \<lparr>msg_Type = str_field ''type'' st, msg_Channel = str_field ''channel'' st,
      msg_Token = str_field ''token'' st, msg_Data = str_field ''data'' st\<rparr>)
     (json_Unmarshal incoming_fields raw)"

subsection \<open>Server frames\<close>

text \<open>
  The values of a frame: a string, or a \<open>json.RawMessage\<close>, which is written compacted (\<open>null\<close> when
  it is empty) and fails the whole encoding when it is not JSON; the error is ignored, so nothing
  is written then.
\<close>

datatype fval = VStr string | VRaw bytes

fun fval_ok :: "fval \<Rightarrow> bool" where
  "fval_ok (VStr s) = True"
| "fval_ok (VRaw d) = (d = [] \<or> json_parse d \<noteq> None)"

fun enc_fval :: "fval \<Rightarrow> string" where
  "enc_fval (VStr s) = json_string False s"
| "enc_fval (VRaw d) = (if d = [] then ''null'' else compact False d)"

definition marshalFrame :: "(string \<times> fval) list \<Rightarrow> bytes" where
  "marshalFrame kvs =
    (if list_all (\<lambda>(k, v). fval_ok v) kvs then json_object (map (\<lambda>(k, v). (k, enc_fval v)) kvs) else [])"

definition event_frame :: "string \<Rightarrow> bytes \<Rightarrow> string \<Rightarrow> bytes" where
  "event_frame channel data ident =
    marshalFrame [(''channel'', VStr channel), (''data'', VRaw data), (''id'', VStr ident), (''type'', VStr ''event'')]"

definition ack_frame :: "string \<Rightarrow> string \<Rightarrow> bytes" where
  "ack_frame typ channel = marshalFrame [(''channel'', VStr channel), (''type'', VStr typ)]"

definition protocolVersion :: string where
  "protocolVersion = ''v1''"

text \<open>The greeting goes through \<open>json.Marshal\<close>, which escapes for HTML.\<close>

definition hello_frame :: "string \<Rightarrow> bytes" where
  "hello_frame socketID = json_object (map (\<lambda>(k, v). (k, json_string True v))
     [(''socket_id'', socketID), (''type'', ''connected''), (''version'', protocolVersion)])"

record errorFrame =
  ef_Type :: string
  ef_Code :: string
  ef_Message :: string
  ef_Op :: string
  ef_Channel :: string

definition omitempty :: "string \<Rightarrow> string \<Rightarrow> (string \<times> fval) list" where
  "omitempty k v = (if v = [] then [] else [(k, VStr v)])"

definition marshal_errorFrame :: "errorFrame \<Rightarrow> bytes" where
  "marshal_errorFrame f = marshalFrame
    ([(''type'', VStr (ef_Type f)), (''code'', VStr (ef_Code f)), (''message'', VStr (ef_Message f))] @
     omitempty ''op'' (ef_Op f) @ omitempty ''channel'' (ef_Channel f))"

definition error_frame :: "string \<Rightarrow> string \<Rightarrow> errorFrame" where
  "error_frame code message = \<lparr>ef_Type = ''error'', ef_Code = code, ef_Message = message, ef_Op = [], ef_Channel = []\<rparr>"

definition op_error_frame :: "incoming \<Rightarrow> string \<Rightarrow> string \<Rightarrow> errorFrame" where
  "op_error_frame msg code message =
    (let f = \<lparr>ef_Type = ''error'', ef_Code = code, ef_Message = message, ef_Op = msg_Type msg, ef_Channel = []\<rparr> in
     if length (msg_Channel msg) \<le> maxChannelNameLen then f\<lparr>ef_Channel := msg_Channel msg\<rparr> else f)"

subsection \<open>Sizes\<close>

lemma escape_ascii_length: "length (escape_ascii h c) \<le> 6"
  by (simp add: escape_ascii_def u_escape_def hex4_def)

lemma u_escape_length [simp]: "length (u_escape n) = 6"
  by (simp add: u_escape_def hex4_def)

lemma escape_body_length: "length (escape_body h s) \<le> 6 * length s"
proof (induction h s rule: escape_body.induct)
  case (2 h c cs)
  obtain r n where d: "decode_rune (c # cs) = (r, n)" by (cases "decode_rune (c # cs)")
  have n: "1 \<le> n" "n \<le> length (c # cs)" using decode_rune_size [of "c # cs"] d by auto
  show ?case
  proof (cases "byte_val c < 0x80")
    case True
    with 2(1) show ?thesis using escape_ascii_length [of h c] by simp
  next
    case False
    have "length (escape_body h (drop n (c # cs))) \<le> 6 * length (drop n (c # cs))"
      using 2(2) [OF False d [symmetric]] by simp
    moreover have "length (escape_body h (c # cs)) \<le> 6 * n + length (escape_body h (drop n (c # cs)))"
      using False d n by (auto simp: escape_body.simps(2))
    ultimately show ?thesis using n by simp
  qed
qed simp

lemma json_string_length: "length (json_string h s) \<le> 6 * length s + 2"
  using escape_body_length [of h s] by (simp add: json_string_def)

lemma plain_escape_ascii:
  assumes "0x20 \<le> byte_val c" "c \<noteq> quote" "c \<noteq> backslash"
  shows "escape_ascii False c = [c]"
proof -
  have "c \<noteq> CHR 0x08" "c \<noteq> CHR 0x09" "c \<noteq> CHR 0x0A" "c \<noteq> CHR 0x0C" "c \<noteq> CHR 0x0D"
    using assms(1) by force+
  with assms show ?thesis by (simp add: escape_ascii_def)
qed

lemma plain_escape: "plain_key s \<Longrightarrow> escape_body False s = s"
proof (induction s)
  case (Cons c s)
  then have "0x20 \<le> byte_val c" "byte_val c < 0x80" "c \<noteq> quote" "c \<noteq> backslash" "plain_key s"
    by (simp_all add: plain_key_def)
  with Cons.IH show ?case by (simp add: plain_escape_ascii)
qed simp

lemma plain_string_length: "plain_key s \<Longrightarrow> length (json_string False s) = length s + 2"
  by (simp add: json_string_def plain_escape)

lemma plain_utf8: "plain_key s \<Longrightarrow> utf8_Valid s"
  by (induction s) (auto simp: plain_key_def)

lemma marshalFrame_strings:
  "marshalFrame (map (\<lambda>(k, v). (k, VStr v)) kvs) = json_object (map (\<lambda>(k, v). (k, json_string False v)) kvs)"
  by (simp add: marshalFrame_def list_all_iff case_prod_unfold comp_def)

text \<open>The members of an error frame, as the client reads them.\<close>

definition error_members :: "errorFrame \<Rightarrow> (string \<times> string) list" where
  "error_members f = [(''type'', ef_Type f), (''code'', ef_Code f), (''message'', ef_Message f)] @
     (if ef_Op f = [] then [] else [(''op'', ef_Op f)]) @
     (if ef_Channel f = [] then [] else [(''channel'', ef_Channel f)])"

lemma marshal_errorFrame_object:
  "marshal_errorFrame f = json_object (map (\<lambda>(k, v). (k, json_string False v)) (error_members f))"
proof -
  have "[(''type'', VStr (ef_Type f)), (''code'', VStr (ef_Code f)), (''message'', VStr (ef_Message f))] @
      omitempty ''op'' (ef_Op f) @ omitempty ''channel'' (ef_Channel f) = map (\<lambda>(k, v). (k, VStr v)) (error_members f)"
    by (simp add: error_members_def omitempty_def)
  then show ?thesis unfolding marshal_errorFrame_def by (simp only: marshalFrame_strings)
qed

lemma op_error_length:
  assumes "plain_key code" "plain_key message" "plain_key (msg_Type msg)"
    and "length code + length message + length (msg_Type msg) \<le> 180"
  shows "length (marshal_errorFrame (op_error_frame msg code message)) < 1024"
proof -
  let ?f = "op_error_frame msg code message"
  have f: "ef_Type ?f = ''error''" "ef_Code ?f = code" "ef_Message ?f = message" "ef_Op ?f = msg_Type msg"
    "length (ef_Channel ?f) \<le> 128"
    by (auto simp: op_error_frame_def Let_def maxChannelNameLen_def)
  have "length (json_string False (ef_Channel ?f)) \<le> 770"
    using json_string_length [of False "ef_Channel ?f"] f(5) by simp
  moreover have "plain_key ''error''" by (simp add: plain_key_def)
  ultimately show ?thesis
    using assms f plain_string_length [of "''error''"]
    by (auto simp: marshal_errorFrame_object error_members_def json_object_def plain_string_length)
qed

lemma error_length:
  assumes "plain_key code" "plain_key message" "length code + length message \<le> 180"
  shows "length (marshal_errorFrame (error_frame code message)) < 1024"
  using assms plain_string_length [of "''error''"]
  by (simp add: marshal_errorFrame_object error_frame_def error_members_def json_object_def plain_string_length plain_key_def [of "''error''"])

lemma ack_length:
  assumes "plain_key typ" "length typ \<le> 180" "length channel \<le> maxChannelNameLen"
  shows "length (ack_frame typ channel) < 1024"
proof -
  have "length (json_string False channel) \<le> 770"
    using json_string_length [of False channel] assms(3) by (simp add: maxChannelNameLen_def)
  then show ?thesis using assms
    by (simp add: ack_frame_def marshalFrame_def json_object_def plain_string_length)
qed

subsection \<open>Properties\<close>

text \<open>
  Every reply the server writes is well-formed JSON that carries its fields unchanged. Parsing an
  acknowledgement, a greeting or an error frame gives exactly the members it was built from, for
  every channel name, code and message that is valid UTF-8, whatever quotes, backslashes, control
  characters or line separators it holds; empty \<open>op\<close> and \<open>channel\<close> members are absent.
\<close>

theorem replies_parse_back:
  assumes "utf8_Valid typ" "utf8_Valid channel" "utf8_Valid sid"
    and "\<forall>v \<in> {ef_Type f, ef_Code f, ef_Message f, ef_Op f, ef_Channel f}. utf8_Valid v"
  shows "map_option (\<lambda>j. case j of JObj ms \<Rightarrow> map (\<lambda>(k, v, _). (k, v)) ms | _ \<Rightarrow> []) (json_parse (ack_frame typ channel)) =
      Some [(''channel'', JStr channel), (''type'', JStr typ)] \<and>
    map_option (\<lambda>j. case j of JObj ms \<Rightarrow> map (\<lambda>(k, v, _). (k, v)) ms | _ \<Rightarrow> []) (json_parse (hello_frame sid)) =
      Some [(''socket_id'', JStr sid), (''type'', JStr ''connected''), (''version'', JStr protocolVersion)] \<and>
    map_option (\<lambda>j. case j of JObj ms \<Rightarrow> map (\<lambda>(k, v, _). (k, v)) ms | _ \<Rightarrow> []) (json_parse (marshal_errorFrame f)) =
      Some (map (\<lambda>(k, v). (k, JStr v)) (error_members f))"
proof -
  have ack: "ack_frame typ channel = json_object (map (\<lambda>(k, v). (k, json_string False v)) [(''channel'', channel), (''type'', typ)])"
    using marshalFrame_strings [of "[(''channel'', channel), (''type'', typ)]"] by (simp add: ack_frame_def)
  have keys: "plain_key ''channel''" "plain_key ''type''" "plain_key ''socket_id''" "plain_key ''version''"
    "plain_key ''code''" "plain_key ''message''" "plain_key ''op''" "plain_key protocolVersion" "plain_key ''connected''"
    by (simp_all add: plain_key_def protocolVersion_def)
  have "json_parse (ack_frame typ channel) =
      Some (JObj (map (\<lambda>(k, v). (k, JStr v, json_string False v)) [(''channel'', channel), (''type'', typ)]))"
    unfolding ack by (rule parse_string_object) (use assms keys in auto)
  moreover have "json_parse (hello_frame sid) = Some (JObj (map (\<lambda>(k, v). (k, JStr v, json_string True v))
      [(''socket_id'', sid), (''type'', ''connected''), (''version'', protocolVersion)]))"
    unfolding hello_frame_def by (rule parse_string_object) (use assms keys plain_utf8 in auto)
  moreover have "json_parse (marshal_errorFrame f) = Some (JObj (map (\<lambda>(k, v). (k, JStr v, json_string False v)) (error_members f)))"
    unfolding marshal_errorFrame_object
    by (rule parse_string_object) (use assms keys in \<open>auto simp: error_members_def\<close>)
  ultimately show ?thesis by (simp add: case_prod_unfold comp_def)
qed

theorem replies_parse_back_witness:
  "map_option (\<lambda>j. case j of JObj ms \<Rightarrow> map (\<lambda>(k, v, _). (k, v)) ms | _ \<Rightarrow> []) (json_parse (ack_frame ''subscribed'' [CHR 0x22, CHR 0x0A])) =
     Some [(''channel'', JStr [CHR 0x22, CHR 0x0A]), (''type'', JStr ''subscribed'')]"
proof -
  have "plain_key ''subscribed''" "plain_key ''s1''" by (simp_all add: plain_key_def)
  then have "utf8_Valid ''subscribed''" "utf8_Valid ''s1''" by (simp_all add: plain_utf8)
  moreover have "utf8_Valid [CHR 0x22, CHR 0x0A]" by simp
  ultimately show ?thesis
    using replies_parse_back [of "''subscribed''" "[CHR 0x22, CHR 0x0A]" "''s1''" "error_frame [] []"]
    by (simp add: error_frame_def)
qed

end
