(* ===== verification/Sha256.thy ===== *)
theory Sha256
  imports Go_Encoding
begin

text \<open>
  \<open>crypto/sha256\<close> and \<open>crypto/hmac\<close> of the Go standard library, written out from FIPS 180-4 and
  RFC 2104 on 32-bit words, so that signing and verifying a token is a computation of the model
  and not an assumption about a hash. Nothing below assumes collision freedom: the statements
  about tokens name the collision they would need.
\<close>

unbundle bit_operations_syntax

type_synonym w32 = "32 word"

definition sha_K :: "w32 list" where
  "sha_K =
    [1116352408, 1899447441, 3049323471, 3921009573, 961987163, 1508970993, 2453635748, 2870763221,
     3624381080, 310598401, 607225278, 1426881987, 1925078388, 2162078206, 2614888103, 3248222580,
     3835390401, 4022224774, 264347078, 604807628, 770255983, 1249150122, 1555081692, 1996064986,
     2554220882, 2821834349, 2952996808, 3210313671, 3336571891, 3584528711, 113926993, 338241895,
     666307205, 773529912, 1294757372, 1396182291, 1695183700, 1986661051, 2177026350, 2456956037,
     2730485921, 2820302411, 3259730800, 3345764771, 3516065817, 3600352804, 4094571909, 275423344,
     430227734, 506948616, 659060556, 883997877, 958139571, 1322822218, 1537002063, 1747873779,
     1955562222, 2024104815, 2227730452, 2361852424, 2428436474, 2756734187, 3204031479, 3329325298]"

definition sha_H0 :: "w32 list" where
  "sha_H0 =
    [1779033703, 3144134277, 1013904242, 2773480762, 1359893119, 2600822924, 528734635, 1541459225]"

definition rotr :: "nat \<Rightarrow> w32 \<Rightarrow> w32" where
  "rotr n x = drop_bit n x OR push_bit (32 - n) x"

definition word_of_be :: "bytes \<Rightarrow> w32" where
  "word_of_be bs = foldl (\<lambda>w c. push_bit 8 w OR of_nat (byte_val c)) 0 bs"

definition be_of_word :: "w32 \<Rightarrow> bytes" where
  "be_of_word w = map (\<lambda>n. char_of (unat (drop_bit n w AND 0xFF))) [24, 16, 8, 0]"

text \<open>The message schedule keeps the last sixteen words, newest first.\<close>

fun sha_schedule :: "nat \<Rightarrow> w32 list \<Rightarrow> w32 list" where
  "sha_schedule 0 ws = ws"
| "sha_schedule (Suc n) ws =
     (let w2 = ws ! 1; w7 = ws ! 6; w15 = ws ! 14; w16 = ws ! 15;
          s0 = rotr 7 w15 XOR rotr 18 w15 XOR drop_bit 3 w15;
          s1 = rotr 17 w2 XOR rotr 19 w2 XOR drop_bit 10 w2
      in sha_schedule n ((w16 + s0 + w7 + s1) # ws))"

type_synonym sha_state = "w32 \<times> w32 \<times> w32 \<times> w32 \<times> w32 \<times> w32 \<times> w32 \<times> w32"

fun sha_round :: "sha_state \<Rightarrow> w32 \<times> w32 \<Rightarrow> sha_state" where
  "sha_round (a, b, c, d, e, f, g, h) (k, w) =
     (let S1 = rotr 6 e XOR rotr 11 e XOR rotr 25 e;
          ch = (e AND f) XOR (NOT e AND g);
          t1 = h + S1 + ch + k + w;
          S0 = rotr 2 a XOR rotr 13 a XOR rotr 22 a;
          maj = (a AND b) XOR (a AND c) XOR (b AND c);
          t2 = S0 + maj
      in (t1 + t2, a, b, c, d + t1, e, f, g))"

fun group_bytes :: "nat \<Rightarrow> nat \<Rightarrow> bytes \<Rightarrow> bytes list" where
  "group_bytes 0 n bs = []"
| "group_bytes (Suc k) n bs = take n bs # group_bytes k n (drop n bs)"

fun sha_compress :: "sha_state \<Rightarrow> bytes \<Rightarrow> sha_state" where
  "sha_compress (a, b, c, d, e, f, g, h) blk =
     (let ws = rev (sha_schedule 48 (rev (map word_of_be (group_bytes 16 4 blk))));
          (a', b', c', d', e', f', g', h') = foldl sha_round (a, b, c, d, e, f, g, h) (zip sha_K ws)
      in (a + a', b + b', c + c', d + d', e + e', f + f', g + g', h + h'))"

text \<open>Padding: a one bit, zeros, and the length in bits as a 64-bit big-endian number.\<close>

definition sha_pad :: "bytes \<Rightarrow> bytes" where
  "sha_pad m = (let n = length m; z = (119 - n mod 64) mod 64 in
     m @ CHR 0x80 # replicate z (CHR 0x00) @
     map (\<lambda>i. char_of (unat (drop_bit i (push_bit 3 (of_nat n :: 64 word)) AND 0xFF)))
       [56, 48, 40, 32, 24, 16, 8, 0])"

definition Sum256 :: "bytes \<Rightarrow> bytes" where
  "Sum256 m = (let p = sha_pad m;
       (a, b, c, d, e, f, g, h) = foldl sha_compress
         (sha_H0 ! 0, sha_H0 ! 1, sha_H0 ! 2, sha_H0 ! 3, sha_H0 ! 4, sha_H0 ! 5, sha_H0 ! 6, sha_H0 ! 7)
         (group_bytes (length p div 64) 64 p)
     in concat (map be_of_word [a, b, c, d, e, f, g, h]))"

text \<open>\<open>hmac.New(sha256.New, key)\<close>, \<open>Write(msg)\<close>, \<open>Sum(nil)\<close>.\<close>

definition xor_byte :: "nat \<Rightarrow> char \<Rightarrow> char" where
  "xor_byte v c = char_of (v XOR byte_val c)"

definition hmac_sha256 :: "bytes \<Rightarrow> bytes \<Rightarrow> bytes" where
  "hmac_sha256 key msg =
     (let k0 = (if length key > 64 then Sum256 key else key);
          k = k0 @ replicate (64 - length k0) (CHR 0x00);
          inner = Sum256 (map (xor_byte 0x36) k @ msg)
      in Sum256 (map (xor_byte 0x5C) k @ inner))"

lemma be_of_word_length [simp]: "length (be_of_word w) = 4"
  by (simp add: be_of_word_def)

text \<open>The padded message is a whole number of 64-byte blocks, and no byte of it is lost.\<close>

lemma sha_pad_blocks: "length (sha_pad m) mod 64 = 0"
proof -
  have "(n + (119 - n mod 64) mod 64 + 9) mod 64 = 0" for n :: nat
  proof (cases "n mod 64 \<le> 55")
    case True
    then have "119 - n mod 64 = (55 - n mod 64) + 64" by simp
    then have "(119 - n mod 64) mod 64 = (55 - n mod 64) mod 64"
      by (metis mod_add_self2)
    then have "(119 - n mod 64) mod 64 = 55 - n mod 64" by simp
    moreover have "n + (55 - n mod 64) + 9 = 64 * (n div 64) + 64"
      using True mult_div_mod_eq [of 64 n] by linarith
    ultimately show ?thesis by simp
  next
    case False
    then have "(119 - n mod 64) mod 64 = 119 - n mod 64" by simp
    moreover have "n + (119 - n mod 64) + 9 = 64 * (n div 64) + 128"
      using mult_div_mod_eq [of 64 n] mod_less_divisor [of 64 n] by linarith
    ultimately show ?thesis by simp
  qed
  then show ?thesis by (simp add: sha_pad_def Let_def ac_simps)
qed

lemma concat_group_bytes: "length bs = k * n \<Longrightarrow> concat (group_bytes k n bs) = bs"
  by (induction k arbitrary: bs) auto

lemma sha_blocks_cover: "concat (group_bytes (length (sha_pad m) div 64) 64 (sha_pad m)) = sha_pad m"
proof -
  have "64 dvd length (sha_pad m)" using sha_pad_blocks by (simp add: dvd_eq_mod_eq_0)
  then show ?thesis by (intro concat_group_bytes) simp
qed

lemma Sum256_length [simp]: "length (Sum256 m) = 32"
  by (simp add: Sum256_def Let_def split: prod.splits)

lemma hmac_length [simp]: "length (hmac_sha256 key msg) = 32"
  by (simp add: hmac_sha256_def Let_def)

end
