(* ===== verification/Auth.thy ===== *)
theory Auth
  imports Sha256
begin

text \<open>
  \<open>internal/auth\<close>: API-key secrets (\<open>keys.go\<close>), subscribe tokens and the replay cache
  (\<open>token.go\<close>). What \<open>rand.Read\<close> fills the buffer with is an argument, \<open>None\<close> when it fails;
  so is each reading of the clock. \<open>VerifyTokenAgainst\<close> returns the error (\<open>None\<close> for nil) and
  the cache, itself \<open>None\<close> when the caller passed a nil pointer.
\<close>

unbundle bit_operations_syntax

subsection \<open>keys.go\<close>

definition GenerateSecret :: "bytes option \<Rightarrow> string option" where
  "GenerateSecret rnd = (case rnd of None \<Rightarrow> None | Some b \<Rightarrow> Some (hex_EncodeToString b))"

definition HashSecret :: "string \<Rightarrow> string" where
  "HashSecret secret = hex_EncodeToString (Sum256 secret)"

text \<open>\<open>subtle.ConstantTimeCompare\<close>: the bytes' differences are accumulated with OR.\<close>

definition ConstantTimeCompare :: "bytes \<Rightarrow> bytes \<Rightarrow> nat" where
  "ConstantTimeCompare x y = (if length x \<noteq> length y then 0
     else if foldl (\<lambda>v (a, b). v OR (byte_val a XOR byte_val b)) 0 (zip x y) = 0 then 1 else 0)"

definition VerifySecret :: "string \<Rightarrow> string \<Rightarrow> bool" where
  "VerifySecret secret hash \<longleftrightarrow> ConstantTimeCompare (HashSecret secret) hash = 1"

lemma xor_eq_0_nat: "(a XOR b = (0::nat)) \<longleftrightarrow> a = b"
  by (auto simp: bit_eq_iff bit_simps)

lemma ct_fold_zero:
  "length x = length y \<Longrightarrow>
   (foldl (\<lambda>v (a, b). v OR (byte_val a XOR byte_val b)) acc (zip x y) = 0) \<longleftrightarrow> acc = 0 \<and> x = y"
proof (induction x y arbitrary: acc rule: list_induct2)
  case (Cons a x b y)
  have "acc OR (byte_val a XOR byte_val b) = 0 \<longleftrightarrow> acc = 0 \<and> a = b"
    by (simp add: or_eq_0_iff xor_eq_0_nat)
  then show ?case
    using Cons.IH [of "acc OR (byte_val a XOR byte_val b)"] by simp
qed simp

lemma ConstantTimeCompare_eq: "ConstantTimeCompare x y = (if x = y then 1 else 0)"
  by (auto simp: ConstantTimeCompare_def ct_fold_zero)

subsection \<open>token.go: signing\<close>

datatype token_error = ErrTokenMalformed | ErrTokenExpired | ErrTokenInvalid | ErrTokenReplayed

definition jtiHexLen :: nat where
  "jtiHexLen = 32"

text \<open>\<open>t.UnixMilli()\<close> and \<open>time.UnixMilli(ms)\<close> on nanoseconds.\<close>

definition UnixMilli :: "int \<Rightarrow> int" where
  "UnixMilli t = t div 1000000"

definition time_UnixMilli :: "int \<Rightarrow> int" where
  "time_UnixMilli ms = ms * 1000000"

definition macPayload :: "int \<Rightarrow> string \<Rightarrow> string \<Rightarrow> string \<Rightarrow> string" where
  "macPayload expMs socketID channel jti =
     ''v1|'' @ FormatInt expMs @ ''|'' @
     FormatInt (int (length socketID)) @ '':'' @ socketID @ ''|'' @
     FormatInt (int (length channel)) @ '':'' @ channel @ ''|'' @ jti"

definition SignToken :: "bytes option \<Rightarrow> string \<Rightarrow> string \<Rightarrow> string \<Rightarrow> int \<Rightarrow> string option" where
  "SignToken rnd secret socketID channel expiry =
     (let expMs = UnixMilli expiry in
      case rnd of
        None \<Rightarrow> None
      | Some jtiBytes \<Rightarrow>
         (let jti = hex_EncodeToString jtiBytes;
              mac = hmac_sha256 secret (macPayload expMs socketID channel jti)
          in Some (FormatInt expMs @ '':'' @ jti @ '':'' @ RawURL_EncodeToString mac)))"

definition validJTI :: "string \<Rightarrow> bool" where
  "validJTI s = (if length s \<noteq> jtiHexLen then False
     else \<not> list_ex (\<lambda>c. (byte_val c < 48 \<or> byte_val c > 57) \<and> (byte_val c < 97 \<or> byte_val c > 102)) s)"

subsection \<open>token.go: the replay cache\<close>

text \<open>\<open>ReplayCache.seen\<close>; every method holds \<open>mu\<close> throughout, so each is one step.\<close>

type_synonym replay_cache = "(string, int) gomap"

definition NewReplayCache :: replay_cache where
  "NewReplayCache = []"

definition CheckAndRecord :: "string \<Rightarrow> int \<Rightarrow> replay_cache \<Rightarrow> bool \<times> replay_cache" where
  "CheckAndRecord jti exp seen = (case gm_get seen jti of
     Some _ \<Rightarrow> (False, seen) | None \<Rightarrow> (True, gm_put jti exp seen))"

definition ReplayCache_Sweep :: "int \<Rightarrow> replay_cache \<Rightarrow> nat \<times> replay_cache" where
  "ReplayCache_Sweep now seen =
     fold (\<lambda>(jti, exp) (swept, m). if \<not> now < exp then (Suc swept, gm_del jti m) else (swept, m))
       seen (0, seen)"

definition ReplayCache_Len :: "replay_cache \<Rightarrow> nat" where
  "ReplayCache_Len seen = length seen"

subsection \<open>token.go: verification\<close>

definition VerifyTokenAgainst ::
  "int \<Rightarrow> string \<Rightarrow> string \<Rightarrow> string \<Rightarrow> string \<Rightarrow> replay_cache option \<Rightarrow> token_error option \<times> replay_cache option"
where
  "VerifyTokenAgainst now secret socketID channel tok cache =
     (case SplitN tok (CHR '':'') 3 of
        [p0, p1, p2] \<Rightarrow>
         (case ParseInt p0 of
            None \<Rightarrow> (Some ErrTokenMalformed, cache)
          | Some expMs \<Rightarrow>
             if UnixMilli now > expMs then (Some ErrTokenExpired, cache)
             else let jti = p1 in
              if \<not> validJTI jti then (Some ErrTokenMalformed, cache)
              else case RawURL_DecodeString p2 of
                None \<Rightarrow> (Some ErrTokenMalformed, cache)
              | Some sig \<Rightarrow>
                 if ConstantTimeCompare sig (hmac_sha256 secret (macPayload expMs socketID channel jti)) \<noteq> 1
                 then (Some ErrTokenInvalid, cache)
                 else case cache of
                   None \<Rightarrow> (None, None)
                 | Some seen \<Rightarrow>
                    (case CheckAndRecord jti (time_UnixMilli expMs) seen of
                       (False, seen') \<Rightarrow> (Some ErrTokenReplayed, Some seen')
                     | (True, seen') \<Rightarrow> (None, Some seen')))
      | _ \<Rightarrow> (Some ErrTokenMalformed, cache))"

definition VerifyToken :: "int \<Rightarrow> string \<Rightarrow> string \<Rightarrow> string \<Rightarrow> string \<Rightarrow> token_error option" where
  "VerifyToken now secret socketID channel tok = fst (VerifyTokenAgainst now secret socketID channel tok None)"

subsection \<open>The MAC input determines its fields\<close>

lemma lenpfx_inj:
  assumes "FormatInt (int (length s)) @ '':'' @ s @ r = FormatInt (int (length s')) @ '':'' @ s' @ r'"
  shows "s = s' \<and> r = r'"
proof -
  from assms have "FormatInt (int (length s)) @ CHR '':'' # (s @ r) = FormatInt (int (length s')) @ CHR '':'' # (s' @ r')"
    by simp
  then have "FormatInt (int (length s)) = FormatInt (int (length s')) \<and> s @ r = s' @ r'"
    by (rule sep_inj [OF FormatInt_no_sep(2) FormatInt_no_sep(2)])
  then show ?thesis by (auto dest: FormatInt_inj)
qed

lemma macPayload_inject:
  assumes "macPayload e s c j = macPayload e' s' c' j'"
  shows "e = e' \<and> s = s' \<and> c = c' \<and> j = j'"
proof -
  define t t' where
    "t = FormatInt (int (length s)) @ '':'' @ s @ ''|'' @ FormatInt (int (length c)) @ '':'' @ c @ ''|'' @ j"
    and "t' = FormatInt (int (length s')) @ '':'' @ s' @ ''|'' @ FormatInt (int (length c')) @ '':'' @ c' @ ''|'' @ j'"
  from assms have "FormatInt e @ CHR ''|'' # t = FormatInt e' @ CHR ''|'' # t'"
    by (simp add: macPayload_def t_def t'_def)
  then have e: "FormatInt e = FormatInt e' \<and> t = t'"
    by (rule sep_inj [OF FormatInt_no_sep(1) FormatInt_no_sep(1)])
  then have "s = s' \<and> ''|'' @ FormatInt (int (length c)) @ '':'' @ c @ ''|'' @ j =
      ''|'' @ FormatInt (int (length c')) @ '':'' @ c' @ ''|'' @ j'"
    unfolding t_def t'_def by (intro lenpfx_inj) simp
  then have s: "s = s'" and
    "FormatInt (int (length c)) @ '':'' @ c @ (''|'' @ j) = FormatInt (int (length c')) @ '':'' @ c' @ (''|'' @ j')"
    by auto
  from this(2) have "c = c' \<and> ''|'' @ j = ''|'' @ j'" by (rule lenpfx_inj)
  with s e show ?thesis by (auto dest: FormatInt_inj)
qed

subsection \<open>What acceptance means\<close>

lemma validJTI_iff: "validJTI s \<longleftrightarrow> length s = 32 \<and> (\<forall>c \<in> set s. is_lower_hex c)"
  by (auto simp: validJTI_def jtiHexLen_def is_lower_hex_def list_ex_iff Let_def not_less)

lemma validJTI_hex: "length b = 16 \<Longrightarrow> validJTI (hex_EncodeToString b)"
  by (auto simp: validJTI_iff dest: hex_chars)

lemma lower_hex_not_colon: "is_lower_hex c \<Longrightarrow> c \<noteq> CHR '':''"
  by (auto simp: is_lower_hex_def)

lemma SplitN3: "SplitN s c 3 = [a, b, d] \<Longrightarrow> s = a @ c # b @ c # d \<and> c \<notin> set a \<and> c \<notin> set b"
  by (auto simp: numeral_3_eq_3 split: option.splits dest!: cut_Some)

lemma SplitN3_append: "c \<notin> set a \<Longrightarrow> c \<notin> set b \<Longrightarrow> SplitN (a @ c # b @ c # d) c 3 = [a, b, d]"
  by (simp add: numeral_3_eq_3 cut_append)

text \<open>The token's own fields: expiry, jti and decoded MAC.\<close>

definition token_fields :: "string \<Rightarrow> (int \<times> string \<times> bytes) option" where
  "token_fields tok = (case SplitN tok (CHR '':'') 3 of
     [p0, p1, p2] \<Rightarrow> (case (ParseInt p0, RawURL_DecodeString p2) of
        (Some e, Some sig) \<Rightarrow> if validJTI p1 then Some (e, p1, sig) else None
      | _ \<Rightarrow> None)
   | _ \<Rightarrow> None)"

lemma Verify_cases:
  "VerifyTokenAgainst now secret s c tok cache =
     (case token_fields tok of
        None \<Rightarrow> (fst (VerifyTokenAgainst now secret s c tok None), cache)
      | Some (e, jti, sig) \<Rightarrow>
         if UnixMilli now > e then (Some ErrTokenExpired, cache)
         else if sig \<noteq> hmac_sha256 secret (macPayload e s c jti) then (Some ErrTokenInvalid, cache)
         else case cache of
            None \<Rightarrow> (None, None)
          | Some seen \<Rightarrow> (case gm_get seen jti of
              Some _ \<Rightarrow> (Some ErrTokenReplayed, Some seen)
            | None \<Rightarrow> (None, Some (gm_put jti (time_UnixMilli e) seen))))"
proof (cases "SplitN tok (CHR '':'') 3")
  case Nil
  then show ?thesis by (simp add: VerifyTokenAgainst_def token_fields_def)
next
  case (Cons p0 r)
  show ?thesis
  proof (cases "\<exists>p1 p2. r = [p1, p2]")
    case True
    then obtain p1 p2 where "SplitN tok (CHR '':'') 3 = [p0, p1, p2]" using Cons by auto
    then show ?thesis
      by (auto simp: VerifyTokenAgainst_def token_fields_def ConstantTimeCompare_eq CheckAndRecord_def
          split: option.splits)
  next
    case False
    then show ?thesis using Cons
      by (auto simp: VerifyTokenAgainst_def token_fields_def split: list.splits)
  qed
qed

lemma token_fields_None:
  "token_fields tok = None \<Longrightarrow> fst (VerifyTokenAgainst now secret s c tok cache) \<in> {Some ErrTokenMalformed, Some ErrTokenExpired}"
  by (auto simp: VerifyTokenAgainst_def token_fields_def ConstantTimeCompare_eq Let_def
      split: option.splits list.splits if_splits)

text \<open>A token is accepted exactly when it parses, is not expired, its MAC is right and its jti is new.\<close>

lemma Verify_accepts_iff:
  "fst (VerifyTokenAgainst now secret s c tok cache) = None \<longleftrightarrow>
   (\<exists>e jti sig. token_fields tok = Some (e, jti, sig) \<and> UnixMilli now \<le> e \<and>
      sig = hmac_sha256 secret (macPayload e s c jti) \<and>
      (\<forall>seen. cache = Some seen \<longrightarrow> gm_get seen jti = None))"
  using token_fields_None [of tok now secret s c cache]
  by (auto simp: Verify_cases [of now secret s c tok cache] split: option.splits if_splits)

lemma token_fields_signed:
  assumes "SignToken (Some b) secret s c expiry = Some tok" "length b = 16"
    and "- (2 ^ 63) \<le> UnixMilli expiry" "UnixMilli expiry < 2 ^ 63"
  shows "token_fields tok = Some (UnixMilli expiry, hex_EncodeToString b,
           hmac_sha256 secret (macPayload (UnixMilli expiry) s c (hex_EncodeToString b)))"
proof -
  let ?e = "UnixMilli expiry" and ?j = "hex_EncodeToString b"
  have j: "CHR '':'' \<notin> set ?j"
    using hex_chars lower_hex_not_colon by blast
  have tok: "tok = FormatInt ?e @ CHR '':'' # ?j @ CHR '':'' # RawURL_EncodeToString (hmac_sha256 secret (macPayload ?e s c ?j))"
    using assms(1) by (simp add: SignToken_def Let_def)
  have "SplitN tok (CHR '':'') 3 = [FormatInt ?e, ?j, RawURL_EncodeToString (hmac_sha256 secret (macPayload ?e s c ?j))]"
    unfolding tok by (rule SplitN3_append [OF FormatInt_no_sep(2) j])
  moreover have "ParseInt (FormatInt ?e) = Some ?e"
    using assms(3,4) by (rule ParseInt_FormatInt)
  ultimately show ?thesis
    using validJTI_hex [OF assms(2)] by (simp add: token_fields_def RawURL_roundtrip)
qed

subsection \<open>The replay cache over time\<close>

lemma Sweep_fold:
  "gm_ok xs \<Longrightarrow> gm_ok m \<Longrightarrow> (\<And>x. x \<in> set xs \<Longrightarrow> x \<in> set m) \<Longrightarrow>
   fold (\<lambda>(jti, exp) (swept, m). if \<not> now < exp then (Suc swept, gm_del jti m) else (swept, m)) xs (n, m) =
   (n + length (filter (\<lambda>(jti, exp). \<not> now < exp) xs),
    filter (\<lambda>(jti, exp). (jti, exp) \<notin> set xs \<or> now < exp) m)"
proof (induction xs arbitrary: n m)
  case Nil
  then show ?case by (simp add: case_prod_unfold)
next
  case (Cons x xs)
  obtain j e where x: "x = (j, e)" by (cases x)
  from Cons.prems x have j: "j \<notin> fst ` set xs" and "gm_ok xs" by auto
  have mem: "(j, e) \<in> set m" using Cons.prems(3) [of x] x by simp
  have uniq: "e' = e" if "(j, e') \<in> set m" for e'
    using that mem Cons.prems(2) eq_key_imp_eq_value by fastforce
  show ?case
  proof (cases "now < e")
    case True
    have "fold (\<lambda>(jti, exp) (swept, m). if \<not> now < exp then (Suc swept, gm_del jti m) else (swept, m)) xs (n, m) =
      (n + length (filter (\<lambda>(jti, exp). \<not> now < exp) xs), filter (\<lambda>(jti, exp). (jti, exp) \<notin> set xs \<or> now < exp) m)"
      by (rule Cons.IH [OF \<open>gm_ok xs\<close> Cons.prems(2)]) (simp add: Cons.prems(3))
    with True x show ?thesis by (auto intro!: filter_cong)
  next
    case False
    let ?m = "gm_del j m"
    have "fold (\<lambda>(jti, exp) (swept, m). if \<not> now < exp then (Suc swept, gm_del jti m) else (swept, m)) xs (Suc n, ?m) =
      (Suc n + length (filter (\<lambda>(jti, exp). \<not> now < exp) xs), filter (\<lambda>(jti, exp). (jti, exp) \<notin> set xs \<or> now < exp) ?m)"
    proof (rule Cons.IH [OF \<open>gm_ok xs\<close> gm_ok_del [OF Cons.prems(2)]])
      fix y assume "y \<in> set xs"
      moreover from this have "fst y \<noteq> j" using j by (metis image_eqI)
      ultimately show "y \<in> set ?m" using Cons.prems(3) [of y] by (auto simp: AList.delete_eq)
    qed
    moreover have "filter (\<lambda>(jti, exp). (jti, exp) \<notin> set xs \<or> now < exp) ?m =
        filter (\<lambda>(jti, exp). (jti, exp) \<notin> set (x # xs) \<or> now < exp) m"
      using False x uniq by (auto simp: AList.delete_eq intro!: filter_cong)
    ultimately show ?thesis using False x by simp
  qed
qed

lemma Sweep_filter:
  "gm_ok seen \<Longrightarrow> ReplayCache_Sweep now seen =
     (length (filter (\<lambda>(jti, exp). \<not> now < exp) seen), filter (\<lambda>(jti, exp). now < exp) seen)"
  using Sweep_fold [of seen seen now 0]
  by (auto simp: ReplayCache_Sweep_def intro!: filter_cong)

lemma Sweep_ok [gomap_simps]: "gm_ok seen \<Longrightarrow> gm_ok (snd (ReplayCache_Sweep now seen))"
  by (simp add: Sweep_filter)

lemma Sweep_get:
  "gm_ok seen \<Longrightarrow> gm_get (snd (ReplayCache_Sweep now seen)) j =
     (case gm_get seen j of None \<Rightarrow> None | Some e \<Rightarrow> if now < e then Some e else None)"
  by (simp add: Sweep_filter gm_get_filter split: option.split)

text \<open>The operations the server's goroutines perform on the shared cache, each atomic under \<open>mu\<close>.\<close>

datatype cache_event = EvVerify int string string string string | EvSweep int

fun event_time :: "cache_event \<Rightarrow> int" where
  "event_time (EvVerify now _ _ _ _) = now"
| "event_time (EvSweep now) = now"

fun cache_step :: "replay_cache \<Rightarrow> cache_event \<Rightarrow> replay_cache" where
  "cache_step seen (EvVerify now secret s c tok) = the (snd (VerifyTokenAgainst now secret s c tok (Some seen)))"
| "cache_step seen (EvSweep now) = snd (ReplayCache_Sweep now seen)"

definition cache_run :: "replay_cache \<Rightarrow> cache_event list \<Rightarrow> replay_cache" where
  "cache_run = foldl cache_step"

lemma Verify_cache:
  "\<exists>seen'. snd (VerifyTokenAgainst now secret s c tok (Some seen)) = Some seen' \<and>
     (seen' = seen \<or> (\<exists>j e. gm_get seen j = None \<and> seen' = gm_put j e seen))"
  by (auto simp: Verify_cases [of now secret s c tok "Some seen"] split: option.splits)

lemma cache_step_ok: "gm_ok seen \<Longrightarrow> gm_ok (cache_step seen ev)"
proof (cases ev)
  case (EvVerify now secret s c tok)
  then show "gm_ok seen \<Longrightarrow> ?thesis" using Verify_cache [of now secret s c tok seen] by auto
qed (simp add: Sweep_ok)

lemma cache_step_keeps:
  assumes "gm_ok seen" "gm_get seen j = Some x" "event_time ev < x"
  shows "gm_get (cache_step seen ev) j = Some x"
proof (cases ev)
  case (EvVerify now secret s c tok)
  then show ?thesis using Verify_cache [of now secret s c tok seen] assms by auto
next
  case (EvSweep now)
  with assms show ?thesis by (simp add: Sweep_get)
qed

lemma cache_run_keeps:
  assumes "gm_ok seen" "gm_get seen j = Some x" "\<forall>ev \<in> set evs. event_time ev < x"
  shows "gm_get (cache_run seen evs) j = Some x"
  using assms
proof (induction evs arbitrary: seen)
  case (Cons ev evs)
  then have "gm_get (cache_step seen ev) j = Some x" by (simp add: cache_step_keeps)
  with Cons show ?case by (simp add: cache_run_def cache_step_ok)
qed (simp add: cache_run_def)

lemma accepted_recorded:
  assumes "VerifyTokenAgainst t secret s c tok (Some seen) = (None, Some seen1)"
    and "token_fields tok = Some (e, jti, sig)"
  shows "seen1 = gm_put jti (time_UnixMilli e) seen"
  using assms by (auto simp: Verify_cases [of t secret s c tok "Some seen"] split: if_splits option.splits)

lemma recorded_rejects:
  assumes "token_fields tok = Some (e, jti, sig)" "gm_get seen jti = Some x"
  shows "fst (VerifyTokenAgainst t secret s c tok (Some seen)) \<noteq> None"
  using assms by (auto simp: Verify_accepts_iff)

lemma single_use:
  assumes "gm_ok seen"
    and "VerifyTokenAgainst t1 k s c tok (Some seen) = (None, Some seen1)"
    and "token_fields tok = Some (e, jti, sig)"
    and "\<forall>ev \<in> set evs. event_time ev \<le> t2" "t2 < time_UnixMilli e"
    and "token_fields tok2 = Some (e2, jti, sig2)"
  shows "fst (VerifyTokenAgainst t2 k2 s2 c2 tok2 (Some (cache_run seen1 evs))) \<noteq> None"
proof -
  have seen1: "seen1 = gm_put jti (time_UnixMilli e) seen"
    using assms(2,3) by (rule accepted_recorded)
  have "gm_get (cache_run seen1 evs) jti = Some (time_UnixMilli e)"
  proof (rule cache_run_keeps)
    show "gm_ok seen1" using assms(1) seen1 by simp
    show "gm_get seen1 jti = Some (time_UnixMilli e)" using seen1 by simp
    show "\<forall>ev \<in> set evs. event_time ev < time_UnixMilli e" using assms(4,5) by force
  qed
  with assms(6) show ?thesis by (rule recorded_rejects)
qed

subsection \<open>Properties\<close>

text \<open>
  The MAC input of a token determines all four of its fields: two calls of \<open>macPayload\<close> with
  the same result had the same expiry, socket id, channel and jti, whatever bytes the socket id
  and the channel hold. No byte can move from one field into its neighbour.
\<close>

theorem macPayload_fields_determined:
  "macPayload e s c j = macPayload e' s' c' j' \<longleftrightarrow> e = e' \<and> s = s' \<and> c = c' \<and> j = j'"
  using macPayload_inject [of e s c j e' s' c' j'] by blast

text \<open>
  C25: A token signed for one socket and one channel is accepted, before it expires and with its
  jti unseen, on that socket and channel, and records its jti until its expiry. On any other
  socket or channel it is accepted only if the two MAC inputs, which then differ, have the same
  HMAC under the signing secret.
\<close>

theorem signed_token_bound:
  assumes "SignToken (Some b) secret s c expiry = Some tok" "length b = 16"
    and "- (2 ^ 63) \<le> UnixMilli expiry" "UnixMilli expiry < 2 ^ 63"
    and "UnixMilli now \<le> UnixMilli expiry" "gm_get seen (hex_EncodeToString b) = None"
  shows "VerifyTokenAgainst now secret s c tok (Some seen) =
           (None, Some (gm_put (hex_EncodeToString b) (time_UnixMilli (UnixMilli expiry)) seen)) \<and>
         (fst (VerifyTokenAgainst now secret s' c' tok (Some seen)) = None \<longrightarrow> (s', c') \<noteq> (s, c) \<longrightarrow>
          (let p = macPayload (UnixMilli expiry) s c (hex_EncodeToString b);
               p' = macPayload (UnixMilli expiry) s' c' (hex_EncodeToString b)
           in p \<noteq> p' \<and> hmac_sha256 secret p = hmac_sha256 secret p'))"
proof -
  note f = token_fields_signed [OF assms(1-4)]
  from assms(5,6) have "VerifyTokenAgainst now secret s c tok (Some seen) =
      (None, Some (gm_put (hex_EncodeToString b) (time_UnixMilli (UnixMilli expiry)) seen))"
    by (simp add: Verify_cases [of now secret s c tok "Some seen"] f)
  moreover have "hmac_sha256 secret (macPayload (UnixMilli expiry) s c (hex_EncodeToString b)) =
      hmac_sha256 secret (macPayload (UnixMilli expiry) s' c' (hex_EncodeToString b))"
    if "fst (VerifyTokenAgainst now secret s' c' tok (Some seen)) = None"
    using that by (simp add: Verify_accepts_iff f)
  ultimately show ?thesis by (auto simp: Let_def dest: macPayload_inject)
qed

theorem signed_token_bound_witness:
  "let b = replicate 16 (CHR 0x07);
       tok = the (SignToken (Some b) ''k'' ''S'' ''private-a'' 5000000) in
   VerifyTokenAgainst 3000000 ''k'' ''S'' ''private-a'' tok (Some []) =
     (None, Some [(hex_EncodeToString b, 5000000)]) \<and>
   (fst (VerifyTokenAgainst 3000000 ''k'' ''S'' ''private-b'' tok (Some [])) = None \<longrightarrow>
     hmac_sha256 ''k'' (macPayload 5 ''S'' ''private-a'' (hex_EncodeToString b)) =
     hmac_sha256 ''k'' (macPayload 5 ''S'' ''private-b'' (hex_EncodeToString b)))"
proof -
  let ?b = "replicate 16 (CHR 0x07)"
  obtain tok where tok: "SignToken (Some ?b) ''k'' ''S'' ''private-a'' 5000000 = Some tok"
    by (simp add: SignToken_def Let_def)
  have h: "length ?b = 16" "- (2 ^ 63) \<le> UnixMilli 5000000" "UnixMilli 5000000 < 2 ^ 63"
    "UnixMilli 3000000 \<le> UnixMilli 5000000" "gm_get [] (hex_EncodeToString ?b) = (None :: int option)"
    by (simp_all add: UnixMilli_def)
  from signed_token_bound [OF tok h, of "''S''" "''private-b''"] tok show ?thesis
    by (simp add: UnixMilli_def time_UnixMilli_def Let_def)
qed

text \<open>
  C5: A subscribe token is used at most once before it expires. After a token with jti \<open>j\<close> and
  expiry \<open>e\<close> has been accepted, and after any sequence of later verifications and sweeps of the
  shared cache, no token string that carries the same jti is accepted at a time before the instant
  \<open>e\<close>, for any socket and channel.
\<close>

theorem token_single_use:
  assumes "gm_ok seen"
    and "VerifyTokenAgainst t1 k s c tok (Some seen) = (None, Some seen1)"
    and "token_fields tok = Some (e, jti, sig)"
    and "\<forall>ev \<in> set evs. event_time ev \<le> t2" "t2 < time_UnixMilli e"
    and "token_fields tok2 = Some (e2, jti, sig2)"
  shows "fst (VerifyTokenAgainst t2 k2 s2 c2 tok2 (Some (cache_run seen1 evs))) \<noteq> None"
  using assms by (rule single_use)

theorem token_single_use_witness:
  "let b = replicate 16 (CHR 0x07);
       tok = the (SignToken (Some b) ''k'' ''S'' ''private-a'' 5000000);
       seen1 = the (snd (VerifyTokenAgainst 3000000 ''k'' ''S'' ''private-a'' tok (Some []))) in
   fst (VerifyTokenAgainst 3000000 ''k'' ''S'' ''private-a'' tok (Some [])) = None \<and>
   fst (VerifyTokenAgainst 4999999 ''k'' ''S'' ''private-a'' tok (Some (cache_run seen1 [EvSweep 4000000]))) \<noteq> None"
proof -
  let ?b = "replicate 16 (CHR 0x07)"
  obtain tok where tok: "SignToken (Some ?b) ''k'' ''S'' ''private-a'' 5000000 = Some tok"
    by (simp add: SignToken_def Let_def)
  have h: "length ?b = 16" "- (2 ^ 63) \<le> UnixMilli 5000000" "UnixMilli 5000000 < 2 ^ 63"
    by (simp_all add: UnixMilli_def)
  note f = token_fields_signed [OF tok h]
  have v: "VerifyTokenAgainst 3000000 ''k'' ''S'' ''private-a'' tok (Some []) =
      (None, Some [(hex_EncodeToString ?b, 5000000)])"
    using f by (simp add: Verify_cases [of _ _ _ _ tok] UnixMilli_def time_UnixMilli_def)
  have "fst (VerifyTokenAgainst 4999999 ''k'' ''S'' ''private-a'' tok
      (Some (cache_run [(hex_EncodeToString ?b, 5000000)] [EvSweep 4000000]))) \<noteq> None"
    by (rule token_single_use [OF _ v f _ _ f]) (simp_all add: UnixMilli_def time_UnixMilli_def)
  with v tok show ?thesis by (simp add: Let_def)
qed

text \<open>
  C40: The bound of the previous property is exact: for every signed token there is a schedule in
  which it is accepted twice. \<open>VerifyTokenAgainst\<close> compares milliseconds and still accepts during
  the whole millisecond of the expiry, while \<open>Sweep\<close> compares instants and drops the entry from
  the expiry instant on; a sweep in that millisecond lets the same token through again.
\<close>

theorem sweep_reopens_expiry_millisecond:
  assumes "SignToken (Some b) secret s c expiry = Some tok" "length b = 16"
    and "- (2 ^ 63) \<le> UnixMilli expiry" "UnixMilli expiry < 2 ^ 63"
  shows "let t = time_UnixMilli (UnixMilli expiry);
             seen1 = the (snd (VerifyTokenAgainst t secret s c tok (Some NewReplayCache)))
         in fst (VerifyTokenAgainst t secret s c tok (Some NewReplayCache)) = None \<and>
            fst (VerifyTokenAgainst t secret s c tok (Some seen1)) = Some ErrTokenReplayed \<and>
            fst (VerifyTokenAgainst t secret s c tok (Some (snd (ReplayCache_Sweep t seen1)))) = None"
proof -
  note f = token_fields_signed [OF assms]
  have "UnixMilli (time_UnixMilli (UnixMilli expiry)) = UnixMilli expiry"
    by (simp add: UnixMilli_def time_UnixMilli_def)
  with f show ?thesis
    by (simp add: Verify_cases [of _ _ _ _ tok] NewReplayCache_def ReplayCache_Sweep_def)
qed

theorem sweep_reopens_expiry_millisecond_witness:
  "let tok = the (SignToken (Some (replicate 16 (CHR 0x07))) ''k'' ''S'' ''private-a'' 5000000);
       seen1 = the (snd (VerifyTokenAgainst 5000000 ''k'' ''S'' ''private-a'' tok (Some NewReplayCache)))
   in fst (VerifyTokenAgainst 5000000 ''k'' ''S'' ''private-a'' tok (Some (snd (ReplayCache_Sweep 5000000 seen1)))) = None"
proof -
  let ?b = "replicate 16 (CHR 0x07)"
  obtain tok where tok: "SignToken (Some ?b) ''k'' ''S'' ''private-a'' 5000000 = Some tok"
    by (simp add: SignToken_def Let_def)
  have h: "length ?b = 16" "- (2 ^ 63) \<le> UnixMilli 5000000" "UnixMilli 5000000 < 2 ^ 63"
    by (simp_all add: UnixMilli_def)
  show ?thesis
    using sweep_reopens_expiry_millisecond [OF tok h] tok
    by (simp add: Let_def UnixMilli_def time_UnixMilli_def)
qed

text \<open>
  \<open>Sweep\<close> removes exactly the entries whose expiry has passed, keeps every other entry with its
  expiry, and returns how many it removed.
\<close>

theorem ReplayCache_Sweep_exact:
  assumes "gm_ok seen"
  shows "gm_get (snd (ReplayCache_Sweep now seen)) j =
           (case gm_get seen j of None \<Rightarrow> None | Some e \<Rightarrow> if now < e then Some e else None) \<and>
         fst (ReplayCache_Sweep now seen) + ReplayCache_Len (snd (ReplayCache_Sweep now seen)) =
           ReplayCache_Len seen"
proof -
  have "length (filter (\<lambda>(j, e). \<not> now < e) seen) + length (filter (\<lambda>(j, e). now < e) seen) = length seen"
    by (induction seen) auto
  with assms show ?thesis
    by (simp add: Sweep_get) (simp add: Sweep_filter ReplayCache_Len_def)
qed

theorem ReplayCache_Sweep_exact_witness:
  "fst (ReplayCache_Sweep 5 [(''a'', 5), (''b'', 6)]) + ReplayCache_Len (snd (ReplayCache_Sweep 5 [(''a'', 5), (''b'', 6)])) = 2
   \<and> gm_get (snd (ReplayCache_Sweep 5 [(''a'', 5), (''b'', 6)])) ''b'' = Some 6"
proof -
  have h: "gm_ok [(''a'', 5::int), (''b'', 6)]" by simp
  show ?thesis
    using ReplayCache_Sweep_exact [OF h, of 5 "''b''"] by (simp add: ReplayCache_Len_def)
qed

text \<open>
  A string verifies against a stored hash exactly when its hex SHA-256 digest is that hash,
  although the comparison only accumulates byte differences; in particular a key's own secret
  verifies against the hash stored for it.
\<close>

theorem VerifySecret_correct:
  "VerifySecret secret (HashSecret secret) \<and>
   (VerifySecret secret hash \<longleftrightarrow> hex_EncodeToString (Sum256 secret) = hash)"
  by (auto simp: VerifySecret_def ConstantTimeCompare_eq HashSecret_def)

end
