(* ===== verification/Registry.thy ===== *)
theory Registry
  imports Go_Encoding
begin

text \<open>
  \<open>internal/registry\<close>: channels, the two implementations of the \<open>Registry\<close> interface
  (\<open>syncmap.go\<close>, \<open>sharded.go\<close>) and the garbage collector (\<open>sweep.go\<close>).

  A \<open>*Channel\<close> is an index into the list of all channels ever allocated, and a \<open>Subscriber\<close>,
  which is always a \<open>*conn.Conn\<close>, is the number of its connection. An interface value is a
  datatype with one constructor per implementation, and calling a method of it is a case
  distinction. \<open>GetOrCreate\<close> is written as its two critical sections, the lookup and the
  store-if-absent, because other goroutines may run between them.

  The locale \<open>registry_spec\<close> states what every implementation promises in terms of the partial map
  it represents; it is interpreted for both implementations and for the interface value.
\<close>

type_synonym cid = nat
type_synonym chref = nat

subsection \<open>registry.go\<close>

record channel =
  Name :: string
  Subscribers :: "cid list"
  Deleted :: bool

definition newChannel :: "string \<Rightarrow> channel list \<Rightarrow> chref \<times> channel list" where
  "newChannel name heap = (length heap, heap @ [\<lparr>Name = name, Subscribers = [], Deleted = False\<rparr>])"

subsection \<open>syncmap.go\<close>

text \<open>The operations of \<open>sync.Map\<close> the file uses; each is atomic.\<close>

type_synonym sync_map = "(string, chref) gomap"

definition Map_LoadOrStore :: "string \<Rightarrow> chref \<Rightarrow> sync_map \<Rightarrow> chref \<times> sync_map" where
  "Map_LoadOrStore k v m = (case gm_get m k of Some a \<Rightarrow> (a, m) | None \<Rightarrow> (v, gm_put k v m))"

definition Map_CompareAndDelete :: "string \<Rightarrow> chref \<Rightarrow> sync_map \<Rightarrow> bool \<times> sync_map" where
  "Map_CompareAndDelete k v m = (if gm_get m k = Some v then (True, gm_del k m) else (False, m))"

definition NewSyncMap :: sync_map where
  "NewSyncMap = []"

definition syncMap_slow :: "string \<Rightarrow> sync_map \<times> channel list \<Rightarrow> chref \<times> sync_map \<times> channel list" where
  "syncMap_slow name = (\<lambda>(m, heap).
     let (c, heap') = newChannel name heap; (actual, m') = Map_LoadOrStore name c m
     in (actual, m', heap'))"

definition syncMap_Lookup :: "sync_map \<Rightarrow> string \<Rightarrow> chref option" where
  "syncMap_Lookup m name = gm_get m name"

definition syncMap_GetOrCreate :: "string \<Rightarrow> sync_map \<times> channel list \<Rightarrow> chref \<times> sync_map \<times> channel list" where
  "syncMap_GetOrCreate name st = (case gm_get (fst st) name of
     Some c \<Rightarrow> (c, st) | None \<Rightarrow> syncMap_slow name st)"

definition syncMap_Delete :: "string \<Rightarrow> sync_map \<Rightarrow> sync_map" where
  "syncMap_Delete name m = gm_del name m"

definition syncMap_CompareAndDelete :: "string \<Rightarrow> chref \<Rightarrow> sync_map \<Rightarrow> bool \<times> sync_map" where
  "syncMap_CompareAndDelete name c m = Map_CompareAndDelete name c m"

text \<open>\<open>get\<close> reads the map out of the state the callback changes; the visit is of the entries present at its start.\<close>

definition syncMap_Range :: "('s \<Rightarrow> sync_map) \<Rightarrow> (chref \<Rightarrow> 's \<Rightarrow> bool \<times> 's) \<Rightarrow> 's \<Rightarrow> 's" where
  "syncMap_Range get fn s = snd (loop_until (\<lambda>(_, v). fn v) (get s) s)"

definition syncMap_Len :: "sync_map \<Rightarrow> nat" where
  "syncMap_Len m = syncMap_Range (\<lambda>_. m) (\<lambda>_ n. (True, Suc n)) 0"

subsection \<open>sharded.go\<close>

definition numShards :: nat where
  "numShards = 16"

type_synonym shard = "(string, chref) gomap"

definition NewSharded :: "shard list" where
  "NewSharded = map (\<lambda>_. []) [0..<numShards]"

definition sharded_shardFor :: "string \<Rightarrow> nat" where
  "sharded_shardFor name = shard_index numShards name"

definition sharded_slow :: "string \<Rightarrow> shard list \<times> channel list \<Rightarrow> chref \<times> shard list \<times> channel list" where
  "sharded_slow name = (\<lambda>(r, heap). let i = sharded_shardFor name in
     case gm_get (r ! i) name of
       Some c \<Rightarrow> (c, r, heap)
     | None \<Rightarrow> let (c, heap') = newChannel name heap in (c, r[i := gm_put name c (r ! i)], heap'))"

definition sharded_Lookup :: "shard list \<Rightarrow> string \<Rightarrow> chref option" where
  "sharded_Lookup r name = gm_get (r ! sharded_shardFor name) name"

definition sharded_GetOrCreate :: "string \<Rightarrow> shard list \<times> channel list \<Rightarrow> chref \<times> shard list \<times> channel list" where
  "sharded_GetOrCreate name st = (case gm_get (fst st ! sharded_shardFor name) name of
     Some c \<Rightarrow> (c, st) | None \<Rightarrow> sharded_slow name st)"

definition sharded_Delete :: "string \<Rightarrow> shard list \<Rightarrow> shard list" where
  "sharded_Delete name r = (let i = sharded_shardFor name in r[i := gm_del name (r ! i)])"

definition sharded_CompareAndDelete :: "string \<Rightarrow> chref \<Rightarrow> shard list \<Rightarrow> bool \<times> shard list" where
  "sharded_CompareAndDelete name c r = (let i = sharded_shardFor name in
     if gm_get (r ! i) name \<noteq> Some c then (False, r) else (True, r[i := gm_del name (r ! i)]))"

text \<open>Each shard is copied when the loop reaches it, so a callback's earlier changes are seen.\<close>

definition sharded_Range :: "('s \<Rightarrow> shard list) \<Rightarrow> (chref \<Rightarrow> 's \<Rightarrow> bool \<times> 's) \<Rightarrow> 's \<Rightarrow> 's" where
  "sharded_Range get fn s =
     snd (loop_until (\<lambda>i s. loop_until fn (map snd (get s ! i)) s) [0..<numShards] s)"

definition sharded_Len :: "shard list \<Rightarrow> nat" where
  "sharded_Len r = foldl (\<lambda>n s. n + length s) 0 r"

subsection \<open>The interface value\<close>

datatype registry = SyncMapReg sync_map | ShardedReg "shard list"

fun reg_Lookup :: "registry \<Rightarrow> string \<Rightarrow> chref option" where
  "reg_Lookup (SyncMapReg m) name = syncMap_Lookup m name"
| "reg_Lookup (ShardedReg r) name = sharded_Lookup r name"

fun reg_slow :: "string \<Rightarrow> registry \<times> channel list \<Rightarrow> chref \<times> registry \<times> channel list" where
  "reg_slow name (SyncMapReg m, heap) = (let (c, m', h) = syncMap_slow name (m, heap) in (c, SyncMapReg m', h))"
| "reg_slow name (ShardedReg r, heap) = (let (c, r', h) = sharded_slow name (r, heap) in (c, ShardedReg r', h))"

fun reg_GetOrCreate :: "string \<Rightarrow> registry \<times> channel list \<Rightarrow> chref \<times> registry \<times> channel list" where
  "reg_GetOrCreate name (SyncMapReg m, heap) =
     (let (c, m', h) = syncMap_GetOrCreate name (m, heap) in (c, SyncMapReg m', h))"
| "reg_GetOrCreate name (ShardedReg r, heap) =
     (let (c, r', h) = sharded_GetOrCreate name (r, heap) in (c, ShardedReg r', h))"

fun reg_Delete :: "string \<Rightarrow> registry \<Rightarrow> registry" where
  "reg_Delete name (SyncMapReg m) = SyncMapReg (syncMap_Delete name m)"
| "reg_Delete name (ShardedReg r) = ShardedReg (sharded_Delete name r)"

fun reg_CompareAndDelete :: "string \<Rightarrow> chref \<Rightarrow> registry \<Rightarrow> bool \<times> registry" where
  "reg_CompareAndDelete name c (SyncMapReg m) =
     (let (b, m') = syncMap_CompareAndDelete name c m in (b, SyncMapReg m'))"
| "reg_CompareAndDelete name c (ShardedReg r) =
     (let (b, r') = sharded_CompareAndDelete name c r in (b, ShardedReg r'))"

fun syncmap_of :: "registry \<Rightarrow> sync_map" where
  "syncmap_of (SyncMapReg m) = m"
| "syncmap_of (ShardedReg r) = []"

fun shards_of :: "registry \<Rightarrow> shard list" where
  "shards_of (SyncMapReg m) = []"
| "shards_of (ShardedReg r) = r"

definition reg_Range :: "('s \<Rightarrow> registry) \<Rightarrow> (chref \<Rightarrow> 's \<Rightarrow> bool \<times> 's) \<Rightarrow> 's \<Rightarrow> 's" where
  "reg_Range get fn s = (case get s of
     SyncMapReg _ \<Rightarrow> syncMap_Range (\<lambda>s. syncmap_of (get s)) fn s
   | ShardedReg _ \<Rightarrow> sharded_Range (\<lambda>s. shards_of (get s)) fn s)"

fun reg_Len :: "registry \<Rightarrow> nat" where
  "reg_Len (SyncMapReg m) = syncMap_Len m"
| "reg_Len (ShardedReg r) = sharded_Len r"

subsection \<open>sweep.go\<close>

text \<open>The body of the callback \<open>Sweep\<close> passes to \<open>Range\<close>, run with the channel's \<open>SubsMu\<close> held.\<close>

type_synonym sweep_state = "(registry \<times> channel list) \<times> nat"

definition sweep_fn :: "chref \<Rightarrow> sweep_state \<Rightarrow> bool \<times> sweep_state" where
  "sweep_fn c = (\<lambda>((r, heap), removed).
     if length (Subscribers (heap ! c)) = 0 then
       let (b, r') = reg_CompareAndDelete (Name (heap ! c)) c r;
           removed' = (if b then removed + 1 else removed)
       in (True, (r', heap[c := (heap ! c)\<lparr>Deleted := True\<rparr>]), removed')
     else (True, (r, heap), removed))"

definition Sweep :: "registry \<times> channel list \<Rightarrow> nat \<times> registry \<times> channel list" where
  "Sweep st = (let (st', removed) = reg_Range (\<lambda>s. fst (fst s)) sweep_fn (st, 0) in (removed, st'))"

text \<open>
  \<open>SweepLoop\<close>: the ticker's period in seconds, and the sweeps it runs, with what the rest of the
  program does between two ticks (\<open>among\<close>), until its context is cancelled.
\<close>

definition DefaultSweepInterval :: int where "DefaultSweepInterval = 60"

definition sweep_period :: "int \<Rightarrow> int" where
  "sweep_period interval = (if interval \<le> 0 then DefaultSweepInterval else interval)"

fun SweepLoop :: "(registry \<times> channel list \<Rightarrow> registry \<times> channel list) list \<Rightarrow> registry \<times> channel list \<Rightarrow> registry \<times> channel list" where
  "SweepLoop [] st = st"
| "SweepLoop (among # ticks) st = SweepLoop ticks (snd (Sweep (among st)))"

subsection \<open>What a registry promises\<close>

abbreviation fresh_channel :: "string \<Rightarrow> channel" where
  "fresh_channel name \<equiv> \<lparr>Name = name, Subscribers = [], Deleted = False\<rparr>"

text \<open>\<open>shrinks c m m'\<close>: \<open>m'\<close> is \<open>m\<close>, less entries whose value is \<open>c\<close>.\<close>

definition shrinks :: "chref set \<Rightarrow> (string \<rightharpoonup> chref) \<Rightarrow> (string \<rightharpoonup> chref) \<Rightarrow> bool" where
  "shrinks C m m' \<longleftrightarrow> (\<forall>n. m' n = m n \<or> (m' n = None \<and> (\<exists>c \<in> C. m n = Some c)))"

lemma shrinks_refl [simp]: "shrinks C m m"
  by (simp add: shrinks_def)

lemma shrinks_trans: "shrinks C m m' \<Longrightarrow> shrinks D m' m'' \<Longrightarrow> shrinks (C \<union> D) m m''"
  unfolding shrinks_def by (metis UnI1 UnI2 option.distinct(1))

lemma shrinks_mono: "shrinks C m m' \<Longrightarrow> C \<subseteq> D \<Longrightarrow> shrinks D m m'"
  unfolding shrinks_def by blast

lemma shrinks_inj: "shrinks C m m' \<Longrightarrow> inj_on m (dom m) \<Longrightarrow> inj_on m' (dom m')"
  unfolding shrinks_def inj_on_def by (metis domIff)

locale registry_spec =
  fixes lookup :: "'r \<Rightarrow> string \<Rightarrow> chref option"
    and slow :: "string \<Rightarrow> 'r \<times> channel list \<Rightarrow> chref \<times> 'r \<times> channel list"
    and get_or_create :: "string \<Rightarrow> 'r \<times> channel list \<Rightarrow> chref \<times> 'r \<times> channel list"
    and del :: "string \<Rightarrow> 'r \<Rightarrow> 'r"
    and cad :: "string \<Rightarrow> chref \<Rightarrow> 'r \<Rightarrow> bool \<times> 'r"
    and range :: "(chref \<Rightarrow> ('r \<times> channel list) \<times> nat \<Rightarrow> bool \<times> ('r \<times> channel list) \<times> nat)
                  \<Rightarrow> ('r \<times> channel list) \<times> nat \<Rightarrow> ('r \<times> channel list) \<times> nat"
    and len :: "'r \<Rightarrow> nat"
    and abs :: "'r \<Rightarrow> (string \<rightharpoonup> chref)"
    and ok :: "'r \<Rightarrow> bool"
  assumes lookup_abs: "ok r \<Longrightarrow> lookup r n = abs r n"
    and get_or_create_eq: "get_or_create n (r, h) = (case lookup r n of Some c \<Rightarrow> (c, r, h) | None \<Rightarrow> slow n (r, h))"
    and slow_hit: "ok r \<Longrightarrow> abs r n = Some c \<Longrightarrow>
          \<exists>g. slow n (r, h) = (c, r, h @ g) \<and> set g \<subseteq> {fresh_channel n}"
    and slow_miss: "ok r \<Longrightarrow> abs r n = None \<Longrightarrow>
          \<exists>r'. slow n (r, h) = (length h, r', h @ [fresh_channel n]) \<and> ok r' \<and> abs r' = (abs r)(n \<mapsto> length h)"
    and del_ok: "ok r \<Longrightarrow> ok (del n r)"
    and del_abs: "ok r \<Longrightarrow> abs (del n r) = (abs r)(n := None)"
    and cad_hit: "ok r \<Longrightarrow> abs r n = Some c \<Longrightarrow>
          \<exists>r'. cad n c r = (True, r') \<and> ok r' \<and> abs r' = (abs r)(n := None)"
    and cad_miss: "ok r \<Longrightarrow> abs r n \<noteq> Some c \<Longrightarrow> cad n c r = (False, r)"
    and range_visits: "ok r \<Longrightarrow> inj_on (abs r) (dom (abs r)) \<Longrightarrow> (\<And>c s. fst (fn c s)) \<Longrightarrow>
          (\<And>c s. fst (fst (snd (fn c s))) = fst (fst s) \<or>
             (\<exists>n. fst (fst (snd (fn c s))) = snd (cad n c (fst (fst s))))) \<Longrightarrow>
          \<exists>cs. distinct cs \<and> set cs = ran (abs r) \<and>
               range fn ((r, h), k) = fold (\<lambda>c s. snd (fn c s)) cs ((r, h), k)"
    and len_abs: "ok r \<Longrightarrow> len r = card (dom (abs r))"
begin

text \<open>What \<open>GetOrCreate\<close> does, by cases on whether the name is registered.\<close>

lemma goc_hit: "ok r \<Longrightarrow> abs r n = Some c \<Longrightarrow> get_or_create n (r, h) = (c, r, h)"
  by (simp add: get_or_create_eq lookup_abs)

lemma goc_miss:
  "ok r \<Longrightarrow> abs r n = None \<Longrightarrow>
   \<exists>r'. get_or_create n (r, h) = (length h, r', h @ [fresh_channel n]) \<and> ok r' \<and> abs r' = (abs r)(n \<mapsto> length h)"
  by (simp add: get_or_create_eq lookup_abs slow_miss)

lemma goc_registered:
  assumes "ok r" "get_or_create n (r, h) = (c, r', h')"
  shows "ok r' \<and> abs r' n = Some c \<and> lookup r' n = Some c \<and> (\<forall>m. m \<noteq> n \<longrightarrow> abs r' m = abs r m)"
proof (cases "abs r n")
  case None
  from goc_miss [OF assms(1) None, of h] assms show ?thesis by (auto simp: lookup_abs)
next
  case (Some a)
  from goc_hit [OF assms(1) Some, of h] assms Some show ?thesis by (auto simp: lookup_abs)
qed

lemma goc_len:
  assumes "ok r" "finite (dom (abs r))" "get_or_create n (r, h) = (c, r', h')"
  shows "len r' = (if abs r n = None then Suc (len r) else len r)"
proof (cases "abs r n")
  case None
  then obtain r1 where "get_or_create n (r, h) = (length h, r1, h @ [fresh_channel n])" "ok r1"
    "abs r1 = (abs r)(n \<mapsto> length h)"
    using goc_miss [OF assms(1)] by blast
  with assms None show ?thesis by (auto simp: len_abs domIff)
next
  case (Some a)
  from goc_hit [OF assms(1) Some, of h] assms Some show ?thesis by simp
qed

lemma cad_ok: "ok r \<Longrightarrow> ok (snd (cad n c r)) \<and> fst (cad n c r) = (abs r n = Some c) \<and>
    abs (snd (cad n c r)) = (if abs r n = Some c then (abs r)(n := None) else abs r)"
  using cad_hit [of r n c] cad_miss [of r n c] by (cases "abs r n = Some c") auto

end

subsection \<open>sync.Map keeps the promise\<close>

lemma inj_on_alist_values:
  "gm_ok m \<Longrightarrow> inj_on (map_of m) (dom (map_of m)) \<Longrightarrow> distinct (map snd m)"
proof (induction m)
  case (Cons a m)
  obtain k v where [simp]: "a = (k, v)" by (cases a)
  have k: "k \<notin> dom (map_of m)" using Cons.prems(1) by (simp add: dom_map_of_conv_image_fst)
  have same: "map_of (a # m) x = map_of m x" if "x \<in> dom (map_of m)" for x
    using k that by auto
  have "inj_on (map_of (a # m)) (dom (map_of m))"
    by (rule inj_on_subset [OF Cons.prems(2)]) auto
  then have "inj_on (map_of m) (dom (map_of m))"
    using inj_on_cong [of "dom (map_of m)" "map_of (a # m)" "map_of m"] same by blast
  moreover have "v \<notin> snd ` set m"
  proof
    assume "v \<in> snd ` set m"
    then obtain k' where "(k', v) \<in> set m" by force
    then have k': "map_of m k' = Some v" using Cons.prems(1) by auto
    with same [of k'] have "map_of (a # m) k' = map_of (a # m) k" by auto
    then have "k' = k"
      by (rule inj_onD [OF Cons.prems(2)]) (use k' in \<open>auto split: if_splits\<close>)
    with k k' show False by blast
  qed
  ultimately show ?case using Cons by auto
qed simp

lemma ran_alist: "gm_ok m \<Longrightarrow> ran (map_of m) = snd ` set m"
  by (force simp: ran_def)

interpretation sm: registry_spec syncMap_Lookup syncMap_slow syncMap_GetOrCreate syncMap_Delete
  syncMap_CompareAndDelete "syncMap_Range (\<lambda>s. fst (fst s))" syncMap_Len map_of gm_ok
proof (unfold_locales, goal_cases)
  case (1 r n) then show ?case by (simp add: syncMap_Lookup_def)
next
  case (2 n r h) then show ?case by (simp add: syncMap_GetOrCreate_def syncMap_Lookup_def split: option.splits)
next
  case (3 r n c h) then show ?case by (simp add: syncMap_slow_def newChannel_def Map_LoadOrStore_def)
next
  case (4 r n h) then show ?case
    by (auto simp: syncMap_slow_def newChannel_def Map_LoadOrStore_def)
next
  case (5 r n) then show ?case by (simp add: syncMap_Delete_def)
next
  case (6 r n) then show ?case by (auto simp: syncMap_Delete_def)
next
  case (7 r n c) then show ?case by (auto simp: syncMap_CompareAndDelete_def Map_CompareAndDelete_def)
next
  case (8 r n c) then show ?case by (simp add: syncMap_CompareAndDelete_def Map_CompareAndDelete_def)
next
  case (9 r fn h k)
  have "loop_until (\<lambda>(_, v). fn v) r ((r, h), k) = (True, fold (\<lambda>kv s. snd ((\<lambda>(_, v). fn v) kv s)) r ((r, h), k))"
    by (rule loop_until_fold) (simp add: 9(3) case_prod_unfold)
  then have "syncMap_Range (\<lambda>s. fst (fst s)) fn ((r, h), k) = fold (\<lambda>c s. snd (fn c s)) (map snd r) ((r, h), k)"
    by (simp add: syncMap_Range_def fold_map comp_def case_prod_unfold)
  moreover have "distinct (map snd r)" using 9(1,2) by (rule inj_on_alist_values)
  ultimately show ?case using 9(1) by (intro exI [of _ "map snd r"]) (simp add: ran_alist)
next
  case (10 r)
  have "loop_until (\<lambda>(_, v) n. (True, Suc n)) (xs :: sync_map) n = (True, n + length xs)" for xs n
    by (induction xs arbitrary: n) auto
  with 10 show ?case by (simp add: syncMap_Len_def syncMap_Range_def gm_length_card)
qed

subsection \<open>The sharded map keeps the promise\<close>

definition shard_ok :: "nat \<Rightarrow> shard \<Rightarrow> bool" where
  "shard_ok i m \<longleftrightarrow> gm_ok m \<and> (\<forall>n c. gm_get m n = Some c \<longrightarrow> sharded_shardFor n = i)"

definition sharded_ok :: "shard list \<Rightarrow> bool" where
  "sharded_ok r \<longleftrightarrow> length r = numShards \<and> (\<forall>i < numShards. shard_ok i (r ! i))"

lemma shard_ok_put: "shard_ok (sharded_shardFor n) m \<Longrightarrow> shard_ok (sharded_shardFor n) (gm_put n c m)"
  by (simp add: shard_ok_def)

lemma shard_ok_del: "shard_ok i m \<Longrightarrow> shard_ok i (gm_del n m)"
  by (simp add: shard_ok_def)

definition sharded_abs :: "shard list \<Rightarrow> (string \<rightharpoonup> chref)" where
  "sharded_abs r = (\<lambda>n. gm_get (r ! sharded_shardFor n) n)"

lemma shardFor_less [simp]: "sharded_shardFor n < numShards"
  by (simp add: sharded_shardFor_def numShards_def shard_index_less)

lemma NewSharded_ok: "sharded_ok NewSharded"
  by (simp add: sharded_ok_def shard_ok_def NewSharded_def)

lemma sharded_ok_upd: "sharded_ok r \<Longrightarrow> shard_ok i m \<Longrightarrow> sharded_ok (r[i := m])"
  by (auto simp: sharded_ok_def) (metis nth_list_update_eq nth_list_update_neq)

lemma sharded_ok_nth: "sharded_ok r \<Longrightarrow> shard_ok (sharded_shardFor n) (r ! sharded_shardFor n)"
  by (simp add: sharded_ok_def)

lemma sharded_ok_put: "sharded_ok r \<Longrightarrow> i = sharded_shardFor n \<Longrightarrow> sharded_ok (r[i := gm_put n c (r ! i)])"
  by (simp add: sharded_ok_upd shard_ok_put sharded_ok_nth)

lemma sharded_ok_del: "sharded_ok r \<Longrightarrow> i = sharded_shardFor n \<Longrightarrow> sharded_ok (r[i := gm_del n (r ! i)])"
  by (simp add: sharded_ok_upd shard_ok_del sharded_ok_nth)

lemma sharded_ok_len: "sharded_ok r \<Longrightarrow> sharded_shardFor n < length r"
  by (simp add: sharded_ok_def)

lemma sharded_abs_put:
  "sharded_ok r \<Longrightarrow> i = sharded_shardFor n \<Longrightarrow> sharded_abs (r[i := gm_put n c (r ! i)]) = (sharded_abs r)(n \<mapsto> c)"
  by (rule ext) (auto simp: sharded_abs_def nth_list_update sharded_ok_len)

lemma sharded_abs_del:
  "sharded_ok r \<Longrightarrow> i = sharded_shardFor n \<Longrightarrow> sharded_abs (r[i := gm_del n (r ! i)]) = (sharded_abs r)(n := None)"
  by (rule ext) (auto simp: sharded_abs_def nth_list_update sharded_ok_len)

lemma sharded_shard_get:
  "sharded_ok r \<Longrightarrow> i < numShards \<Longrightarrow> gm_get (r ! i) n = Some c \<longleftrightarrow> sharded_abs r n = Some c \<and> sharded_shardFor n = i"
  by (auto simp: sharded_ok_def shard_ok_def sharded_abs_def)

lemma sharded_shard_values:
  assumes "sharded_ok r" "i < numShards"
  shows "snd ` set (r ! i) = {c. \<exists>n. sharded_abs r n = Some c \<and> sharded_shardFor n = i}"
proof -
  have "gm_ok (r ! i)" using assms by (simp add: sharded_ok_def shard_ok_def)
  then have "snd ` set (r ! i) = ran (gm_get (r ! i))" by (simp add: ran_alist)
  also have "\<dots> = {c. \<exists>n. sharded_abs r n = Some c \<and> sharded_shardFor n = i}"
    by (simp add: ran_def sharded_shard_get [OF assms])
  finally show ?thesis .
qed

lemma sharded_shard_distinct:
  assumes "sharded_ok r" "i < numShards" "inj_on (sharded_abs r) (dom (sharded_abs r))"
  shows "distinct (map snd (r ! i))"
proof (rule inj_on_alist_values)
  show "gm_ok (r ! i)" using assms by (simp add: sharded_ok_def shard_ok_def)
  have *: "gm_get (r ! i) n = sharded_abs r n" if "n \<in> dom (gm_get (r ! i))" for n
    using that sharded_shard_get [OF assms(1,2)] by auto
  then have "dom (gm_get (r ! i)) \<subseteq> dom (sharded_abs r)" by (auto simp: domIff)
  with assms(3) have "inj_on (sharded_abs r) (dom (gm_get (r ! i)))" by (rule inj_on_subset)
  then show "inj_on (gm_get (r ! i)) (dom (gm_get (r ! i)))"
    using inj_on_cong [of "dom (gm_get (r ! i))" "gm_get (r ! i)" "sharded_abs r"] * by blast
qed

text \<open>
  A callback that only removes the channel it visits keeps an invariant along the visit. The state
  is any type from which \<open>get\<close> reads the shards; \<open>I\<close> is what the callback keeps of it.
\<close>

lemma fold_shrinks:
  assumes "\<And>c s. I s \<Longrightarrow> I (f c s) \<and> shrinks {c} (ab s) (ab (f c s))" and "I s"
  shows "I (fold f cs s) \<and> shrinks (set cs) (ab s) (ab (fold f cs s))"
  using assms(2)
proof (induction cs arbitrary: s)
  case (Cons c cs)
  from assms(1) [OF Cons.prems] have c: "I (f c s)" "shrinks {c} (ab s) (ab (f c s))"
    by auto
  from Cons.IH [OF c(1)] shrinks_trans [OF c(2)] show ?case by fastforce
qed simp

lemma sharded_range_visits:
  assumes cont: "\<And>c s. fst (fn c s)"
    and step: "\<And>c s. I s \<Longrightarrow> I (snd (fn c s)) \<and> shrinks {c} (sharded_abs (get s)) (sharded_abs (get (snd (fn c s))))"
    and I_ok: "\<And>s. I s \<Longrightarrow> sharded_ok (get s)"
    and "I s" "inj_on (sharded_abs (get s)) (dom (sharded_abs (get s)))"
    and "distinct is" "set is \<subseteq> {..<numShards}"
  shows "\<exists>cs. distinct cs \<and> set cs = {c. \<exists>n. sharded_abs (get s) n = Some c \<and> sharded_shardFor n \<in> set is} \<and>
     loop_until (\<lambda>i s. loop_until fn (map snd (get s ! i)) s) is s = (True, fold (\<lambda>c s. snd (fn c s)) cs s)"
  using assms(4-)
proof (induction "is" arbitrary: s)
  case (Cons i "is")
  let ?f = "\<lambda>c s. snd (fn c s)" and ?A = "sharded_abs (get s)"
  let ?vs = "map snd (get s ! i)"
  let ?s = "fold ?f ?vs s"
  have i: "i < numShards" using Cons.prems by simp
  have vs: "set ?vs = {c. \<exists>n. ?A n = Some c \<and> sharded_shardFor n = i}"
    using sharded_shard_values [OF I_ok [OF Cons.prems(1)] i] by simp
  have dvs: "distinct ?vs" using sharded_shard_distinct [OF I_ok [OF Cons.prems(1)] i Cons.prems(2)] .
  have inner: "loop_until fn ?vs s = (True, ?s)" by (rule loop_until_fold) (rule cont)
  have sk: "I ?s \<and> shrinks (set ?vs) ?A (sharded_abs (get ?s))"
    by (rule fold_shrinks [where I = I and f = ?f]) (use step Cons.prems in auto)
  then have inj: "inj_on (sharded_abs (get ?s)) (dom (sharded_abs (get ?s)))"
    using shrinks_inj Cons.prems(2) by blast
  have inj1: "n = n'" if "?A n = Some c" "?A n' = Some c" for n n' c
    by (rule inj_onD [OF Cons.prems(2)]) (use that in auto)
  have same: "sharded_abs (get ?s) n = ?A n" if "sharded_shardFor n \<noteq> i" for n
  proof (rule ccontr)
    assume "sharded_abs (get ?s) n \<noteq> ?A n"
    with sk obtain c where c: "c \<in> set ?vs" "?A n = Some c" unfolding shrinks_def by metis
    with vs obtain n' where "?A n' = Some c" "sharded_shardFor n' = i" by auto
    with inj1 c that show False by blast
  qed
  from Cons.IH [of ?s] sk inj Cons.prems obtain cs where cs: "distinct cs"
    "set cs = {c. \<exists>n. sharded_abs (get ?s) n = Some c \<and> sharded_shardFor n \<in> set is}"
    "loop_until (\<lambda>i s. loop_until fn (map snd (get s ! i)) s) is ?s = (True, fold ?f cs ?s)"
    by auto
  have ni: "i \<notin> set is" using Cons.prems by simp
  have "sharded_abs (get ?s) n = Some c \<and> sharded_shardFor n \<in> set is \<longleftrightarrow>
      ?A n = Some c \<and> sharded_shardFor n \<in> set is" for n c
    using same [of n] ni by (cases "sharded_shardFor n = i") simp_all
  then have cset: "set cs = {c. \<exists>n. ?A n = Some c \<and> sharded_shardFor n \<in> set is}"
    unfolding cs(2) by simp
  have "set ?vs \<inter> set cs = {}"
    using ni inj1 unfolding vs cset by blast
  moreover have "set (?vs @ cs) = {c. \<exists>n. ?A n = Some c \<and> sharded_shardFor n \<in> set (i # is)}"
    unfolding set_append vs cset by auto
  ultimately show ?case
    using cs dvs inner by (intro exI [of _ "?vs @ cs"]) simp
qed simp

lemma sharded_cad_shrinks:
  "sharded_ok r \<Longrightarrow> sharded_ok (snd (sharded_CompareAndDelete n c r)) \<and>
     shrinks {c} (sharded_abs r) (sharded_abs (snd (sharded_CompareAndDelete n c r)))"
  by (auto simp: sharded_CompareAndDelete_def Let_def sharded_ok_del sharded_abs_del shrinks_def)
     (simp_all add: sharded_abs_def)

lemma sharded_len_abs: "sharded_ok r \<Longrightarrow> sharded_Len r = card (dom (sharded_abs r))"
proof -
  assume ok: "sharded_ok r"
  let ?D = "\<lambda>i. dom (gm_get (r ! i))"
  have key: "n \<in> ?D i \<longleftrightarrow> sharded_shardFor n = i \<and> n \<in> dom (sharded_abs r)" if "i < numShards" for i n
    using sharded_shard_get [OF ok that, of n] by auto
  have "dom (sharded_abs r) = (\<Union>i \<in> {..<numShards}. ?D i)"
    using key by fastforce
  moreover have "card (\<Union>i \<in> {..<numShards}. ?D i) = (\<Sum>i<numShards. card (?D i))"
  proof (rule card_UN_disjoint)
    show "\<forall>i \<in> {..<numShards}. \<forall>j \<in> {..<numShards}. i \<noteq> j \<longrightarrow> ?D i \<inter> ?D j = {}"
      using key by (simp add: disjoint_iff)
  qed (simp_all add: finite_dom_map_of)
  ultimately have "card (dom (sharded_abs r)) = (\<Sum>i<numShards. card (?D i))" by simp
  also have "\<dots> = (\<Sum>i<numShards. length (r ! i))"
    using ok by (intro sum.cong) (auto simp: sharded_ok_def shard_ok_def gm_length_card)
  also have "\<dots> = sum_list (map length r)"
    using ok by (simp add: sharded_ok_def sum_list_sum_nth atLeast0LessThan)
  also have "\<dots> = sharded_Len r"
  proof -
    have "foldl (\<lambda>n s. n + length s) k xs = k + sum_list (map length xs)" for k and xs :: "shard list"
      by (induction xs arbitrary: k) auto
    then show ?thesis by (simp add: sharded_Len_def)
  qed
  finally show ?thesis by simp
qed

interpretation sh: registry_spec sharded_Lookup sharded_slow sharded_GetOrCreate sharded_Delete
  sharded_CompareAndDelete "sharded_Range (\<lambda>s. fst (fst s))" sharded_Len sharded_abs sharded_ok
proof (unfold_locales, goal_cases)
  case (1 r n) then show ?case by (simp add: sharded_Lookup_def sharded_abs_def)
next
  case (2 n r h) then show ?case by (simp add: sharded_GetOrCreate_def sharded_Lookup_def split: option.splits)
next
  case (3 r n c h) then show ?case by (simp add: sharded_slow_def sharded_abs_def Let_def)
next
  case (4 r n h)
  then have "gm_get (r ! sharded_shardFor n) n = None" by (simp add: sharded_abs_def)
  with 4 show ?case
    by (simp add: sharded_slow_def newChannel_def Let_def sharded_ok_put sharded_abs_put)
next
  case (5 r n) then show ?case by (simp add: sharded_Delete_def Let_def sharded_ok_del)
next
  case (6 r n) then show ?case by (simp add: sharded_Delete_def Let_def sharded_abs_del)
next
  case (7 r n c)
  then have "gm_get (r ! sharded_shardFor n) n = Some c" by (simp add: sharded_abs_def)
  with 7 show ?case by (simp add: sharded_CompareAndDelete_def Let_def sharded_ok_del sharded_abs_del)
next
  case (8 r n c) then show ?case by (simp add: sharded_CompareAndDelete_def sharded_abs_def Let_def)
next
  case (9 r fn h k)
  have step: "sharded_ok (fst (fst (snd (fn c s)))) \<and>
      shrinks {c} (sharded_abs (fst (fst s))) (sharded_abs (fst (fst (snd (fn c s)))))"
    if "sharded_ok (fst (fst s))" for c s
    using 9(4) [of c s] sharded_cad_shrinks [OF that] that by auto
  have "\<exists>cs. distinct cs \<and> set cs = {c. \<exists>n. sharded_abs (fst (fst ((r, h), k))) n = Some c \<and> sharded_shardFor n \<in> set [0..<numShards]} \<and>
     loop_until (\<lambda>i s. loop_until fn (map snd (fst (fst s) ! i)) s) [0..<numShards] ((r, h), k) =
       (True, fold (\<lambda>c s. snd (fn c s)) cs ((r, h), k))"
    by (rule sharded_range_visits [where I = "\<lambda>s. sharded_ok (fst (fst s))"]) (use 9 step in auto)
  then show ?case by (auto simp: sharded_Range_def ran_def)
next
  case (10 r) then show ?case by (rule sharded_len_abs)
qed

subsection \<open>The interface value keeps the promise\<close>

fun reg_abs :: "registry \<Rightarrow> (string \<rightharpoonup> chref)" where
  "reg_abs (SyncMapReg m) = map_of m"
| "reg_abs (ShardedReg r) = sharded_abs r"

fun reg_ok :: "registry \<Rightarrow> bool" where
  "reg_ok (SyncMapReg m) = gm_ok m"
| "reg_ok (ShardedReg r) = sharded_ok r"

interpretation rg: registry_spec reg_Lookup reg_slow reg_GetOrCreate reg_Delete
  reg_CompareAndDelete "reg_Range (\<lambda>s. fst (fst s))" reg_Len reg_abs reg_ok
proof (unfold_locales, goal_cases)
  case (1 r n) then show ?case by (cases r) (simp_all add: sm.lookup_abs sh.lookup_abs)
next
  case (2 n r h)
  show ?case by (cases r) (simp_all add: sm.get_or_create_eq sh.get_or_create_eq split: option.splits)
next
  case (3 r n c h)
  show ?case
  proof (cases r)
    case (SyncMapReg m)
    with 3 sm.slow_hit [of m n c h] show ?thesis by auto
  next
    case (ShardedReg s)
    with 3 sh.slow_hit [of s n c h] show ?thesis by auto
  qed
next
  case (4 r n h)
  show ?case
  proof (cases r)
    case (SyncMapReg m)
    with 4 sm.slow_miss [of m n h] show ?thesis by auto
  next
    case (ShardedReg s)
    with 4 sh.slow_miss [of s n h] show ?thesis by auto
  qed
next
  case (5 r n) then show ?case by (cases r) (simp_all add: sm.del_ok sh.del_ok)
next
  case (6 r n) then show ?case by (cases r) (simp_all add: sm.del_abs sh.del_abs)
next
  case (7 r n c)
  show ?case
  proof (cases r)
    case (SyncMapReg m)
    with 7 sm.cad_hit [of m n c] show ?thesis by auto
  next
    case (ShardedReg s)
    with 7 sh.cad_hit [of s n c] show ?thesis by auto
  qed
next
  case (8 r n c) then show ?case by (cases r) (simp_all add: sm.cad_miss sh.cad_miss)
next
  case (9 r fn h k)
  show ?case
  proof (cases r)
    case (SyncMapReg m)
    have "loop_until (\<lambda>(_, v). fn v) m ((r, h), k) = (True, fold (\<lambda>kv s. snd ((\<lambda>(_, v). fn v) kv s)) m ((r, h), k))"
      by (rule loop_until_fold) (simp add: 9(3) case_prod_unfold)
    then have "reg_Range (\<lambda>s. fst (fst s)) fn ((r, h), k) = fold (\<lambda>c s. snd (fn c s)) (map snd m) ((r, h), k)"
      by (simp add: SyncMapReg reg_Range_def syncMap_Range_def fold_map comp_def case_prod_unfold)
    moreover have "distinct (map snd m)" using 9(1,2) SyncMapReg by (simp add: inj_on_alist_values)
    ultimately show ?thesis using 9(1) SyncMapReg by (intro exI [of _ "map snd m"]) (simp add: ran_alist)
  next
    case (ShardedReg sr)
    let ?I = "\<lambda>s. \<exists>sr. fst (fst s) = ShardedReg sr \<and> sharded_ok sr"
    have step: "?I (snd (fn c s)) \<and> shrinks {c} (sharded_abs (shards_of (fst (fst s))))
        (sharded_abs (shards_of (fst (fst (snd (fn c s))))))" if I: "?I s" for c s
    proof -
      from I obtain x where x: "fst (fst s) = ShardedReg x" "sharded_ok x" by blast
      from 9(4) [of c s] consider "fst (fst (snd (fn c s))) = ShardedReg x"
        | n where "fst (fst (snd (fn c s))) = ShardedReg (snd (sharded_CompareAndDelete n c x))"
        using x by (auto simp: Let_def case_prod_unfold)
      then show ?thesis by cases (use x sharded_cad_shrinks [OF x(2)] in auto)
    qed
    have "\<exists>cs. distinct cs \<and> set cs = {c. \<exists>n. sharded_abs (shards_of (fst (fst ((r, h), k)))) n = Some c \<and>
          sharded_shardFor n \<in> set [0..<numShards]} \<and>
       loop_until (\<lambda>i s. loop_until fn (map snd (shards_of (fst (fst s)) ! i)) s) [0..<numShards] ((r, h), k) =
         (True, fold (\<lambda>c s. snd (fn c s)) cs ((r, h), k))"
      by (rule sharded_range_visits [where I = ?I]) (use 9 ShardedReg step in auto)
    then show ?thesis using ShardedReg by (auto simp: reg_Range_def sharded_Range_def ran_def)
  qed
next
  case (10 r) then show ?case by (cases r) (simp_all add: sm.len_abs sh.len_abs)
qed

subsection \<open>Well-formed registries\<close>

text \<open>
  What the registry and the channels agree on between critical sections: a registered channel
  carries the name it is registered under and is not deleted, a deleted channel has no
  subscribers, and a channel with subscribers is the registered one of its name.
\<close>

definition chans_wf :: "registry \<times> channel list \<Rightarrow> bool" where
  "chans_wf st \<longleftrightarrow> (case st of (r, h) \<Rightarrow> reg_ok r \<and>
     (\<forall>n c. reg_abs r n = Some c \<longrightarrow> c < length h \<and> Name (h ! c) = n \<and> \<not> Deleted (h ! c)) \<and>
     (\<forall>c < length h. distinct (Subscribers (h ! c)) \<and>
        (Subscribers (h ! c) \<noteq> [] \<longrightarrow> reg_abs r (Name (h ! c)) = Some c)))"

lemma chans_wfI:
  assumes "reg_ok r"
    and "\<And>n c. reg_abs r n = Some c \<Longrightarrow> c < length h \<and> Name (h ! c) = n \<and> \<not> Deleted (h ! c)"
    and "\<And>c. c < length h \<Longrightarrow> distinct (Subscribers (h ! c))"
    and "\<And>c. c < length h \<Longrightarrow> Subscribers (h ! c) \<noteq> [] \<Longrightarrow> reg_abs r (Name (h ! c)) = Some c"
  shows "chans_wf (r, h)"
  using assms by (simp add: chans_wf_def)

lemma chans_wf_distinct: "chans_wf (r, h) \<Longrightarrow> c < length h \<Longrightarrow> distinct (Subscribers (h ! c))"
  by (simp add: chans_wf_def)

lemma chans_wf_subscribed:
  "chans_wf (r, h) \<Longrightarrow> c < length h \<Longrightarrow> Subscribers (h ! c) \<noteq> [] \<Longrightarrow> reg_abs r (Name (h ! c)) = Some c"
  by (simp add: chans_wf_def)

lemma chans_wf_registered:
  "chans_wf (r, h) \<Longrightarrow> reg_abs r n = Some c \<Longrightarrow> c < length h \<and> Name (h ! c) = n \<and> \<not> Deleted (h ! c)"
  by (simp add: chans_wf_def)

lemma chans_wf_ok: "chans_wf (r, h) \<Longrightarrow> reg_ok r"
  by (simp add: chans_wf_def)

lemma chans_wf_deleted_empty:
  "chans_wf (r, h) \<Longrightarrow> c < length h \<Longrightarrow> Deleted (h ! c) \<Longrightarrow> Subscribers (h ! c) = []"
  using chans_wf_subscribed [of r h c] chans_wf_registered [of r h "Name (h ! c)" c] by blast

lemma chans_wf_inj: "chans_wf (r, h) \<Longrightarrow> inj_on (reg_abs r) (dom (reg_abs r))"
proof (rule inj_onI)
  fix n m assume "chans_wf (r, h)" "n \<in> dom (reg_abs r)" "reg_abs r n = reg_abs r m"
  then show "n = m" using chans_wf_registered by (metis domD)
qed

lemma chans_wf_ran: "chans_wf (r, h) \<Longrightarrow> c \<in> ran (reg_abs r) \<longleftrightarrow> c < length h \<and> reg_abs r (Name (h ! c)) = Some c"
  by (auto simp: ran_def dest: chans_wf_registered)

lemma chans_wf_init: "chans_wf (SyncMapReg NewSyncMap, [])" "chans_wf (ShardedReg NewSharded, [])"
proof -
  have "sharded_abs NewSharded = Map.empty"
    by (rule ext) (simp add: sharded_abs_def NewSharded_def)
  then show "chans_wf (ShardedReg NewSharded, [])"
    by (intro chans_wfI) (simp_all add: NewSharded_ok)
  show "chans_wf (SyncMapReg NewSyncMap, [])"
    by (intro chans_wfI) (simp_all add: NewSyncMap_def)
qed

lemma reg_dom_finite: "reg_ok r \<Longrightarrow> finite (dom (reg_abs r))"
proof (cases r)
  case (ShardedReg s)
  have "dom (sharded_abs s) \<subseteq> (\<Union>i \<in> {..<numShards}. dom (gm_get (s ! i)))"
    by (auto simp: sharded_abs_def intro!: bexI [of _ "sharded_shardFor x" for x])
  moreover have "finite (\<Union>i \<in> {..<numShards}. dom (gm_get (s ! i)))"
    by (simp add: finite_dom_map_of)
  ultimately show ?thesis using ShardedReg by (simp add: finite_subset)
qed (simp add: finite_dom_map_of)

lemma GetOrCreate_wf:
  assumes wf: "chans_wf (r, h)" and goc: "reg_GetOrCreate n (r, h) = (c, r', h')"
  shows "chans_wf (r', h') \<and> c < length h' \<and> Name (h' ! c) = n \<and> \<not> Deleted (h' ! c) \<and>
    reg_abs r' n = Some c \<and> (\<exists>g. h' = h @ g \<and> (\<forall>x \<in> set g. Subscribers x = []))"
proof (cases "reg_abs r n")
  case None
  then obtain r1 where r1: "reg_GetOrCreate n (r, h) = (length h, r1, h @ [fresh_channel n])"
    "reg_ok r1" "reg_abs r1 = (reg_abs r)(n \<mapsto> length h)"
    using rg.goc_miss [OF chans_wf_ok [OF wf]] by blast
  let ?h = "h @ [fresh_channel n]"
  have "chans_wf (r1, ?h)"
  proof (rule chans_wfI)
    fix m c assume "reg_abs r1 m = Some c"
    then show "c < length ?h \<and> Name (?h ! c) = m \<and> \<not> Deleted (?h ! c)"
      using chans_wf_registered [OF wf, of m c] r1 by (auto simp: nth_append split: if_splits)
  next
    fix c assume c: "c < length ?h"
    show "distinct (Subscribers (?h ! c))"
      using c chans_wf_distinct [OF wf, of c] by (auto simp: nth_append)
    assume "Subscribers (?h ! c) \<noteq> []"
    with c have c': "c < length h" "Subscribers (h ! c) \<noteq> []" by (auto simp: nth_append split: if_splits)
    with chans_wf_subscribed [OF wf] None r1 show "reg_abs r1 (Name (?h ! c)) = Some c"
      by (auto simp: nth_append)
  qed (rule r1(2))
  with r1 goc show ?thesis by auto
next
  case (Some a)
  with rg.goc_hit [OF chans_wf_ok [OF wf] Some, of h] goc wf chans_wf_registered [OF wf Some]
  show ?thesis by auto
qed

subsection \<open>What a sweep does\<close>

lemma sweep_step:
  assumes wf: "chans_wf (r, h)" and c: "c \<in> ran (reg_abs r)"
  shows "\<exists>r'. snd (sweep_fn c ((r, h), k)) =
       ((r', if Subscribers (h ! c) = [] then h[c := (h ! c)\<lparr>Deleted := True\<rparr>] else h),
        if Subscribers (h ! c) = [] then Suc k else k) \<and>
     reg_abs r' = (if Subscribers (h ! c) = [] then (reg_abs r)(Name (h ! c) := None) else reg_abs r) \<and>
     chans_wf (r', if Subscribers (h ! c) = [] then h[c := (h ! c)\<lparr>Deleted := True\<rparr>] else h)"
proof (cases "Subscribers (h ! c) = []")
  case True
  have reg: "reg_abs r (Name (h ! c)) = Some c" "c < length h" using c chans_wf_ran [OF wf] by auto
  obtain r' where r': "reg_CompareAndDelete (Name (h ! c)) c r = (True, r')" "reg_ok r'"
    "reg_abs r' = (reg_abs r)(Name (h ! c) := None)"
    using rg.cad_hit [OF chans_wf_ok [OF wf] reg(1)] by blast
  let ?h = "h[c := (h ! c)\<lparr>Deleted := True\<rparr>]"
  have nth: "?h ! d = (if d = c then (h ! c)\<lparr>Deleted := True\<rparr> else h ! d)" for d
    using reg(2) by (simp add: nth_list_update)
  have "chans_wf (r', ?h)"
  proof (rule chans_wfI)
    fix n d assume "reg_abs r' n = Some d"
    then have "reg_abs r n = Some d" "n \<noteq> Name (h ! c)" using r' by (auto split: if_splits)
    then show "d < length ?h \<and> Name (?h ! d) = n \<and> \<not> Deleted (?h ! d)"
      using chans_wf_registered [OF wf] by (auto simp: nth)
  next
    fix d assume d: "d < length ?h"
    then show "distinct (Subscribers (?h ! d))"
      using chans_wf_distinct [OF wf, of d] True by (auto simp: nth)
    assume "Subscribers (?h ! d) \<noteq> []"
    with True have d': "d \<noteq> c" "Subscribers (h ! d) \<noteq> []" by (auto simp: nth split: if_splits)
    with chans_wf_subscribed [OF wf, of d] d reg show "reg_abs r' (Name (?h ! d)) = Some d"
      by (auto simp: nth r')
  qed (rule r'(2))
  with True r' show ?thesis by (auto simp: sweep_fn_def)
qed (use wf in \<open>auto simp: sweep_fn_def\<close>)

abbreviation idle :: "channel list \<Rightarrow> chref \<Rightarrow> bool" where
  "idle h c \<equiv> Subscribers (h ! c) = []"

lemma sweep_fold:
  assumes "chans_wf (r, h)" "distinct cs" "set cs \<subseteq> ran (reg_abs r)"
    and "fold (\<lambda>c s. snd (sweep_fn c s)) cs ((r, h), k) = ((r', h'), k')"
  shows "chans_wf (r', h') \<and> length h' = length h \<and>
    (\<forall>n. reg_abs r' n = (if \<exists>c \<in> set cs. reg_abs r n = Some c \<and> idle h c then None else reg_abs r n)) \<and>
    (\<forall>d < length h. h' ! d = (if d \<in> set cs \<and> idle h d then (h ! d)\<lparr>Deleted := True\<rparr> else h ! d)) \<and>
    k' = k + length (filter (idle h) cs)"
  using assms
proof (induction cs arbitrary: r h k)
  case (Cons c cs)
  have c: "c \<in> ran (reg_abs r)" using Cons.prems by simp
  let ?h = "if idle h c then h[c := (h ! c)\<lparr>Deleted := True\<rparr>] else h"
  obtain r1 where r1: "snd (sweep_fn c ((r, h), k)) = ((r1, ?h), if idle h c then Suc k else k)"
    "reg_abs r1 = (if idle h c then (reg_abs r)(Name (h ! c) := None) else reg_abs r)" "chans_wf (r1, ?h)"
    using sweep_step [OF Cons.prems(1) c, of k] by blast
  have cl: "c < length h" "reg_abs r (Name (h ! c)) = Some c"
    using c chans_wf_ran [OF Cons.prems(1)] by auto
  have sub: "set cs \<subseteq> ran (reg_abs r1)"
  proof
    fix d assume d: "d \<in> set cs"
    then have "d \<noteq> c" "d \<in> ran (reg_abs r)" using Cons.prems by auto
    then obtain m where "reg_abs r m = Some d" by (auto simp: ran_def)
    moreover from this \<open>d \<noteq> c\<close> cl have "m \<noteq> Name (h ! c)" by auto
    ultimately show "d \<in> ran (reg_abs r1)" using r1(2) by (auto simp: ran_def)
  qed
  have nth: "?h ! d = (if d = c \<and> idle h c then (h ! c)\<lparr>Deleted := True\<rparr> else h ! d)" for d
    using cl by (simp add: nth_list_update)
  have idl: "idle ?h d = idle h d" for d by (simp add: nth)
  have IH: "chans_wf (r', h') \<and> length h' = length ?h \<and>
    (\<forall>n. reg_abs r' n = (if \<exists>d \<in> set cs. reg_abs r1 n = Some d \<and> idle h d then None else reg_abs r1 n)) \<and>
    (\<forall>d < length ?h. h' ! d = (if d \<in> set cs \<and> idle h d then (?h ! d)\<lparr>Deleted := True\<rparr> else ?h ! d)) \<and>
    k' = (if idle h c then Suc k else k) + length (filter (idle h) cs)"
    using Cons.IH [OF r1(3) _ sub, of "if idle h c then Suc k else k"] Cons.prems r1(1)
    unfolding idl by simp
  have "reg_abs r' n = (if \<exists>d \<in> set (c # cs). reg_abs r n = Some d \<and> idle h d then None else reg_abs r n)" for n
  proof (cases "n = Name (h ! c)")
    case True
    then show ?thesis using IH r1(2) cl by auto
  next
    case False
    then have "reg_abs r n \<noteq> Some c" using chans_wf_registered [OF Cons.prems(1)] by blast
    with False show ?thesis using IH r1(2) by auto
  qed
  moreover have "h' ! d = (if d \<in> set (c # cs) \<and> idle h d then (h ! d)\<lparr>Deleted := True\<rparr> else h ! d)" if "d < length h" for d
    using IH that Cons.prems(2) by (auto simp: nth)
  ultimately show ?case using IH by auto
qed simp

lemma Sweep_result:
  assumes wf: "chans_wf (r, h)" and sw: "Sweep (r, h) = (k, r', h')"
  shows "chans_wf (r', h') \<and> length h' = length h \<and>
    (\<forall>n. reg_abs r' n = (case reg_abs r n of None \<Rightarrow> None | Some c \<Rightarrow> if idle h c then None else Some c)) \<and>
    (\<forall>c < length h. h' ! c = (if c \<in> ran (reg_abs r) \<and> idle h c then (h ! c)\<lparr>Deleted := True\<rparr> else h ! c)) \<and>
    k = card {c \<in> ran (reg_abs r). idle h c}"
proof -
  have cont: "fst (sweep_fn c s)" for c s
    by (auto simp: sweep_fn_def case_prod_unfold Let_def)
  have eff: "fst (fst (snd (sweep_fn c s))) = fst (fst s) \<or>
      (\<exists>n. fst (fst (snd (sweep_fn c s))) = snd (reg_CompareAndDelete n c (fst (fst s))))" for c s
    by (cases s) (auto simp: sweep_fn_def case_prod_unfold Let_def)
  obtain cs where cs: "distinct cs" "set cs = ran (reg_abs r)"
    "reg_Range (\<lambda>s. fst (fst s)) sweep_fn ((r, h), 0) = fold (\<lambda>c s. snd (sweep_fn c s)) cs ((r, h), 0)"
    using rg.range_visits [OF chans_wf_ok [OF wf] chans_wf_inj [OF wf], of sweep_fn h 0] cont eff by blast
  have "fold (\<lambda>c s. snd (sweep_fn c s)) cs ((r, h), 0) = ((r', h'), k)"
    using sw cs(3) by (simp add: Sweep_def case_prod_unfold Let_def prod_eq_iff)
  note f = sweep_fold [OF wf cs(1) _ this]
  have "card (set (filter (idle h) cs)) = length (filter (idle h) cs)"
    using cs(1) by (intro distinct_card distinct_filter)
  then have "card {c \<in> ran (reg_abs r). idle h c} = length (filter (idle h) cs)"
    by (simp add: cs(2))
  moreover have "(\<exists>c \<in> set cs. reg_abs r n = Some c \<and> idle h c) \<longleftrightarrow> (\<exists>c. reg_abs r n = Some c \<and> idle h c)" for n
    using cs(2) by (auto simp: ran_def)
  ultimately show ?thesis using f cs(2) by (auto split: option.splits)
qed

subsection \<open>Properties\<close>

text \<open>
  C12: The two registries are interchangeable. Started from states that map the same names to the
  same channels, \<open>sync.Map\<close> and the sharded map answer \<open>Lookup\<close>, \<open>GetOrCreate\<close>,
  \<open>CompareAndDelete\<close> and \<open>Len\<close> alike, allocate the same channels, and end in states that again map
  the same names to the same channels.
\<close>

theorem registries_agree:
  assumes "gm_ok m" "sharded_ok s" "map_of m = sharded_abs s"
  shows "syncMap_Lookup m n = sharded_Lookup s n \<and>
    syncMap_Len m = sharded_Len s \<and>
    fst (syncMap_CompareAndDelete n c m) = fst (sharded_CompareAndDelete n c s) \<and>
    map_of (snd (syncMap_CompareAndDelete n c m)) = sharded_abs (snd (sharded_CompareAndDelete n c s)) \<and>
    fst (syncMap_GetOrCreate n (m, h)) = fst (sharded_GetOrCreate n (s, h)) \<and>
    map_of (fst (snd (syncMap_GetOrCreate n (m, h)))) = sharded_abs (fst (snd (sharded_GetOrCreate n (s, h)))) \<and>
    snd (snd (syncMap_GetOrCreate n (m, h))) = snd (snd (sharded_GetOrCreate n (s, h))) \<and>
    map_of (syncMap_Delete n m) = sharded_abs (sharded_Delete n s)"
proof -
  have goc: "fst (syncMap_GetOrCreate n (m, h)) = fst (sharded_GetOrCreate n (s, h)) \<and>
    map_of (fst (snd (syncMap_GetOrCreate n (m, h)))) = sharded_abs (fst (snd (sharded_GetOrCreate n (s, h)))) \<and>
    snd (snd (syncMap_GetOrCreate n (m, h))) = snd (snd (sharded_GetOrCreate n (s, h)))"
  proof (cases "sharded_abs s n")
    case None
    then show ?thesis using assms sm.goc_miss [of m n h] sh.goc_miss [of s n h] by auto
  next
    case (Some a)
    then show ?thesis using assms sm.goc_hit [of m n a h] sh.goc_hit [of s n a h] by simp
  qed
  with assms sm.cad_ok [of m n c] sh.cad_ok [of s n c] show ?thesis
    by (simp add: sm.lookup_abs sh.lookup_abs sm.len_abs sh.len_abs sm.del_abs sh.del_abs)
qed

theorem registries_agree_witness:
  "fst (syncMap_GetOrCreate ''room'' (NewSyncMap, [])) = fst (sharded_GetOrCreate ''room'' (NewSharded, [])) \<and>
   syncMap_Len NewSyncMap = sharded_Len NewSharded"
proof -
  have "map_of NewSyncMap = sharded_abs NewSharded"
    by (rule ext) (simp add: sharded_abs_def NewSharded_def NewSyncMap_def)
  moreover have "gm_ok NewSyncMap" by (simp add: NewSyncMap_def)
  ultimately show ?thesis
    using registries_agree [of NewSyncMap NewSharded "''room''" 0 "[]"] NewSharded_ok by simp
qed

text \<open>
  \<open>GetOrCreate\<close> returns the channel registered under the name, creating one only when the name
  is free. What it returns is never deleted and carries the name, the registry stays well formed,
  no other name is affected, and no existing channel changes.
\<close>

theorem GetOrCreate_correct:
  assumes "chans_wf (r, h)" "reg_GetOrCreate n (r, h) = (c, r', h')"
  shows "chans_wf (r', h') \<and> reg_Lookup r' n = Some c \<and> Name (h' ! c) = n \<and> \<not> Deleted (h' ! c) \<and>
    (\<forall>m. m \<noteq> n \<longrightarrow> reg_Lookup r' m = reg_Lookup r m) \<and> take (length h) h' = h \<and>
    reg_Len r' = (if reg_Lookup r n = None then Suc (reg_Len r) else reg_Len r)"
proof -
  note ok = chans_wf_ok [OF assms(1)]
  note g = rg.goc_registered [OF ok assms(2)]
  from GetOrCreate_wf [OF assms] g rg.goc_len [OF ok reg_dom_finite [OF ok] assms(2)] ok show ?thesis
    by (auto simp: rg.lookup_abs)
qed

theorem GetOrCreate_correct_witness:
  "let (c, r', h') = reg_GetOrCreate ''room'' (ShardedReg NewSharded, [])
   in reg_Lookup r' ''room'' = Some c \<and> Name (h' ! c) = ''room''"
proof -
  obtain c r' h' where *: "reg_GetOrCreate ''room'' (ShardedReg NewSharded, []) = (c, r', h')"
    by (cases "reg_GetOrCreate ''room'' (ShardedReg NewSharded, [])") auto
  from GetOrCreate_correct [OF chans_wf_init(2) *] show ?thesis unfolding * by simp
qed

text \<open>
  A sweep removes exactly the registered channels that have no subscribers, marks exactly those
  as deleted, leaves every other channel and registration as it was, returns how many it removed,
  and keeps the registry well formed. This holds for both registries, whose \<open>Range\<close> calls back
  while \<open>Sweep\<close> removes entries.
\<close>

theorem Sweep_exact:
  assumes "chans_wf (r, h)" "Sweep (r, h) = (k, r', h')"
  shows "chans_wf (r', h') \<and> length h' = length h \<and>
    (\<forall>n. reg_Lookup r' n = (case reg_Lookup r n of None \<Rightarrow> None | Some c \<Rightarrow> if idle h c then None else Some c)) \<and>
    (\<forall>c < length h. h' ! c =
       (if (\<exists>n. reg_Lookup r n = Some c) \<and> idle h c then (h ! c)\<lparr>Deleted := True\<rparr> else h ! c)) \<and>
    k = card {c. (\<exists>n. reg_Lookup r n = Some c) \<and> idle h c}"
proof -
  have ok: "reg_ok r" "reg_ok r'"
    using assms Sweep_result [OF assms] chans_wf_ok by blast+
  then have "reg_Lookup r = reg_abs r" "reg_Lookup r' = reg_abs r'"
    by (auto simp: rg.lookup_abs)
  with Sweep_result [OF assms] show ?thesis by (simp add: ran_def)
qed

theorem Sweep_exact_witness:
  "let (k, r', h') = Sweep (SyncMapReg [(''room'', 0)], [fresh_channel ''room''])
   in chans_wf (r', h') \<and> reg_Lookup r' ''room'' = None \<and> Deleted (h' ! 0)"
proof -
  let ?h = "[fresh_channel ''room'']"
  obtain k r' h' where *: "Sweep (SyncMapReg [(''room'', 0)], ?h) = (k, r', h')"
    by (cases "Sweep (SyncMapReg [(''room'', 0)], ?h)") auto
  have "chans_wf (SyncMapReg [(''room'', 0)], ?h)"
    by (rule chans_wfI) (auto split: if_splits)
  from Sweep_exact [OF this *] show ?thesis
    by (auto simp: * syncMap_Lookup_def)
qed

end
