(* ===== verification/Hub_Channel.thy ===== *)
theory Hub_Channel
  imports Registry
begin

text \<open>
  \<open>internal/hub/channel.go\<close>: joining, leaving and broadcasting on one channel. Every function runs
  under the channel's \<open>SubsMu\<close>, so it is one step on the list of channels, except that
  \<open>Broadcast\<close> sends after releasing the lock: the list it sends to is the snapshot.
  \<open>Subscriber.Send\<close> is an interface method and so an argument of \<open>Broadcast\<close>.
\<close>

datatype sub_error = ErrTooManySubs | ErrChannelDeleted

definition hub_Subscribe :: "chref \<Rightarrow> cid \<Rightarrow> nat \<Rightarrow> channel list \<Rightarrow> sub_error option \<times> channel list" where
  "hub_Subscribe c s lim heap = (let ch = heap ! c in
     if Deleted ch then (Some ErrChannelDeleted, heap)
     else if length (Subscribers ch) \<ge> lim then (Some ErrTooManySubs, heap)
     else (None, heap[c := ch\<lparr>Subscribers := set_add s (Subscribers ch)\<rparr>]))"

definition hub_Unsubscribe :: "chref \<Rightarrow> cid \<Rightarrow> channel list \<Rightarrow> channel list" where
  "hub_Unsubscribe c s heap = heap[c := (heap ! c)\<lparr>Subscribers := set_del s (Subscribers (heap ! c))\<rparr>]"

definition hub_Broadcast :: "(cid \<Rightarrow> bytes \<Rightarrow> 'w \<Rightarrow> 'w) \<Rightarrow> channel list \<Rightarrow> chref \<Rightarrow> bytes \<Rightarrow> 'w \<Rightarrow> 'w" where
  "hub_Broadcast Send heap c msg w = (let subs = Subscribers (heap ! c) in fold (\<lambda>s. Send s msg) subs w)"

definition SubscriberCount :: "chref \<Rightarrow> channel list \<Rightarrow> nat" where
  "SubscriberCount c heap = length (Subscribers (heap ! c))"

lemmas hub_channel_defs = hub_Subscribe_def hub_Unsubscribe_def SubscriberCount_def

subsection \<open>Joining and leaving keep the registry well formed\<close>

lemma chans_wf_set_subs:
  assumes wf: "chans_wf (r, h)" and d: "distinct ss"
    and reg: "c < length h \<Longrightarrow> ss \<noteq> [] \<Longrightarrow> reg_abs r (Name (h ! c)) = Some c"
  shows "chans_wf (r, h[c := (h ! c)\<lparr>Subscribers := ss\<rparr>])"
proof (cases "c < length h")
  case True
  let ?h = "h[c := (h ! c)\<lparr>Subscribers := ss\<rparr>]"
  have nth: "?h ! d = (if d = c then (h ! c)\<lparr>Subscribers := ss\<rparr> else h ! d)" for d
    using True by (simp add: nth_list_update)
  show ?thesis
  proof (rule chans_wfI)
    fix n d assume "reg_abs r n = Some d"
    from chans_wf_registered [OF wf this] show "d < length ?h \<and> Name (?h ! d) = n \<and> \<not> Deleted (?h ! d)"
      by (auto simp: nth)
  next
    fix e assume e: "e < length ?h"
    then show "distinct (Subscribers (?h ! e))" using chans_wf_distinct [OF wf, of e] d by (auto simp: nth)
    assume "Subscribers (?h ! e) \<noteq> []"
    with e reg [OF True] show "reg_abs r (Name (?h ! e)) = Some e"
      using chans_wf_subscribed [OF wf, of e] by (auto simp: nth split: if_splits)
  qed (use wf chans_wf_ok in blast)
qed (use wf in \<open>simp add: list_update_beyond not_less\<close>)

lemma Subscribe_wf:
  assumes "chans_wf (r, h)" "reg_abs r (Name (h ! c)) = Some c"
  shows "chans_wf (r, snd (hub_Subscribe c s lim h))"
  using assms chans_wf_registered [OF assms]
  by (auto simp: hub_Subscribe_def Let_def intro!: chans_wf_set_subs dest: chans_wf_distinct)

lemma Unsubscribe_wf: "chans_wf (r, h) \<Longrightarrow> chans_wf (r, hub_Unsubscribe c s h)"
proof (cases "c < length h")
  case True
  assume wf: "chans_wf (r, h)"
  show ?thesis unfolding hub_Unsubscribe_def
  proof (rule chans_wf_set_subs [OF wf])
    show "distinct (set_del s (Subscribers (h ! c)))" using chans_wf_distinct [OF wf True] by simp
    assume "set_del s (Subscribers (h ! c)) \<noteq> []"
    then have "Subscribers (h ! c) \<noteq> []" by auto
    with chans_wf_subscribed [OF wf True] show "reg_abs r (Name (h ! c)) = Some c" .
  qed
qed (simp add: hub_Unsubscribe_def list_update_beyond not_less)

lemma Subscribe_length [simp]: "length (snd (hub_Subscribe c s lim h)) = length h"
  by (simp add: hub_Subscribe_def Let_def)

lemma Unsubscribe_length [simp]: "length (hub_Unsubscribe c s h) = length h"
  by (simp add: hub_Unsubscribe_def)

lemma Unsubscribe_nth:
  "c < length h \<Longrightarrow> hub_Unsubscribe c s h ! d =
     (if d = c then (h ! c)\<lparr>Subscribers := set_del s (Subscribers (h ! c))\<rparr> else h ! d)"
  by (simp add: hub_Unsubscribe_def nth_list_update)

lemma Subscribe_cases:
  obtains "Deleted (h ! c)" "hub_Subscribe c s lim h = (Some ErrChannelDeleted, h)"
  | "\<not> Deleted (h ! c)" "lim \<le> length (Subscribers (h ! c))" "hub_Subscribe c s lim h = (Some ErrTooManySubs, h)"
  | "\<not> Deleted (h ! c)" "length (Subscribers (h ! c)) < lim"
    "hub_Subscribe c s lim h = (None, h[c := (h ! c)\<lparr>Subscribers := set_add s (Subscribers (h ! c))\<rparr>])"
  by (cases "Deleted (h ! c)"; cases "lim \<le> length (Subscribers (h ! c))")
     (auto simp: hub_Subscribe_def Let_def)

lemma Subscribe_deleted: "Deleted (h ! c) \<Longrightarrow> hub_Subscribe c s lim h = (Some ErrChannelDeleted, h)"
  by (simp add: hub_Subscribe_def Let_def)

lemma Subscribe_cap:
  "hub_Subscribe c s lim h = (None, h') \<Longrightarrow> c < length h \<Longrightarrow> length (Subscribers (h' ! c)) \<le> lim"
  by (rule Subscribe_cases [of h c s lim]) auto

end
