(* ===== verification/Sweep_Race.thy ===== *)
theory Sweep_Race
  imports Hub_Channel
begin

text \<open>
  The race between a subscribe and the channel garbage collector, at the granularity of the code's
  critical sections. Any number of connections run the retry loop of \<open>handleSubscribe\<close>
  (\<open>conn/handler.go\<close>) and any number of goroutines run \<open>registry.Sweep\<close>; a step of the system is
  one critical section of one of them:

  \<^item> \<open>GetOrCreate\<close> is two steps, the lookup and, on a miss, the store-if-absent;
  \<^item> \<open>hub.Subscribe\<close> and \<open>hub.Unsubscribe\<close> are one step each, under \<open>SubsMu\<close>;
  \<^item> the callback of \<open>Sweep\<close> takes the channel's \<open>SubsMu\<close> and holds it over three steps: the
    subscriber check, \<open>CompareAndDelete\<close>, and setting \<open>Deleted\<close>. Other goroutines run in between,
    except for those that need the same \<open>SubsMu\<close>.

  A sweeper acts on a channel that was registered when \<open>Range\<close> copied it and may have changed since.
  \<open>removals\<close> and \<open>base\<close> are instrumentation: how often a name has been removed so far, and what
  that number was when a connection's current subscribe began.
\<close>

definition maxSubscribeRetries :: nat where
  "maxSubscribeRetries = 3"

datatype sub_pc =
    SIdle
  | STry string nat            \<comment> \<open>before the lookup of attempt \<open>i\<close>\<close>
  | SMiss string nat           \<comment> \<open>the lookup missed\<close>
  | SGot string nat chref      \<comment> \<open>\<open>GetOrCreate\<close> returned\<close>
  | SDone string chref         \<comment> \<open>subscribed; the entry of \<open>c.subs\<close>\<close>
  | SFailed string sub_error

datatype sweep_pc =
    WIdle
  | WHave chref                \<comment> \<open>copied out by \<open>Range\<close>\<close>
  | WLocked chref              \<comment> \<open>\<open>SubsMu\<close> held, no subscribers seen\<close>
  | WRemoved chref             \<comment> \<open>\<open>SubsMu\<close> held, \<open>CompareAndDelete\<close> done\<close>

record race =
  r_reg :: registry
  r_heap :: "channel list"
  subs_pc :: "cid \<Rightarrow> sub_pc"
  sweeps_pc :: "nat \<Rightarrow> sweep_pc"
  removals :: "string \<Rightarrow> nat"
  base :: "cid \<Rightarrow> nat"

fun holds :: "sweep_pc \<Rightarrow> chref \<Rightarrow> bool" where
  "holds (WLocked c) d = (c = d)"
| "holds (WRemoved c) d = (c = d)"
| "holds _ d = False"

definition held :: "race \<Rightarrow> chref \<Rightarrow> bool" where
  "held s c \<longleftrightarrow> (\<exists>w. holds (sweeps_pc s w) c)"

text \<open>What the loop of \<open>handleSubscribe\<close> does with the result of \<open>hub.Subscribe\<close>.\<close>

definition after_subscribe :: "string \<Rightarrow> nat \<Rightarrow> chref \<Rightarrow> sub_error option \<Rightarrow> sub_pc" where
  "after_subscribe n i c e = (case e of
     None \<Rightarrow> SDone n c
   | Some ErrChannelDeleted \<Rightarrow>
       if Suc i < maxSubscribeRetries then STry n (Suc i) else SFailed n ErrChannelDeleted
   | Some ErrTooManySubs \<Rightarrow> SFailed n ErrTooManySubs)"

inductive race_step :: "nat \<Rightarrow> race \<Rightarrow> race \<Rightarrow> bool" for lim where
  begin_sub: "subs_pc s t = SIdle \<Longrightarrow>
    race_step lim s (s\<lparr>subs_pc := (subs_pc s)(t := STry n 0), base := (base s)(t := removals s n)\<rparr>)"
| lookup_hit: "subs_pc s t = STry n i \<Longrightarrow> reg_Lookup (r_reg s) n = Some c \<Longrightarrow>
    race_step lim s (s\<lparr>subs_pc := (subs_pc s)(t := SGot n i c)\<rparr>)"
| lookup_miss: "subs_pc s t = STry n i \<Longrightarrow> reg_Lookup (r_reg s) n = None \<Longrightarrow>
    race_step lim s (s\<lparr>subs_pc := (subs_pc s)(t := SMiss n i)\<rparr>)"
| store: "subs_pc s t = SMiss n i \<Longrightarrow> reg_slow n (r_reg s, r_heap s) = (c, r', h') \<Longrightarrow>
    race_step lim s (s\<lparr>r_reg := r', r_heap := h', subs_pc := (subs_pc s)(t := SGot n i c)\<rparr>)"
| subscribe: "subs_pc s t = SGot n i c \<Longrightarrow> \<not> held s c \<Longrightarrow>
    hub_Subscribe c t lim (r_heap s) = (e, h') \<Longrightarrow>
    race_step lim s (s\<lparr>r_heap := h', subs_pc := (subs_pc s)(t := after_subscribe n i c e)\<rparr>)"
| unsubscribe: "subs_pc s t = SDone n c \<Longrightarrow> \<not> held s c \<Longrightarrow>
    race_step lim s (s\<lparr>r_heap := hub_Unsubscribe c t (r_heap s), subs_pc := (subs_pc s)(t := SIdle)\<rparr>)"
| give_up: "subs_pc s t = SFailed n e \<Longrightarrow>
    race_step lim s (s\<lparr>subs_pc := (subs_pc s)(t := SIdle)\<rparr>)"
| sweep_copy: "sweeps_pc s w = WIdle \<Longrightarrow> reg_Lookup (r_reg s) n = Some c \<Longrightarrow>
    race_step lim s (s\<lparr>sweeps_pc := (sweeps_pc s)(w := WHave c)\<rparr>)"
| sweep_busy: "sweeps_pc s w = WHave c \<Longrightarrow> \<not> held s c \<Longrightarrow> Subscribers (r_heap s ! c) \<noteq> [] \<Longrightarrow>
    race_step lim s (s\<lparr>sweeps_pc := (sweeps_pc s)(w := WIdle)\<rparr>)"
| sweep_lock: "sweeps_pc s w = WHave c \<Longrightarrow> \<not> held s c \<Longrightarrow> Subscribers (r_heap s ! c) = [] \<Longrightarrow>
    race_step lim s (s\<lparr>sweeps_pc := (sweeps_pc s)(w := WLocked c)\<rparr>)"
| sweep_remove: "sweeps_pc s w = WLocked c \<Longrightarrow>
    reg_CompareAndDelete (Name (r_heap s ! c)) c (r_reg s) = (b, r') \<Longrightarrow>
    race_step lim s (s\<lparr>r_reg := r', sweeps_pc := (sweeps_pc s)(w := WRemoved c),
      removals := (if b then (removals s)(Name (r_heap s ! c) := Suc (removals s (Name (r_heap s ! c))))
                   else removals s)\<rparr>)"
| sweep_mark: "sweeps_pc s w = WRemoved c \<Longrightarrow>
    race_step lim s (s\<lparr>r_heap := (r_heap s)[c := (r_heap s ! c)\<lparr>Deleted := True\<rparr>],
      sweeps_pc := (sweeps_pc s)(w := WIdle)\<rparr>)"

definition race_init :: "registry \<Rightarrow> race" where
  "race_init r = \<lparr>r_reg = r, r_heap = [], subs_pc = (\<lambda>_. SIdle), sweeps_pc = (\<lambda>_. WIdle),
     removals = (\<lambda>_. 0), base = (\<lambda>_. 0)\<rparr>"

inductive race_reach :: "nat \<Rightarrow> race \<Rightarrow> bool" for lim where
  start: "r \<in> {SyncMapReg NewSyncMap, ShardedReg NewSharded} \<Longrightarrow> race_reach lim (race_init r)"
| step: "race_reach lim s \<Longrightarrow> race_step lim s s' \<Longrightarrow> race_reach lim s'"

subsection \<open>The invariant\<close>

text \<open>\<open>linked s c\<close>: channel \<open>c\<close> is the registered one of its name.\<close>

abbreviation linked :: "race \<Rightarrow> chref \<Rightarrow> bool" where
  "linked s c \<equiv> reg_abs (r_reg s) (Name (r_heap s ! c)) = Some c"

text \<open>\<open>settled s c\<close>: a channel that is not registered is deleted, or a sweeper is about to say so.\<close>

definition settled :: "race \<Rightarrow> chref \<Rightarrow> bool" where
  "settled s c \<longleftrightarrow> linked s c \<or> Deleted (r_heap s ! c) \<or> (\<exists>w. sweeps_pc s w = WRemoved c)"

lemma settledI:
  "linked s c \<Longrightarrow> settled s c" "Deleted (r_heap s ! c) \<Longrightarrow> settled s c"
  "sweeps_pc s w = WRemoved c \<Longrightarrow> settled s c"
  by (auto simp: settled_def)

lemma settledE:
  assumes "settled s c"
  obtains "linked s c" | "Deleted (r_heap s ! c)" | w where "sweeps_pc s w = WRemoved c"
  using assms by (auto simp: settled_def)

definition sub_inv :: "race \<Rightarrow> cid \<Rightarrow> bool" where
  "sub_inv s t \<longleftrightarrow> (case subs_pc s t of
     SIdle \<Rightarrow> True
   | STry n i \<Rightarrow> base s t + i \<le> removals s n \<and> i < maxSubscribeRetries
   | SMiss n i \<Rightarrow> base s t + i \<le> removals s n \<and> i < maxSubscribeRetries
   | SGot n i c \<Rightarrow> c < length (r_heap s) \<and> Name (r_heap s ! c) = n \<and> settled s c \<and>
       base s t + (if linked s c then i else Suc i) \<le> removals s n \<and> i < maxSubscribeRetries
   | SDone n c \<Rightarrow> c < length (r_heap s) \<and> Name (r_heap s ! c) = n \<and> t \<in> set (Subscribers (r_heap s ! c))
   | SFailed n e \<Rightarrow> e = ErrChannelDeleted \<longrightarrow> base s t + maxSubscribeRetries \<le> removals s n)"

definition sweep_inv :: "race \<Rightarrow> nat \<Rightarrow> bool" where
  "sweep_inv s w \<longleftrightarrow> (case sweeps_pc s w of
     WIdle \<Rightarrow> True
   | WHave c \<Rightarrow> c < length (r_heap s)
   | WLocked c \<Rightarrow> c < length (r_heap s) \<and> Subscribers (r_heap s ! c) = []
   | WRemoved c \<Rightarrow> c < length (r_heap s) \<and> Subscribers (r_heap s ! c) = [] \<and> \<not> linked s c)"

definition race_inv :: "race \<Rightarrow> bool" where
  "race_inv s \<longleftrightarrow> chans_wf (r_reg s, r_heap s) \<and> (\<forall>t. sub_inv s t) \<and> (\<forall>w. sweep_inv s w) \<and>
     (\<forall>w w' c. holds (sweeps_pc s w) c \<and> holds (sweeps_pc s w') c \<longrightarrow> w = w') \<and>
     (\<forall>c < length (r_heap s). \<forall>t \<in> set (Subscribers (r_heap s ! c)). \<exists>n. subs_pc s t = SDone n c)"

lemma race_invI:
  assumes "chans_wf (r_reg s, r_heap s)" "\<And>t. sub_inv s t" "\<And>w. sweep_inv s w"
    and "\<And>w w' c. holds (sweeps_pc s w) c \<Longrightarrow> holds (sweeps_pc s w') c \<Longrightarrow> w = w'"
    and "\<And>c t. c < length (r_heap s) \<Longrightarrow> t \<in> set (Subscribers (r_heap s ! c)) \<Longrightarrow> \<exists>n. subs_pc s t = SDone n c"
  shows "race_inv s"
  using assms unfolding race_inv_def by blast

lemma race_invD:
  assumes "race_inv s"
  shows "chans_wf (r_reg s, r_heap s)" "sub_inv s t" "sweep_inv s w"
    "holds (sweeps_pc s w) c \<Longrightarrow> holds (sweeps_pc s w') c \<Longrightarrow> w = w'"
    "c < length (r_heap s) \<Longrightarrow> t \<in> set (Subscribers (r_heap s ! c)) \<Longrightarrow> \<exists>n. subs_pc s t = SDone n c"
  using assms unfolding race_inv_def by blast+

text \<open>What a step must leave alone for the invariant of the goroutines that did not move.\<close>

lemma sub_inv_frame:
  assumes "sub_inv s t" "subs_pc s' t = subs_pc s t" "base s' t = base s t"
    and "\<And>n. removals s n \<le> removals s' n" "length (r_heap s) \<le> length (r_heap s')"
    and "\<And>c. c < length (r_heap s) \<Longrightarrow> Name (r_heap s' ! c) = Name (r_heap s ! c)"
    and "\<And>c. c < length (r_heap s) \<Longrightarrow> t \<in> set (Subscribers (r_heap s ! c)) \<Longrightarrow> t \<in> set (Subscribers (r_heap s' ! c))"
    and "\<And>c. c < length (r_heap s) \<Longrightarrow> settled s c \<Longrightarrow> settled s' c"
    and "\<And>c. c < length (r_heap s) \<Longrightarrow> linked s c \<Longrightarrow> \<not> linked s' c \<Longrightarrow>
           Suc (removals s (Name (r_heap s ! c))) \<le> removals s' (Name (r_heap s ! c))"
  shows "sub_inv s' t"
proof (cases "subs_pc s t")
  case (STry n i)
  with assms(1-4) show ?thesis by (force simp: sub_inv_def intro: le_trans)
next
  case (SMiss n i)
  with assms(1-4) show ?thesis by (force simp: sub_inv_def intro: le_trans)
next
  case (SGot n i c)
  with assms(1) have c: "c < length (r_heap s)" "Name (r_heap s ! c) = n" "settled s c"
    "base s t + (if linked s c then i else Suc i) \<le> removals s n" "i < maxSubscribeRetries"
    by (auto simp: sub_inv_def)
  have "base s t + (if linked s' c then i else Suc i) \<le> removals s' n"
    using c(4) assms(4) [of n] assms(9) [OF c(1)] c(2) by (auto split: if_splits intro: le_trans)
  with c assms(2,3,5,6,8) SGot show ?thesis by (auto simp: sub_inv_def)
next
  case (SDone n c)
  with assms(1,2,5,6,7) show ?thesis by (auto simp: sub_inv_def)
next
  case (SFailed n e)
  with assms(1-4) show ?thesis by (force simp: sub_inv_def intro: le_trans)
qed (use assms in \<open>simp add: sub_inv_def\<close>)

lemma sweep_inv_frame:
  assumes "sweep_inv s w" "sweeps_pc s' w = sweeps_pc s w" "length (r_heap s) \<le> length (r_heap s')"
    and "\<And>c. holds (sweeps_pc s w) c \<Longrightarrow> c < length (r_heap s) \<Longrightarrow> Subscribers (r_heap s ! c) = [] \<Longrightarrow>
           Subscribers (r_heap s' ! c) = []"
    and "\<And>c. c < length (r_heap s) \<Longrightarrow> \<not> linked s c \<Longrightarrow> \<not> linked s' c"
  shows "sweep_inv s' w"
  using assms by (cases "sweeps_pc s w") (auto simp: sweep_inv_def)

lemma chans_wf_append_fresh: "chans_wf (r, h) \<Longrightarrow> set g \<subseteq> {fresh_channel n} \<Longrightarrow> chans_wf (r, h @ g)"
proof -
  assume wf: "chans_wf (r, h)" and g: "set g \<subseteq> {fresh_channel n}"
  have new: "Subscribers ((h @ g) ! c) = []" if "c < length (h @ g)" "\<not> c < length h" for c
    using that g nth_mem [of "c - length h" g] by (fastforce simp: nth_append)
  show ?thesis
  proof (rule chans_wfI)
    fix m c assume "reg_abs r m = Some c"
    from chans_wf_registered [OF wf this]
    show "c < length (h @ g) \<and> Name ((h @ g) ! c) = m \<and> \<not> Deleted ((h @ g) ! c)" by (simp add: nth_append)
  next
    fix c assume c: "c < length (h @ g)"
    show "distinct (Subscribers ((h @ g) ! c))"
      using new [OF c] chans_wf_distinct [OF wf, of c] by (cases "c < length h") (auto simp: nth_append)
    assume "Subscribers ((h @ g) ! c) \<noteq> []"
    then show "reg_abs r (Name ((h @ g) ! c)) = Some c"
      using new [OF c] chans_wf_subscribed [OF wf, of c] by (cases "c < length h") (auto simp: nth_append)
  qed (rule chans_wf_ok [OF wf])
qed

lemma slow_wf:
  assumes wf: "chans_wf (r, h)" and sl: "reg_slow n (r, h) = (c, r', h')"
  shows "chans_wf (r', h') \<and> reg_abs r' n = Some c \<and> c < length h' \<and> Name (h' ! c) = n \<and>
    (\<exists>g. h' = h @ g \<and> (\<forall>x \<in> set g. Subscribers x = [])) \<and>
    (\<forall>d < length h. reg_abs r' (Name (h ! d)) = Some d \<longleftrightarrow> reg_abs r (Name (h ! d)) = Some d)"
proof (cases "reg_abs r n")
  case None
  then have goc: "reg_GetOrCreate n (r, h) = (c, r', h')"
    using sl rg.get_or_create_eq [of n r h] by (simp add: rg.lookup_abs chans_wf_ok [OF wf])
  obtain r1 where "reg_GetOrCreate n (r, h) = (length h, r1, h @ [fresh_channel n])"
    "reg_abs r1 = (reg_abs r)(n \<mapsto> length h)"
    using rg.goc_miss [OF chans_wf_ok [OF wf] None] by blast
  with goc have "c = length h" "reg_abs r' = (reg_abs r)(n \<mapsto> length h)" by auto
  then have "\<forall>d < length h. reg_abs r' (Name (h ! d)) = Some d \<longleftrightarrow> reg_abs r (Name (h ! d)) = Some d"
    using None by auto
  with GetOrCreate_wf [OF wf goc] show ?thesis by blast
next
  case (Some a)
  from rg.slow_hit [OF chans_wf_ok [OF wf] Some, of h] sl obtain g where
    g: "c = a" "r' = r" "h' = h @ g" "set g \<subseteq> {fresh_channel n}" by auto
  have "\<forall>x \<in> set g. Subscribers x = []" using g(4) by auto
  then show ?thesis
    using g chans_wf_append_fresh [OF wf g(4)] chans_wf_registered [OF wf Some] Some
    by (auto simp: nth_append)
qed

subsection \<open>Every step keeps the invariant\<close>

text \<open>Steps that only move a program counter of a subscriber.\<close>

lemma move_sub_inv:
  assumes inv: "race_inv s" and nd: "\<And>n c. subs_pc s t \<noteq> SDone n c"
    and s': "s' = s\<lparr>subs_pc := (subs_pc s)(t := p), base := (base s)(t := b)\<rparr>"
    and own: "sub_inv s' t"
  shows "race_inv s'"
proof (rule race_invI)
  show "sub_inv s' u" for u
    using own by (cases "u = t") (auto intro: sub_inv_frame [OF race_invD(2) [OF inv]] simp: s' settled_def)
  show "sweep_inv s' w" for w
    by (rule sweep_inv_frame [OF race_invD(3) [OF inv]]) (simp_all add: s')
  show "\<exists>n. subs_pc s' u = SDone n c" if "c < length (r_heap s')" "u \<in> set (Subscribers (r_heap s' ! c))" for c u
  proof -
    from that race_invD(5) [OF inv, of c u] obtain n where "subs_pc s u = SDone n c" by (auto simp: s')
    with nd show ?thesis by (auto simp: s')
  qed
qed (use race_invD(1,4) [OF inv] in \<open>auto simp: s'\<close>)

lemma begin_sub_inv:
  assumes "race_inv s" "subs_pc s t = SIdle"
  shows "race_inv (s\<lparr>subs_pc := (subs_pc s)(t := STry n 0), base := (base s)(t := removals s n)\<rparr>)"
  by (rule move_sub_inv [OF assms(1) _ refl])
     (use assms in \<open>auto simp: sub_inv_def maxSubscribeRetries_def\<close>)

lemma pc_sub_inv:
  assumes inv: "race_inv s" and nd: "\<And>n c. subs_pc s t \<noteq> SDone n c"
    and own: "sub_inv (s\<lparr>subs_pc := (subs_pc s)(t := p)\<rparr>) t"
  shows "race_inv (s\<lparr>subs_pc := (subs_pc s)(t := p)\<rparr>)"
  by (rule move_sub_inv [OF inv nd, where b = "base s t"]) (use own in simp_all)

lemma lookup_hit_inv:
  assumes inv: "race_inv s" and pc: "subs_pc s t = STry n i" and hit: "reg_Lookup (r_reg s) n = Some c"
  shows "race_inv (s\<lparr>subs_pc := (subs_pc s)(t := SGot n i c)\<rparr>)"
proof (rule pc_sub_inv [OF inv])
  note wf = race_invD(1) [OF inv]
  have reg: "reg_abs (r_reg s) n = Some c" using hit by (simp add: rg.lookup_abs chans_wf_ok [OF wf])
  with chans_wf_registered [OF wf this] race_invD(2) [OF inv, of t] pc
  show "sub_inv (s\<lparr>subs_pc := (subs_pc s)(t := SGot n i c)\<rparr>) t"
    by (auto simp: sub_inv_def settled_def)
qed (simp add: pc)

lemma store_inv:
  assumes inv: "race_inv s" and pc: "subs_pc s t = SMiss n i"
    and st: "reg_slow n (r_reg s, r_heap s) = (c, r', h')"
  shows "race_inv (s\<lparr>r_reg := r', r_heap := h', subs_pc := (subs_pc s)(t := SGot n i c)\<rparr>)" (is "race_inv ?s")
proof (rule race_invI)
  note wf = race_invD(1) [OF inv]
  from slow_wf [OF wf st] obtain g where
    w: "chans_wf (r', h')" "reg_abs r' n = Some c" "c < length h'" "Name (h' ! c) = n" and
    g: "h' = r_heap s @ g" "\<forall>x \<in> set g. Subscribers x = []" and
    lk: "\<And>d. d < length (r_heap s) \<Longrightarrow> reg_abs r' (Name (r_heap s ! d)) = Some d \<longleftrightarrow> linked s d"
    by blast
  have nth: "h' ! d = r_heap s ! d" if "d < length (r_heap s)" for d using that g by (simp add: nth_append)
  show "chans_wf (r_reg ?s, r_heap ?s)" using w by simp
  show "sub_inv ?s u" for u
  proof (cases "u = t")
    case True
    then show ?thesis using w race_invD(2) [OF inv, of t] pc by (auto simp: sub_inv_def settled_def)
  next
    case False
    then show ?thesis
      by (intro sub_inv_frame [OF race_invD(2) [OF inv, of u]]) (auto simp: g nth settled_def lk nth_append)
  qed
  show "sweep_inv ?s w" for w
    by (rule sweep_inv_frame [OF race_invD(3) [OF inv]]) (auto simp: g nth_append lk)
  show "\<exists>m. subs_pc ?s u = SDone m d" if "d < length (r_heap ?s)" "u \<in> set (Subscribers (r_heap ?s ! d))" for d u
  proof (cases "d < length (r_heap s)")
    case True
    with that nth race_invD(5) [OF inv, of d u] pc show ?thesis by auto
  next
    case False
    with that g have "h' ! d \<in> set g" by (auto simp: nth_append)
    with that g show ?thesis by auto
  qed
qed (use race_invD(4) [OF inv] in auto)

text \<open>A step that replaces the subscribers of one channel that no sweeper holds.\<close>

lemma set_subs_inv:
  assumes inv: "race_inv s" and c: "c < length (r_heap s)" and nh: "\<not> held s c"
    and s': "s' = s\<lparr>r_heap := (r_heap s)[c := (r_heap s ! c)\<lparr>Subscribers := ss\<rparr>], subs_pc := (subs_pc s)(t := p)\<rparr>"
    and wf: "chans_wf (r_reg s', r_heap s')"
    and others: "\<And>u. u \<noteq> t \<Longrightarrow> u \<in> set ss \<longleftrightarrow> u \<in> set (Subscribers (r_heap s ! c))"
    and own: "sub_inv s' t"
    and mine: "\<And>d. d < length (r_heap s) \<Longrightarrow> t \<in> set (Subscribers (r_heap s' ! d)) \<Longrightarrow> \<exists>n. p = SDone n d"
  shows "race_inv s'"
proof (rule race_invI)
  have nth: "r_heap s' ! d = (if d = c then (r_heap s ! c)\<lparr>Subscribers := ss\<rparr> else r_heap s ! d)" for d
    using c by (simp add: s' nth_list_update)
  have nm: "Name (r_heap s' ! d) = Name (r_heap s ! d)" "Deleted (r_heap s' ! d) = Deleted (r_heap s ! d)" for d
    by (simp_all add: nth)
  show "chans_wf (r_reg s', r_heap s')" by (rule wf)
  show "sub_inv s' u" for u
  proof (cases "u = t")
    case True
    then show ?thesis using own by simp
  next
    case False
    show ?thesis
    proof (rule sub_inv_frame [OF race_invD(2) [OF inv, of u]])
      fix d assume "u \<in> set (Subscribers (r_heap s ! d))"
      with others [OF False] show "u \<in> set (Subscribers (r_heap s' ! d))" by (auto simp: nth)
    qed (use False in \<open>simp_all add: nm settled_def\<close>, simp_all add: s')
  qed
  show "sweep_inv s' w" for w
  proof (rule sweep_inv_frame [OF race_invD(3) [OF inv]])
    fix d assume "holds (sweeps_pc s w) d" "Subscribers (r_heap s ! d) = []"
    moreover from this nh have "d \<noteq> c" by (auto simp: held_def)
    ultimately show "Subscribers (r_heap s' ! d) = []" by (simp add: nth)
  next
    fix d assume "\<not> linked s d"
    then show "\<not> linked s' d" unfolding nm by (simp add: s')
  qed (simp_all add: s')
  show "holds (sweeps_pc s' w) d \<Longrightarrow> holds (sweeps_pc s' w') d \<Longrightarrow> w = w'" for w w' d
    using race_invD(4) [OF inv] by (simp add: s')
  show "\<exists>m. subs_pc s' u = SDone m d" if "d < length (r_heap s')" "u \<in> set (Subscribers (r_heap s' ! d))" for d u
  proof (cases "u = t")
    case True
    with that mine [of d] show ?thesis by (simp add: s')
  next
    case False
    with that others [OF False] have "u \<in> set (Subscribers (r_heap s ! d))" by (auto simp: nth split: if_splits)
    with that race_invD(5) [OF inv, of d u] False show ?thesis by (auto simp: s')
  qed
qed

lemma subscribe_inv:
  assumes inv: "race_inv s" and pc: "subs_pc s t = SGot n i c" and nh: "\<not> held s c"
    and sub: "hub_Subscribe c t lim (r_heap s) = (e, h')"
  shows "race_inv (s\<lparr>r_heap := h', subs_pc := (subs_pc s)(t := after_subscribe n i c e)\<rparr>)"
proof -
  note wf = race_invD(1) [OF inv]
  from race_invD(2) [OF inv, of t] pc have c: "c < length (r_heap s)" "Name (r_heap s ! c) = n" "settled s c"
    "base s t + (if linked s c then i else Suc i) \<le> removals s n" "i < maxSubscribeRetries"
    by (auto simp: sub_inv_def)
  have not_mine: "t \<notin> set (Subscribers (r_heap s ! d))" if "d < length (r_heap s)" for d
    using race_invD(5) [OF inv that, of t] pc by auto
  show ?thesis
  proof (rule Subscribe_cases [of "r_heap s" c t lim])
    assume del: "Deleted (r_heap s ! c)" and "hub_Subscribe c t lim (r_heap s) = (Some ErrChannelDeleted, r_heap s)"
    with sub have e: "e = Some ErrChannelDeleted" "h' = r_heap s" by auto
    have "\<not> linked s c" using del chans_wf_registered [OF wf, of n c] c(2) by auto
    with c have "sub_inv (s\<lparr>subs_pc := (subs_pc s)(t := after_subscribe n i c e)\<rparr>) t"
      by (auto simp: sub_inv_def after_subscribe_def e)
    from pc_sub_inv [OF inv _ this] pc show ?thesis by (simp add: e)
  next
    assume "hub_Subscribe c t lim (r_heap s) = (Some ErrTooManySubs, r_heap s)"
    with sub have e: "e = Some ErrTooManySubs" "h' = r_heap s" by auto
    have "sub_inv (s\<lparr>subs_pc := (subs_pc s)(t := after_subscribe n i c e)\<rparr>) t"
      by (auto simp: sub_inv_def after_subscribe_def e)
    from pc_sub_inv [OF inv _ this] pc show ?thesis by (simp add: e)
  next
    assume nd: "\<not> Deleted (r_heap s ! c)" and
      "hub_Subscribe c t lim (r_heap s) = (None, (r_heap s)[c := (r_heap s ! c)\<lparr>Subscribers := set_add t (Subscribers (r_heap s ! c))\<rparr>])"
    with sub have e: "e = None" "h' = (r_heap s)[c := (r_heap s ! c)\<lparr>Subscribers := set_add t (Subscribers (r_heap s ! c))\<rparr>]"
      by auto
    have "sweeps_pc s w \<noteq> WRemoved c" for w using nh by (metis held_def holds.simps(2))
    with c(3) nd have lk: "linked s c" by (auto simp: settled_def)
    have w: "chans_wf (r_reg s, h')" using Subscribe_wf [OF wf lk, of t lim] sub by simp
    show ?thesis
    proof (rule set_subs_inv [OF inv c(1) nh, where t = t and p = "SDone n c"])
      show "s\<lparr>r_heap := h', subs_pc := (subs_pc s)(t := after_subscribe n i c e)\<rparr> =
        s\<lparr>r_heap := (r_heap s)[c := (r_heap s ! c)\<lparr>Subscribers := set_add t (Subscribers (r_heap s ! c))\<rparr>],
          subs_pc := (subs_pc s)(t := SDone n c)\<rparr>"
        by (simp add: e after_subscribe_def)
    next
      fix d assume "d < length (r_heap s)"
        "t \<in> set (Subscribers (r_heap (s\<lparr>r_heap := h', subs_pc := (subs_pc s)(t := after_subscribe n i c e)\<rparr>) ! d))"
      with not_mine [of d] c(1) show "\<exists>m. SDone n c = SDone m d"
        by (auto simp: e nth_list_update split: if_splits)
    qed (use w c in \<open>auto simp: e sub_inv_def after_subscribe_def\<close>)
  qed
qed

lemma unsubscribe_inv:
  assumes inv: "race_inv s" and pc: "subs_pc s t = SDone n c" and nh: "\<not> held s c"
  shows "race_inv (s\<lparr>r_heap := hub_Unsubscribe c t (r_heap s), subs_pc := (subs_pc s)(t := SIdle)\<rparr>)"
proof -
  from race_invD(2) [OF inv, of t] pc have c: "c < length (r_heap s)" by (simp add: sub_inv_def)
  show ?thesis
  proof (rule set_subs_inv [OF inv c nh, where t = t and p = SIdle and ss = "set_del t (Subscribers (r_heap s ! c))"])
    fix d assume d: "d < length (r_heap s)"
      "t \<in> set (Subscribers (r_heap (s\<lparr>r_heap := hub_Unsubscribe c t (r_heap s), subs_pc := (subs_pc s)(t := SIdle)\<rparr>) ! d))"
    then have "d \<noteq> c" "t \<in> set (Subscribers (r_heap s ! d))"
      using c by (auto simp: hub_Unsubscribe_def nth_list_update split: if_splits)
    with race_invD(5) [OF inv d(1), of t] pc show "\<exists>m. SIdle = SDone m d" by auto
  qed (use Unsubscribe_wf [OF race_invD(1) [OF inv], of c t] in
       \<open>auto simp: hub_Unsubscribe_def sub_inv_def\<close>)
qed

text \<open>Steps of a sweeper. While it holds \<open>SubsMu\<close> nobody else changes the channel's subscribers.\<close>

lemma move_sweep_inv:
  assumes inv: "race_inv s" and s': "s' = s\<lparr>sweeps_pc := (sweeps_pc s)(w := p)\<rparr>"
    and nr: "\<And>c. sweeps_pc s w \<noteq> WRemoved c"
    and own: "sweep_inv s' w" and lock: "\<And>c. holds p c \<Longrightarrow> \<not> held s c"
  shows "race_inv s'"
proof (rule race_invI)
  show "sub_inv s' u" for u
  proof (rule sub_inv_frame [OF race_invD(2) [OF inv]])
    fix c assume "settled s c"
    then show "settled s' c"
    proof (cases rule: settledE)
      case (3 v)
      with nr [of c] have "sweeps_pc s' v = WRemoved c" by (auto simp: s')
      then show ?thesis by (rule settledI)
    qed (simp_all add: settled_def s')
  qed (simp_all add: s')
  show "sweep_inv s' v" for v
    using own by (cases "v = w") (auto intro: sweep_inv_frame [OF race_invD(3) [OF inv]] simp: s')
  show "v = v'" if "holds (sweeps_pc s' v) c" "holds (sweeps_pc s' v') c" for v v' c
    using that race_invD(4) [OF inv, of v c v'] lock [of c] by (auto simp: s' held_def split: if_splits)
qed (use race_invD(1,5) [OF inv] in \<open>auto simp: s'\<close>)

text \<open>The two steps of a sweeper under \<open>SubsMu\<close> keep the registry and its channels well formed.\<close>

lemma cad_wf:
  assumes wf: "chans_wf (r, h)" and c: "Subscribers (h ! c) = []"
    and cad: "reg_CompareAndDelete (Name (h ! c)) c r = (b, r')"
  shows "chans_wf (r', h)" "\<And>m d. reg_abs r' m = Some d \<longleftrightarrow> reg_abs r m = Some d \<and> (d = c \<longrightarrow> m \<noteq> Name (h ! c))"
    and "b = (reg_abs r (Name (h ! c)) = Some c)"
proof -
  let ?n = "Name (h ! c)"
  from rg.cad_ok [OF chans_wf_ok [OF wf], of ?n c] cad
  have r': "reg_ok r'" "b = (reg_abs r ?n = Some c)" "reg_abs r' = (if reg_abs r ?n = Some c then (reg_abs r)(?n := None) else reg_abs r)"
    by auto
  show abs: "reg_abs r' m = Some d \<longleftrightarrow> reg_abs r m = Some d \<and> (d = c \<longrightarrow> m \<noteq> ?n)" for m d
    using r'(3) by auto
  show "b = (reg_abs r ?n = Some c)" by (rule r'(2))
  show "chans_wf (r', h)"
  proof (rule chans_wfI)
    fix m d assume "reg_abs r' m = Some d"
    then show "d < length h \<and> Name (h ! d) = m \<and> \<not> Deleted (h ! d)"
      using chans_wf_registered [OF wf] abs by blast
  next
    fix d assume d: "d < length h"
    then show "distinct (Subscribers (h ! d))" by (rule chans_wf_distinct [OF wf])
    assume "Subscribers (h ! d) \<noteq> []"
    with chans_wf_subscribed [OF wf d] c show "reg_abs r' (Name (h ! d)) = Some d"
      unfolding abs by blast
  qed (rule r'(1))
qed

lemma mark_wf:
  assumes wf: "chans_wf (r, h)" and c: "c < length h" "reg_abs r (Name (h ! c)) \<noteq> Some c"
  shows "chans_wf (r, h[c := (h ! c)\<lparr>Deleted := True\<rparr>])" (is "chans_wf (r, ?h)")
proof -
  have nth: "?h ! d = (if d = c then (h ! c)\<lparr>Deleted := True\<rparr> else h ! d)" for d
    using c by (simp add: nth_list_update)
  have nm: "Name (?h ! d) = Name (h ! d)" "Subscribers (?h ! d) = Subscribers (h ! d)" for d
    unfolding nth by simp_all
  show ?thesis
  proof (rule chans_wfI)
    fix m d assume m: "reg_abs r m = Some d"
    with chans_wf_registered [OF wf m] c have "d \<noteq> c" by auto
    with chans_wf_registered [OF wf m] show "d < length ?h \<and> Name (?h ! d) = m \<and> \<not> Deleted (?h ! d)"
      unfolding nth by simp
  next
    fix d assume "d < length ?h"
    then have d: "d < length h" by simp
    show "distinct (Subscribers (?h ! d))" unfolding nm by (rule chans_wf_distinct [OF wf d])
    show "reg_abs r (Name (?h ! d)) = Some d" if "Subscribers (?h ! d) \<noteq> []"
      using that unfolding nm by (rule chans_wf_subscribed [OF wf d])
  qed (rule chans_wf_ok [OF wf])
qed

lemma sweep_remove_inv:
  assumes inv: "race_inv s" and pc: "sweeps_pc s w = WLocked c"
    and cad: "reg_CompareAndDelete (Name (r_heap s ! c)) c (r_reg s) = (b, r')"
  shows "race_inv (s\<lparr>r_reg := r', sweeps_pc := (sweeps_pc s)(w := WRemoved c),
      removals := (if b then (removals s)(Name (r_heap s ! c) := Suc (removals s (Name (r_heap s ! c))))
                   else removals s)\<rparr>)" (is "race_inv ?s")
proof -
  note wf = race_invD(1) [OF inv]
  let ?n = "Name (r_heap s ! c)"
  from race_invD(3) [OF inv, of w] pc have c: "c < length (r_heap s)" "Subscribers (r_heap s ! c) = []"
    by (simp_all add: sweep_inv_def)
  note C = cad_wf [OF wf c(2) cad]
  note abs = C(2)
  show ?thesis
  proof (rule race_invI)
    show "chans_wf (r_reg ?s, r_heap ?s)" using C(1) by simp
    show "sub_inv ?s u" for u
    proof (rule sub_inv_frame [OF race_invD(2) [OF inv]])
      fix d assume "settled s d"
      then show "settled ?s d"
      proof (cases rule: settledE)
        case 1
        show ?thesis
        proof (cases "d = c")
          case True
          then have "sweeps_pc ?s w = WRemoved d" by simp
          then show ?thesis by (rule settledI)
        next
          case False
          with 1 show ?thesis by (intro settledI(1)) (simp add: abs)
        qed
      next
        case 2
        then show ?thesis by (intro settledI(2)) simp
      next
        case (3 v)
        with pc have "sweeps_pc ?s v = WRemoved d" by auto
        then show ?thesis by (rule settledI)
      qed
    next
      fix d assume "linked s d" "\<not> linked ?s d"
      then have "d = c" by (simp add: abs)
      with \<open>linked s d\<close> C(3) show "Suc (removals s (Name (r_heap s ! d))) \<le> removals ?s (Name (r_heap s ! d))"
        by simp
    qed simp_all
    show "sweep_inv ?s v" for v
    proof (cases "v = w")
      case True
      then show ?thesis using c by (simp add: sweep_inv_def abs)
    next
      case False
      then show ?thesis by (intro sweep_inv_frame [OF race_invD(3) [OF inv]]) (simp_all add: abs)
    qed
    show "v = v'" if "holds (sweeps_pc ?s v) d" "holds (sweeps_pc ?s v') d" for v v' d
      using that race_invD(4) [OF inv, of v d v'] race_invD(4) [OF inv, of w d] pc by (auto split: if_splits)
  qed (use race_invD(5) [OF inv] in auto)
qed

lemma sweep_mark_inv:
  assumes inv: "race_inv s" and pc: "sweeps_pc s w = WRemoved c"
  shows "race_inv (s\<lparr>r_heap := (r_heap s)[c := (r_heap s ! c)\<lparr>Deleted := True\<rparr>],
      sweeps_pc := (sweeps_pc s)(w := WIdle)\<rparr>)" (is "race_inv ?s")
proof -
  note wf = race_invD(1) [OF inv]
  from race_invD(3) [OF inv, of w] pc have c: "c < length (r_heap s)" "Subscribers (r_heap s ! c) = []" "\<not> linked s c"
    by (simp_all add: sweep_inv_def)
  have nth: "r_heap ?s ! d = (if d = c then (r_heap s ! c)\<lparr>Deleted := True\<rparr> else r_heap s ! d)" for d
    using c by (simp add: nth_list_update)
  have nm: "Name (r_heap ?s ! d) = Name (r_heap s ! d)" "Subscribers (r_heap ?s ! d) = Subscribers (r_heap s ! d)" for d
    unfolding nth by simp_all
  show ?thesis
  proof (rule race_invI)
    show "chans_wf (r_reg ?s, r_heap ?s)" using mark_wf [OF wf c(1,3)] by simp
    show "sub_inv ?s u" for u
    proof (rule sub_inv_frame [OF race_invD(2) [OF inv]])
      fix d assume "settled s d"
      then show "settled ?s d"
      proof (cases rule: settledE)
        case 1
        then show ?thesis by (intro settledI(1), unfold nm) simp
      next
        case 2
        then show ?thesis by (intro settledI(2), unfold nth) simp
      next
        case (3 v)
        show ?thesis
        proof (cases "d = c")
          case True
          then show ?thesis by (intro settledI(2), unfold nth) simp
        next
          case False
          with 3 pc have "sweeps_pc ?s v = WRemoved d" by auto
          then show ?thesis by (rule settledI)
        qed
      qed
    qed (unfold nm, simp_all)
    show "sweep_inv ?s v" for v
    proof (cases "v = w")
      case True
      then show ?thesis by (simp add: sweep_inv_def)
    next
      case False
      then show ?thesis by (intro sweep_inv_frame [OF race_invD(3) [OF inv]]) (unfold nm, simp_all)
    qed
    show "\<exists>n. subs_pc ?s u = SDone n d" if "d < length (r_heap ?s)" "u \<in> set (Subscribers (r_heap ?s ! d))" for d u
      using that race_invD(5) [OF inv, of d u] unfolding nm by simp
    show "v = v'" if "holds (sweeps_pc ?s v) d" "holds (sweeps_pc ?s v') d" for v v' d
      using that race_invD(4) [OF inv, of v d v'] by (auto split: if_splits)
  qed
qed

lemma race_step_inv: "race_step lim s s' \<Longrightarrow> race_inv s \<Longrightarrow> race_inv s'"
proof (induction rule: race_step.induct)
  case (begin_sub s t n)
  then show ?case by (rule begin_sub_inv [rotated])
next
  case (lookup_hit s t n i c)
  then show ?case by (intro lookup_hit_inv)
next
  case (lookup_miss s t n i)
  then show ?case using race_invD(2) [of s t] by (intro pc_sub_inv) (auto simp: sub_inv_def)
next
  case (store s t n i c r' h')
  then show ?case by (intro store_inv)
next
  case (subscribe s t n i c e h')
  then show ?case by (intro subscribe_inv)
next
  case (unsubscribe s t n c)
  then show ?case by (intro unsubscribe_inv)
next
  case (give_up s t n e)
  then show ?case by (intro pc_sub_inv) (auto simp: sub_inv_def)
next
  case (sweep_copy s w n c)
  from race_invD(1) [OF sweep_copy(3)] sweep_copy(2) have "c < length (r_heap s)"
    using chans_wf_registered [of "r_reg s" "r_heap s" n c] by (simp add: rg.lookup_abs chans_wf_ok)
  with sweep_copy show ?case by (intro move_sweep_inv [OF _ refl]) (auto simp: sweep_inv_def)
next
  case (sweep_busy s w c)
  then show ?case by (intro move_sweep_inv [OF _ refl]) (auto simp: sweep_inv_def)
next
  case (sweep_lock s w c)
  with race_invD(3) [OF sweep_lock(4), of w] show ?case
    by (intro move_sweep_inv [OF _ refl]) (auto simp: sweep_inv_def)
next
  case (sweep_remove s w c b r')
  then show ?case by (intro sweep_remove_inv)
next
  case (sweep_mark s w c)
  then show ?case by (intro sweep_mark_inv)
qed

lemma race_init_inv: "r \<in> {SyncMapReg NewSyncMap, ShardedReg NewSharded} \<Longrightarrow> race_inv (race_init r)"
  using chans_wf_init by (intro race_invI) (auto simp: race_init_def sub_inv_def sweep_inv_def)

lemma race_reach_inv: "race_reach lim s \<Longrightarrow> race_inv s"
  by (induction rule: race_reach.induct) (auto intro: race_init_inv race_step_inv)

subsection \<open>Properties\<close>

text \<open>
  C4: No subscriber is ever orphaned. In every state the interleaved subscribes, unsubscribes and
  sweeps can reach, a connection whose subscribe succeeded is a subscriber of a channel that is not
  deleted and is the one the registry returns for the name, so every broadcast on the name reaches
  it; and every subscriber of a channel is such a connection.
\<close>

theorem subscribed_never_orphaned:
  assumes "race_reach lim s"
  shows "(subs_pc s t = SDone n c \<longrightarrow>
            reg_Lookup (r_reg s) n = Some c \<and> t \<in> set (Subscribers (r_heap s ! c)) \<and> \<not> Deleted (r_heap s ! c)) \<and>
         (c < length (r_heap s) \<and> t \<in> set (Subscribers (r_heap s ! c)) \<longrightarrow>
            subs_pc s t = SDone (Name (r_heap s ! c)) c)"
proof -
  note inv = race_reach_inv [OF assms]
  note wf = race_invD(1) [OF inv]
  have sub: "reg_Lookup (r_reg s) n = Some c \<and> t \<in> set (Subscribers (r_heap s ! c)) \<and> \<not> Deleted (r_heap s ! c) \<and>
      n = Name (r_heap s ! c)" if "subs_pc s t = SDone n c" for n
  proof -
    from that race_invD(2) [OF inv, of t] have c: "c < length (r_heap s)" "Name (r_heap s ! c) = n"
      "t \<in> set (Subscribers (r_heap s ! c))" by (simp_all add: sub_inv_def)
    then have "linked s c" using chans_wf_subscribed [OF wf c(1)] by force
    with c chans_wf_registered [OF wf, of n c] show ?thesis
      by (auto simp: rg.lookup_abs chans_wf_ok [OF wf])
  qed
  with race_invD(5) [OF inv, of c t] show ?thesis by blast
qed

text \<open>A run: one connection subscribes to a fresh name on the sharded registry.\<close>

definition race_sub1 :: race where
  "race_sub1 = (let r = ShardedReg NewSharded; n = ''room''; s = race_init r;
      (c, r', h') = reg_slow n (r, []);
      (e, h'') = hub_Subscribe c 7 2 h'
    in s\<lparr>r_reg := r', r_heap := h'', subs_pc := (\<lambda>_. SIdle)(7 := after_subscribe n 0 c e)\<rparr>)"

lemma race_sub1_reach: "race_reach 2 race_sub1"
proof -
  let ?r = "ShardedReg NewSharded" and ?n = "''room''"
  let ?i = "race_init ?r"
  obtain c r' h' where sl: "reg_slow ?n (?r, []) = (c, r', h')" by (cases "reg_slow ?n (?r, [])") auto
  obtain e h'' where su: "hub_Subscribe c 7 2 h' = (e, h'')" by (cases "hub_Subscribe c 7 2 h'") auto
  have miss: "reg_Lookup ?r ?n = None"
    using shardFor_less [of ?n] by (simp add: sharded_Lookup_def NewSharded_def)
  let ?a = "?i\<lparr>subs_pc := (\<lambda>_. SIdle)(7 := STry ?n 0)\<rparr>"
  let ?b = "?i\<lparr>subs_pc := (\<lambda>_. SIdle)(7 := SMiss ?n 0)\<rparr>"
  let ?c = "?i\<lparr>r_reg := r', r_heap := h', subs_pc := (\<lambda>_. SIdle)(7 := SGot ?n 0 c)\<rparr>"
  have "race_reach 2 ?i" by (rule race_reach.start) simp
  moreover have "race_step 2 ?i ?a"
    using race_step.begin_sub [of ?i 7 2 ?n] by (simp add: race_init_def fun_upd_idem)
  ultimately have "race_reach 2 ?a" by (rule race_reach.step)
  moreover have "race_step 2 ?a ?b"
    using race_step.lookup_miss [of ?a 7 ?n 0 2] miss by (simp add: race_init_def)
  ultimately have "race_reach 2 ?b" by (rule race_reach.step)
  moreover have "race_step 2 ?b ?c"
    using race_step.store [of ?b 7 ?n 0 c r' h' 2] sl by (simp add: race_init_def)
  ultimately have "race_reach 2 ?c" by (rule race_reach.step)
  moreover have "race_step 2 ?c race_sub1"
    using race_step.subscribe [of ?c 7 ?n 0 c 2 e h''] sl su
    by (simp add: race_init_def race_sub1_def held_def)
  ultimately show ?thesis by (rule race_reach.step)
qed

lemma race_sub1_done: "subs_pc race_sub1 7 = SDone ''room'' 0"
proof -
  have "reg_abs (ShardedReg NewSharded) ''room'' = None"
    using shardFor_less [of "''room''"] by (simp add: sharded_abs_def NewSharded_def)
  then obtain r' where "reg_slow ''room'' (ShardedReg NewSharded, []) = (0, r', [fresh_channel ''room''])"
    using rg.slow_miss [of "ShardedReg NewSharded" "''room''" "[]"] NewSharded_ok by auto
  then show ?thesis unfolding race_sub1_def Let_def
    by (simp del: reg_slow.simps add: hub_Subscribe_def after_subscribe_def)
qed

theorem subscribed_never_orphaned_witness:
  "reg_Lookup (r_reg race_sub1) ''room'' = Some 0 \<and> 7 \<in> set (Subscribers (r_heap race_sub1 ! 0)) \<and>
   \<not> Deleted (r_heap race_sub1 ! 0)"
  using subscribed_never_orphaned [OF race_sub1_reach, of 7 "''room''" 0] race_sub1_done by simp

text \<open>
  The registry never hands out a deleted channel, and a subscribe gives up with
  \<open>ErrChannelDeleted\<close> (the \<open>SUBSCRIBE_FAILED\<close> error) only if the collector removed a channel of that
  very name at least \<open>maxSubscribeRetries\<close> times since the subscribe began: each failed attempt costs
  the collector one removal.
\<close>

theorem retries_cost_removals:
  assumes "race_reach lim s"
  shows "(reg_Lookup (r_reg s) n = Some c \<longrightarrow> Name (r_heap s ! c) = n \<and> \<not> Deleted (r_heap s ! c)) \<and>
         (subs_pc s t = SFailed n ErrChannelDeleted \<longrightarrow> removals s n \<ge> base s t + maxSubscribeRetries) \<and>
         (subs_pc s t = STry n i \<longrightarrow> i < maxSubscribeRetries)"
proof -
  note inv = race_reach_inv [OF assms]
  note wf = race_invD(1) [OF inv]
  from chans_wf_registered [OF wf, of n c] race_invD(2) [OF inv, of t] show ?thesis
    by (auto simp: sub_inv_def rg.lookup_abs chans_wf_ok [OF wf])
qed

theorem retries_cost_removals_witness:
  "Name (r_heap race_sub1 ! 0) = ''room'' \<and> \<not> Deleted (r_heap race_sub1 ! 0)"
proof -
  note inv = race_reach_inv [OF race_sub1_reach]
  from race_invD(2) [OF inv, of 7] have "r_heap race_sub1 \<noteq> []" "Name (r_heap race_sub1 ! 0) = ''room''"
    "7 \<in> set (Subscribers (r_heap race_sub1 ! 0))" by (auto simp: sub_inv_def race_sub1_done)
  then have "reg_abs (r_reg race_sub1) ''room'' = Some 0"
    using chans_wf_subscribed [OF race_invD(1) [OF inv], of 0] by force
  then have "reg_Lookup (r_reg race_sub1) ''room'' = Some 0"
    by (simp add: rg.lookup_abs chans_wf_ok [OF race_invD(1) [OF inv]])
  with retries_cost_removals [OF race_sub1_reach, of "''room''" 0 7 0] show ?thesis by simp
qed

end
