(* ===== verification/Policy.thy ===== *)
theory Policy
  imports Prelude
begin

text \<open>
  \<open>internal/conn/policy.go\<close>: what \<open>Conn.Send\<close> does when a connection's send buffer is full.

  \<open>PolicyDropOldest\<close> is three non-blocking steps on the channel, and other goroutines (the writer
  that receives, \<open>sendAck\<close> and \<open>sendError\<close> that send without the lock) may run between them: the
  two functions it takes are what they do to the buffer in the two gaps. \<open>onSent\<close> is \<open>nil\<close> at
  every call in the program; it is modelled as the callback it is.
\<close>

datatype send_error = ErrSlowConsumer

datatype policy = PolicyDisconnect | PolicyDropOldest | PolicyDropNewest

definition PolicyDisconnect_Apply ::
  "nat \<Rightarrow> bytes list \<Rightarrow> bytes \<Rightarrow> ('w \<Rightarrow> 'w) option \<Rightarrow> 'w \<Rightarrow> send_error option \<times> bytes list \<times> 'w" where
  "PolicyDisconnect_Apply cap send msg onSent w =
    (case try_send cap send msg of
       (send', True) \<Rightarrow> (None, send', (case onSent of Some f \<Rightarrow> f w | None \<Rightarrow> w))
     | (send', False) \<Rightarrow> (Some ErrSlowConsumer, send', w))"

definition PolicyDropOldest_Apply ::
  "nat \<Rightarrow> (bytes list \<Rightarrow> bytes list) \<Rightarrow> (bytes list \<Rightarrow> bytes list) \<Rightarrow> bytes list \<Rightarrow> bytes \<Rightarrow> send_error option \<times> bytes list" where
  "PolicyDropOldest_Apply cap gap1 gap2 send msg =
    (case try_send cap send msg of
       (send', True) \<Rightarrow> (None, send')
     | (send', False) \<Rightarrow>
        let evicted = tl (gap1 send');
            (send'', _) = try_send cap (gap2 evicted) msg
        in (None, send''))"

definition PolicyDropNewest_Apply :: "nat \<Rightarrow> bytes list \<Rightarrow> bytes \<Rightarrow> send_error option \<times> bytes list" where
  "PolicyDropNewest_Apply cap send msg =
    (case try_send cap send msg of
       (send', True) \<Rightarrow> (None, send')
     | (send', False) \<Rightarrow> (None, send'))"

text \<open>The interface call of \<open>Conn.Send\<close>, with no callback.\<close>

fun policy_Apply ::
  "policy \<Rightarrow> nat \<Rightarrow> (bytes list \<Rightarrow> bytes list) \<Rightarrow> (bytes list \<Rightarrow> bytes list) \<Rightarrow> bytes list \<Rightarrow> bytes \<Rightarrow> send_error option \<times> bytes list" where
  "policy_Apply PolicyDisconnect cap g1 g2 send msg =
    (case PolicyDisconnect_Apply cap send msg None () of (e, send', _) \<Rightarrow> (e, send'))"
| "policy_Apply PolicyDropOldest cap g1 g2 send msg = PolicyDropOldest_Apply cap g1 g2 send msg"
| "policy_Apply PolicyDropNewest cap g1 g2 send msg = PolicyDropNewest_Apply cap send msg"

lemmas policy_defs = PolicyDisconnect_Apply_def PolicyDropOldest_Apply_def PolicyDropNewest_Apply_def

subsection \<open>The contract of a policy\<close>

text \<open>
  What \<open>Conn.Send\<close> and its callers rely on, whichever policy is configured: the buffer never grows
  past its capacity, an error is only reported when the buffer was full and then changes nothing, and
  a message that finds room is queued behind the others.
\<close>

locale policy_spec =
  fixes apply_msg :: "nat \<Rightarrow> (bytes list \<Rightarrow> bytes list) \<Rightarrow> (bytes list \<Rightarrow> bytes list) \<Rightarrow> bytes list \<Rightarrow> bytes \<Rightarrow> send_error option \<times> bytes list"
  assumes bounded: "length q \<le> cap \<Longrightarrow> (\<And>x. length x \<le> cap \<Longrightarrow> length (g1 x) \<le> cap \<and> length (g2 x) \<le> cap) \<Longrightarrow>
      length (snd (apply_msg cap g1 g2 q m)) \<le> cap"
    and room: "length q < cap \<Longrightarrow> apply_msg cap g1 g2 q m = (None, q @ [m])"
    and error_full: "fst (apply_msg cap g1 g2 q m) \<noteq> None \<Longrightarrow> cap \<le> length q \<and> snd (apply_msg cap g1 g2 q m) = q"
begin

text \<open>A burst that fits is delivered whole and in order.\<close>

lemma burst_queued:
  "length q + length ms \<le> cap \<Longrightarrow> fold (\<lambda>m q. snd (apply_msg cap g1 g2 q m)) ms q = q @ ms"
  by (induction ms arbitrary: q) (auto simp: room)

lemma burst_bounded:
  assumes "\<And>x. length x \<le> cap \<Longrightarrow> length (g1 x) \<le> cap \<and> length (g2 x) \<le> cap"
  shows "length q \<le> cap \<Longrightarrow> length (fold (\<lambda>m q. snd (apply_msg cap g1 g2 q m)) ms q) \<le> cap"
  by (induction ms arbitrary: q) (auto intro!: bounded assms)

end

interpretation pol: policy_spec "policy_Apply p" for p
proof (unfold_locales, goal_cases)
  case (1 q cap g1 g2 m)
  have "length (tl (g1 q)) \<le> cap" using 1(2) [OF 1(1)] by auto
  then have "length (g2 (tl (g1 q))) \<le> cap" using 1(2) by blast
  then show ?case using 1(1)
    by (cases p) (auto simp: policy_defs try_send_def Let_def)
next
  case (2 q cap g1 g2 m)
  then show ?case by (cases p) (auto simp: policy_defs try_send_def)
next
  case (3 cap g1 g2 q m)
  then show ?case by (cases p) (auto simp: policy_defs try_send_def Let_def split: if_splits)
qed

lemma policy_error_iff:
  "fst (policy_Apply p cap g1 g2 q m) = Some ErrSlowConsumer \<longleftrightarrow> p = PolicyDisconnect \<and> cap \<le> length q"
  by (cases p) (auto simp: policy_defs try_send_def Let_def)

text \<open>One message, when nothing runs in the gaps.\<close>

definition keeps :: "bool \<Rightarrow> nat \<Rightarrow> 'a list \<Rightarrow> 'a \<Rightarrow> 'a list" where
  "keeps newest cap q m = (if length q < cap then q @ [m] else if newest then tl q @ [m] else q)"

lemma policy_step:
  "0 < cap \<Longrightarrow> length q \<le> cap \<Longrightarrow> snd (policy_Apply p cap id id q m) = keeps (p = PolicyDropOldest) cap q m"
  by (cases p) (auto simp: keeps_def policy_defs try_send_def)

lemma keeps_fold:
  assumes "0 < cap" "length q \<le> cap"
  shows "fold (\<lambda>m q. keeps newest cap q m) ms q =
    (if newest then drop (length q + length ms - cap) (q @ ms) else take cap (q @ ms))"
  using assms
proof (induction ms arbitrary: q)
  case (Cons m ms)
  show ?case
  proof (cases "length q < cap")
    case True
    with Cons.IH [of "q @ [m]"] Cons.prems show ?thesis by (simp add: keeps_def)
  next
    case False
    with Cons.prems have full: "length q = cap" by simp
    then obtain x q' where q: "q = x # q'" using Cons.prems(1) by (cases q) auto
    show ?thesis
      using Cons.IH [of "tl q @ [m]"] Cons.IH [of q] Cons.prems full by (auto simp: keeps_def q)
  qed
qed simp

lemma policy_fold:
  assumes "0 < cap" "length q \<le> cap"
  shows "fold (\<lambda>m q. snd (policy_Apply p cap id id q m)) ms q = fold (\<lambda>m q. keeps (p = PolicyDropOldest) cap q m) ms q"
  using assms
proof (induction ms arbitrary: q)
  case (Cons m ms)
  have "length (snd (policy_Apply p cap id id q m)) \<le> cap" using Cons.prems(2) by (intro pol.bounded) auto
  moreover have "snd (policy_Apply p cap id id q m) = keeps (p = PolicyDropOldest) cap q m"
    by (rule policy_step [OF Cons.prems])
  ultimately show ?case using Cons.IH Cons.prems(1) by (simp only: fold_Cons comp_def)
qed simp

text \<open>
  C31: What a burst leaves in the buffer, for every policy. With no other goroutine in the gaps,
  \<open>PolicyDropOldest\<close> keeps the newest messages that fit, in order; the other two keep the
  oldest. So no policy reorders or duplicates, and the buffer always holds as much as fits.
\<close>

theorem policy_burst:
  assumes "0 < cap" "length q \<le> cap"
  shows "fold (\<lambda>m q. snd (policy_Apply p cap id id q m)) ms q =
    (if p = PolicyDropOldest then drop (length q + length ms - cap) (q @ ms) else take cap (q @ ms))"
  using policy_fold [OF assms] keeps_fold [OF assms] by simp

theorem policy_burst_witness:
  "fold (\<lambda>m q. snd (policy_Apply PolicyDropOldest 2 id id q m)) [''b'', ''c''] [''a''] = [''b'', ''c''] \<and>
   fold (\<lambda>m q. snd (policy_Apply PolicyDropNewest 2 id id q m)) [''b'', ''c''] [''a''] = [''a'', ''b'']"
  using policy_burst [of 2 "[''a'']" PolicyDropOldest "[''b'', ''c'']"]
    policy_burst [of 2 "[''a'']" PolicyDropNewest "[''b'', ''c'']"]
  by simp

end
