(* ===== verification/Ratelimit.thy ===== *)
theory Ratelimit
  imports Prelude
begin

text \<open>
  \<open>internal/ratelimit/limiter.go\<close>: one token bucket per key, and the eviction of idle entries.

  The bucket itself is \<open>golang.org/x/time/rate\<close>, which is not part of the repository: \<open>rate_ops\<close>
  holds its two operations as functions, and everything here is an argument over them. What the
  eviction relies on is a hypothesis of the theorem that needs it: a bucket left alone long enough
  is full again, so it answers as a new one does.
\<close>

record 'l rate_ops =
  NewLimiter :: "int \<Rightarrow> int \<Rightarrow> 'l"
  rate_Allow :: "int \<Rightarrow> 'l \<Rightarrow> bool \<times> 'l"

record 'l entry =
  lim :: 'l
  lastSeen :: int

record 'l limiter =
  entries :: "(string, 'l entry) gomap"
  rps :: int
  burst :: int
  ttl :: int

definition Limiter_New :: "int \<Rightarrow> int \<Rightarrow> int \<Rightarrow> 'l limiter" where
  "Limiter_New r b t = \<lparr>entries = [], rps = r, burst = b, ttl = t\<rparr>"

text \<open>
  \<open>now\<close> is the reading under the lock, \<open>now'\<close> the one \<open>rate.Limiter.Allow\<close> takes after it. The
  entry is a pointer, so the bucket it holds is the one \<open>Allow\<close> changes.
\<close>

definition Limiter_Allow :: "'l rate_ops \<Rightarrow> int \<Rightarrow> int \<Rightarrow> string \<Rightarrow> 'l limiter \<Rightarrow> bool \<times> 'l limiter" where
  "Limiter_Allow ops now now' key l =
    (let e = (case gm_get (entries l) key of
                Some e \<Rightarrow> e
              | None \<Rightarrow> \<lparr>lim = NewLimiter ops (rps l) (burst l), lastSeen = 0\<rparr>);
         (ok, b) = rate_Allow ops now' (lim e)
     in (ok, l\<lparr>entries := gm_put key \<lparr>lim = b, lastSeen = now\<rparr> (entries l)\<rparr>))"

definition peek :: "string \<Rightarrow> 'l limiter \<Rightarrow> 'l entry option" where
  "peek key l = gm_get (entries l) key"

definition gcOnce :: "int \<Rightarrow> 'l limiter \<Rightarrow> 'l limiter" where
  "gcOnce now l = (let cutoff = now - ttl l in
     l\<lparr>entries := fold (\<lambda>(k, e) es. if lastSeen e < cutoff then gm_del k es else es) (entries l) (entries l)\<rparr>)"

text \<open>The background loop over what its \<open>select\<close> receives, until \<open>Close\<close> closes \<open>quit\<close>.\<close>

datatype gc_event = GcTick int | GcQuit

fun gcLoop :: "gc_event list \<Rightarrow> 'l limiter \<Rightarrow> 'l limiter" where
  "gcLoop [] l = l"
| "gcLoop (GcTick now # es) l = gcLoop es (gcOnce now l)"
| "gcLoop (GcQuit # es) l = l"

lemma fold_del_get:
  "gm_get (fold (\<lambda>(k, e) es. if P e then gm_del k es else es) xs es) k =
   (if \<exists>e. (k, e) \<in> set xs \<and> P e then None else gm_get es k)"
proof (induction xs arbitrary: es)
  case (Cons x xs)
  obtain j e where x: "x = (j, e)" by (cases x)
  show ?case
    unfolding x fold_Cons comp_def case_prod_conv Cons.IH by (cases "j = k"; cases "P e") auto
qed simp

lemma fold_del_ok: "gm_ok es \<Longrightarrow> gm_ok (fold (\<lambda>(k, e) es. if P e then gm_del k es else es) xs es)"
proof (induction xs arbitrary: es)
  case (Cons x xs)
  show ?case
    unfolding fold_Cons comp_def by (rule Cons.IH) (simp add: Cons.prems gm_ok_del split: prod.split)
qed simp

lemma gcOnce_get:
  assumes "gm_ok (entries l)"
  shows "gm_get (entries (gcOnce now l)) k =
    (case gm_get (entries l) k of
       Some e \<Rightarrow> if lastSeen e < now - ttl l then None else Some e
     | None \<Rightarrow> None)"
proof -
  have "(k, e) \<in> set (entries l) \<longleftrightarrow> gm_get (entries l) k = Some e" for e
    by (rule gm_get_in_set [OF assms])
  then show ?thesis
    by (cases "gm_get (entries l) k") (simp_all add: gcOnce_def Let_def fold_del_get)
qed

lemma gcOnce_ok: "gm_ok (entries l) \<Longrightarrow> gm_ok (entries (gcOnce now l))"
  by (simp add: gcOnce_def Let_def fold_del_ok)

lemma gcOnce_params [simp]: "rps (gcOnce now l) = rps l" "burst (gcOnce now l) = burst l" "ttl (gcOnce now l) = ttl l"
  by (simp_all add: gcOnce_def Let_def)

lemma Allow_params [simp]:
  "rps (snd (Limiter_Allow ops n n' k l)) = rps l" "burst (snd (Limiter_Allow ops n n' k l)) = burst l"
  "ttl (snd (Limiter_Allow ops n n' k l)) = ttl l"
  by (simp_all add: Limiter_Allow_def Let_def split: prod.splits)

lemma Allow_ok: "gm_ok (entries l) \<Longrightarrow> gm_ok (entries (snd (Limiter_Allow ops n n' k l)))"
  by (simp add: Limiter_Allow_def Let_def split: prod.splits)

subsection \<open>A limiter over time\<close>

text \<open>The calls a limiter gets, each with its clock readings, and the answers it gives.\<close>

datatype lim_event = EvAllow string int int | EvGC int

fun lim_run :: "'l rate_ops \<Rightarrow> 'l limiter \<Rightarrow> lim_event list \<Rightarrow> bool list" where
  "lim_run ops l [] = []"
| "lim_run ops l (EvAllow k n n' # evs) =
    (case Limiter_Allow ops n n' k l of (ok, l') \<Rightarrow> ok # lim_run ops l' evs)"
| "lim_run ops l (EvGC n # evs) = lim_run ops (gcOnce n l) evs"

fun is_allow :: "lim_event \<Rightarrow> bool" where
  "is_allow (EvAllow _ _ _) = True"
| "is_allow (EvGC _) = False"

text \<open>Readings never go back, and the second reading of a call is at most \<open>d\<close> after the first.\<close>

fun timed :: "int \<Rightarrow> int \<Rightarrow> lim_event list \<Rightarrow> bool" where
  "timed d t [] = True"
| "timed d t (EvAllow k n n' # evs) = (t \<le> n \<and> n \<le> n' \<and> n' \<le> n + d \<and> timed d n' evs)"
| "timed d t (EvGC n # evs) = (t \<le> n \<and> timed d n evs)"

text \<open>The answers of one bucket to calls at the given times, and its state after them.\<close>

fun bucket_run :: "'l rate_ops \<Rightarrow> 'l \<Rightarrow> int list \<Rightarrow> bool list" where
  "bucket_run ops b [] = []"
| "bucket_run ops b (t # ts) = (case rate_Allow ops t b of (ok, b') \<Rightarrow> ok # bucket_run ops b' ts)"

definition bucket_after :: "'l rate_ops \<Rightarrow> 'l \<Rightarrow> int list \<Rightarrow> 'l" where
  "bucket_after ops b ts = fold (\<lambda>t b. snd (rate_Allow ops t b)) ts b"

text \<open>
  What \<open>x/time/rate\<close> documents: a bucket refills to its burst, so one whose last call was at least
  \<open>full\<close> nanoseconds ago gives the answers of a new one.
\<close>

definition refills :: "'l rate_ops \<Rightarrow> int \<Rightarrow> int \<Rightarrow> int \<Rightarrow> bool" where
  "refills ops r b full \<longleftrightarrow>
    (\<forall>ts us. sorted (ts @ us) \<longrightarrow> (\<forall>t \<in> set ts. \<forall>u \<in> set us. t + full \<le> u) \<longrightarrow>
      bucket_run ops (bucket_after ops (NewLimiter ops r b) ts) us = bucket_run ops (NewLimiter ops r b) us)"

definition bucket_of :: "'l rate_ops \<Rightarrow> 'l limiter \<Rightarrow> string \<Rightarrow> 'l" where
  "bucket_of ops l k = (case gm_get (entries l) k of Some e \<Rightarrow> lim e | None \<Rightarrow> NewLimiter ops (rps l) (burst l))"

text \<open>From time \<open>t\<close> on the two buckets cannot be told apart.\<close>

definition same_from :: "'l rate_ops \<Rightarrow> int \<Rightarrow> 'l \<Rightarrow> 'l \<Rightarrow> bool" where
  "same_from ops t a b \<longleftrightarrow> (\<forall>us. sorted us \<longrightarrow> (\<forall>u \<in> set us. t \<le> u) \<longrightarrow> bucket_run ops a us = bucket_run ops b us)"

lemma same_from_mono: "same_from ops t a b \<Longrightarrow> t \<le> t' \<Longrightarrow> same_from ops t' a b"
  unfolding same_from_def using order_trans by blast

lemma same_from_step:
  assumes "same_from ops t a b" "t \<le> n"
  shows "fst (rate_Allow ops n a) = fst (rate_Allow ops n b)"
    and "same_from ops n (snd (rate_Allow ops n a)) (snd (rate_Allow ops n b))"
proof -
  have run: "bucket_run ops a us = bucket_run ops b us" if "sorted us" "\<forall>u \<in> set us. t \<le> u" for us
    using assms that by (simp add: same_from_def)
  show "fst (rate_Allow ops n a) = fst (rate_Allow ops n b)"
    using run [of "[n]"] assms(2) by (simp split: prod.splits)
  show "same_from ops n (snd (rate_Allow ops n a)) (snd (rate_Allow ops n b))"
    unfolding same_from_def
  proof (intro allI impI)
    fix us assume us: "sorted us" "\<forall>u \<in> set us. n \<le> u"
    then show "bucket_run ops (snd (rate_Allow ops n a)) us = bucket_run ops (snd (rate_Allow ops n b)) us"
      using run [of "n # us"] assms(2) by (force split: prod.splits)
  qed
qed

text \<open>Every entry's bucket is a new one after calls at most \<open>d\<close> after its \<open>lastSeen\<close>.\<close>

definition history_ok :: "'l rate_ops \<Rightarrow> int \<Rightarrow> int \<Rightarrow> 'l limiter \<Rightarrow> bool" where
  "history_ok ops d t l \<longleftrightarrow> gm_ok (entries l) \<and>
    (\<forall>k e. gm_get (entries l) k = Some e \<longrightarrow>
      (\<exists>ts. sorted ts \<and> lim e = bucket_after ops (NewLimiter ops (rps l) (burst l)) ts \<and>
        (\<forall>x \<in> set ts. x \<le> lastSeen e + d \<and> x \<le> t)))"

lemma history_ok_Allow:
  assumes "history_ok ops d t l" "t \<le> n" "n \<le> n'" "n' \<le> n + d"
  shows "history_ok ops d n' (snd (Limiter_Allow ops n n' k l))"
proof -
  let ?new = "NewLimiter ops (rps l) (burst l)"
  let ?b = "bucket_of ops l k"
  obtain ts where ts: "sorted ts" "?b = bucket_after ops ?new ts" "\<forall>x \<in> set ts. x \<le> t"
  proof (cases "gm_get (entries l) k")
    case None
    then have "?b = bucket_after ops ?new []" by (simp add: bucket_of_def bucket_after_def)
    then show thesis using that [of "[]"] by simp
  next
    case (Some e)
    with assms(1) obtain ts where "sorted ts" "lim e = bucket_after ops ?new ts" "\<forall>x \<in> set ts. x \<le> t"
      unfolding history_ok_def by blast
    then show thesis using that [of ts] Some by (simp add: bucket_of_def)
  qed
  have get: "gm_get (entries (snd (Limiter_Allow ops n n' k l))) j =
    (if j = k then Some \<lparr>lim = snd (rate_Allow ops n' ?b), lastSeen = n\<rparr> else gm_get (entries l) j)" for j
    by (simp add: Limiter_Allow_def bucket_of_def Let_def split: prod.splits option.splits)
  have new: "sorted (ts @ [n'])" "snd (rate_Allow ops n' ?b) = bucket_after ops ?new (ts @ [n'])"
    "\<forall>x \<in> set (ts @ [n']). x \<le> n + d \<and> x \<le> n'"
    using ts assms(2-4) by (auto simp: sorted_append bucket_after_def)
  have old: "\<exists>ts. sorted ts \<and> lim e = bucket_after ops ?new ts \<and> (\<forall>x \<in> set ts. x \<le> lastSeen e + d \<and> x \<le> n')"
    if "gm_get (entries l) j = Some e" for j e
  proof -
    from assms(1) that obtain us where "sorted us" "lim e = bucket_after ops ?new us"
      "\<forall>x \<in> set us. x \<le> lastSeen e + d \<and> x \<le> t" unfolding history_ok_def by blast
    moreover have "t \<le> n'" using assms by simp
    ultimately show ?thesis by (intro exI [of _ us]) auto
  qed
  show ?thesis
    unfolding history_ok_def Allow_params get
  proof (intro conjI allI impI)
    show "gm_ok (entries (snd (Limiter_Allow ops n n' k l)))"
      using assms(1) by (simp add: Allow_ok history_ok_def)
    fix j e
    assume "(if j = k then Some \<lparr>lim = snd (rate_Allow ops n' ?b), lastSeen = n\<rparr> else gm_get (entries l) j) = Some e"
    then show "\<exists>ts. sorted ts \<and> lim e = bucket_after ops ?new ts \<and> (\<forall>x \<in> set ts. x \<le> lastSeen e + d \<and> x \<le> n')"
      using old [of j e] new by (cases "j = k") (auto intro!: exI [of _ "ts @ [n']"])
  qed
qed

lemma history_ok_gc:
  assumes "history_ok ops d t l" "t \<le> n"
  shows "history_ok ops d n (gcOnce n l)"
proof -
  have ok: "gm_ok (entries l)" using assms(1) by (simp add: history_ok_def)
  have "\<exists>ts. sorted ts \<and> lim e = bucket_after ops (NewLimiter ops (rps l) (burst l)) ts \<and>
      (\<forall>x \<in> set ts. x \<le> lastSeen e + d \<and> x \<le> n)"
    if "gm_get (entries (gcOnce n l)) j = Some e" for j e
  proof -
    from that have "gm_get (entries l) j = Some e"
      by (auto simp: gcOnce_get [OF ok] split: option.splits if_splits)
    with assms(1) obtain us where "sorted us" "lim e = bucket_after ops (NewLimiter ops (rps l) (burst l)) us"
      "\<forall>x \<in> set us. x \<le> lastSeen e + d \<and> x \<le> t" unfolding history_ok_def by blast
    with assms(2) show ?thesis by (intro exI [of _ us]) auto
  qed
  then show ?thesis using gcOnce_ok [OF ok] by (simp add: history_ok_def)
qed

text \<open>Evicting an entry replaces its bucket by one that cannot be told from it.\<close>

lemma gc_same_from:
  assumes h: "history_ok ops d t l" and r: "refills ops (rps l) (burst l) full" and b: "full + d \<le> ttl l" and "t \<le> n"
  shows "same_from ops n (bucket_of ops (gcOnce n l) k) (bucket_of ops l k)"
proof (cases "gm_get (entries l) k")
  case None
  with h show ?thesis by (simp add: bucket_of_def gcOnce_get history_ok_def same_from_def)
next
  case (Some e)
  have ok: "gm_ok (entries l)" using h by (simp add: history_ok_def)
  show ?thesis
  proof (cases "lastSeen e < n - ttl l")
    case False
    with Some show ?thesis by (simp add: bucket_of_def gcOnce_get [OF ok] same_from_def)
  next
    case True
    from h Some obtain ts where ts: "sorted ts" "lim e = bucket_after ops (NewLimiter ops (rps l) (burst l)) ts"
      "\<forall>x \<in> set ts. x \<le> lastSeen e + d \<and> x \<le> t" unfolding history_ok_def by blast
    have "bucket_run ops (lim e) us = bucket_run ops (NewLimiter ops (rps l) (burst l)) us"
      if us: "sorted us" "\<forall>u \<in> set us. n \<le> u" for us
    proof -
      have "x + full \<le> u \<and> x \<le> u" if "x \<in> set ts" "u \<in> set us" for x u
      proof -
        have "x \<le> lastSeen e + d" "x \<le> t" "n \<le> u" using ts(3) us(2) that by auto
        then show ?thesis using True b \<open>t \<le> n\<close> by linarith
      qed
      then have "\<forall>x \<in> set ts. \<forall>u \<in> set us. x + full \<le> u" "sorted (ts @ us)"
        using ts us by (simp_all add: sorted_append)
      then show ?thesis using r ts(2) by (simp add: refills_def)
    qed
    then show ?thesis using Some True by (simp add: bucket_of_def gcOnce_get [OF ok] same_from_def)
  qed
qed

lemma Allow_bucket:
  "fst (Limiter_Allow ops n n' k l) = fst (rate_Allow ops n' (bucket_of ops l k))"
  "bucket_of ops (snd (Limiter_Allow ops n n' k l)) j =
    (if j = k then snd (rate_Allow ops n' (bucket_of ops l k)) else bucket_of ops l j)"
  by (auto simp: Limiter_Allow_def bucket_of_def Let_def split: prod.splits option.splits)

lemma same_from_trans: "same_from ops t a b \<Longrightarrow> same_from ops t b c \<Longrightarrow> same_from ops t a c"
  by (simp add: same_from_def)

lemma eviction_simulation:
  assumes "refills ops r b full" "full + d \<le> tt"
    "rps l = r" "burst l = b" "ttl l = tt" "rps m = r" "burst m = b"
    "history_ok ops d t l" "\<forall>k. same_from ops t (bucket_of ops l k) (bucket_of ops m k)" "timed d t evs"
  shows "lim_run ops l evs = lim_run ops m (filter is_allow evs)"
  using assms(3-)
proof (induction evs arbitrary: l m t)
  case (Cons ev evs)
  show ?case
  proof (cases ev)
    case (EvAllow k n n')
    with Cons.prems have tm: "t \<le> n" "n \<le> n'" "n' \<le> n + d" "timed d n' evs" by auto
    let ?l = "snd (Limiter_Allow ops n n' k l)" and ?m = "snd (Limiter_Allow ops n n' k m)"
    have "t \<le> n'" using tm by simp
    then have same: "fst (Limiter_Allow ops n n' k l) = fst (Limiter_Allow ops n n' k m)"
      "\<forall>j. same_from ops n' (bucket_of ops ?l j) (bucket_of ops ?m j)"
      using Cons.prems(7) same_from_step [of ops t "bucket_of ops l k" "bucket_of ops m k" n']
      by (auto simp: Allow_bucket intro: same_from_mono)
    have "lim_run ops ?l evs = lim_run ops ?m (filter is_allow evs)"
      using Cons.prems history_ok_Allow [OF Cons.prems(6) tm(1-3)] tm same(2)
      by (intro Cons.IH [where t = n']) auto
    with same(1) show ?thesis by (simp add: EvAllow split_beta)
  next
    case (EvGC n)
    with Cons.prems have tm: "t \<le> n" "timed d n evs" by auto
    have "refills ops (rps l) (burst l) full" "full + d \<le> ttl l" using assms(1,2) Cons.prems by auto
    then have "same_from ops n (bucket_of ops (gcOnce n l) k) (bucket_of ops m k)" for k
      by (rule same_from_trans [OF gc_same_from [OF Cons.prems(6) _ _ tm(1)] same_from_mono [OF Cons.prems(7) [rule_format] tm(1)]])
    then have "lim_run ops (gcOnce n l) evs = lim_run ops m (filter is_allow evs)"
      using Cons.prems history_ok_gc [OF Cons.prems(6) tm(1)] tm by (intro Cons.IH [where t = n]) auto
    then show ?thesis by (simp add: EvGC)
  qed
qed simp

text \<open>
  C38: Evicting idle keys never changes an answer. Over any sequence of \<open>Allow\<close> calls and eviction
  passes in time order, the limiter answers every \<open>Allow\<close> exactly as it would with no eviction at
  all, provided its \<open>ttl\<close> covers the time a bucket takes to refill (plus the delay \<open>d\<close> between the
  two clock readings of a call). The hypothesis on the bucket is the documented refill of
  \<open>x/time/rate\<close>.
\<close>

theorem eviction_invisible:
  assumes "refills ops r b full" "full + d \<le> t" "timed d t0 evs"
  shows "lim_run ops (Limiter_New r b t) evs = lim_run ops (Limiter_New r b t) (filter is_allow evs)"
  by (rule eviction_simulation [OF assms(1,2) _ _ _ _ _ _ _ assms(3)])
     (auto simp: Limiter_New_def history_ok_def same_from_def)

text \<open>
  A token bucket for the theorem's hypothesis: its level is kept in token-nanoseconds, and it is
  refilled by the time since its last call.
\<close>

definition tb_ops :: "(int \<times> int \<times> int \<times> int option) rate_ops" where
  "tb_ops = \<lparr>NewLimiter = (\<lambda>r b. (r, b, b * 1000000000, None)),
     rate_Allow = (\<lambda>now (r, b, level, last).
       let lvl = (case last of None \<Rightarrow> level | Some l \<Rightarrow> min (b * 1000000000) (level + (now - l) * r)) in
       if 1000000000 \<le> lvl then (True, r, b, lvl - 1000000000, Some now) else (False, r, b, lvl, Some now))\<rparr>"

lemma tb_after:
  assumes "ts \<noteq> []" "sorted ts"
  shows "\<exists>level. 0 \<le> level \<and> bucket_after tb_ops (NewLimiter tb_ops 100 200) ts = (100, 200, level, Some (last ts))"
  using assms
proof (induction ts rule: rev_induct)
  case (snoc t ts)
  show ?case
  proof (cases "ts = []")
    case True
    then show ?thesis by (simp add: bucket_after_def tb_ops_def Let_def)
  next
    case False
    with snoc obtain level where "0 \<le> level"
      "bucket_after tb_ops (NewLimiter tb_ops 100 200) ts = (100, 200, level, Some (last ts))"
      by (auto simp: sorted_append)
    moreover have "last ts \<le> t" using False snoc.prems(2) by (simp add: sorted_append)
    ultimately show ?thesis by (auto simp: bucket_after_def tb_ops_def Let_def)
  qed
qed simp

lemma tb_refills: "refills tb_ops 100 200 2000000000"
  unfolding refills_def
proof (intro allI impI)
  fix ts us :: "int list"
  assume s: "sorted (ts @ us)" and gap: "\<forall>t \<in> set ts. \<forall>u \<in> set us. t + 2000000000 \<le> u"
  show "bucket_run tb_ops (bucket_after tb_ops (NewLimiter tb_ops 100 200) ts) us =
    bucket_run tb_ops (NewLimiter tb_ops 100 200) us"
  proof (cases "ts = [] \<or> us = []")
    case True
    then show ?thesis by (auto simp: bucket_after_def)
  next
    case False
    then obtain u us' where us: "us = u # us'" by (cases us) auto
    obtain level where lv: "0 \<le> level" "bucket_after tb_ops (NewLimiter tb_ops 100 200) ts = (100, 200, level, Some (last ts))"
      using tb_after [of ts] False s by (auto simp: sorted_append)
    have "last ts + 2000000000 \<le> u" using gap False us by simp
    then have "min 200000000000 (level + (u - last ts) * 100) = 200000000000" using lv(1) by simp
    then have "rate_Allow tb_ops u (100, 200, level, Some (last ts)) = rate_Allow tb_ops u (NewLimiter tb_ops 100 200)"
      by (simp add: tb_ops_def Let_def)
    then show ?thesis by (simp add: us lv(2))
  qed
qed

theorem eviction_invisible_witness:
  "refills tb_ops 100 200 2000000000 \<and>
   (let evs = [EvAllow ''k'' 5 6, EvGC 3600000000007, EvAllow ''k'' 3600000000008 3600000000009] in
     timed 1 0 evs \<and>
     lim_run tb_ops (Limiter_New 100 200 3600000000000) evs =
       lim_run tb_ops (Limiter_New 100 200 3600000000000) (filter is_allow evs))"
  using tb_refills
    eviction_invisible [OF tb_refills, of 1 3600000000000 0
      "[EvAllow ''k'' 5 6, EvGC 3600000000007, EvAllow ''k'' 3600000000008 3600000000009]"]
  by (simp add: Let_def)

text \<open>
  One key's calls never touch another key's bucket: after an \<open>Allow\<close> for a key, every other
  key's entry is what it was, and the key has an entry whose \<open>lastSeen\<close> is the time of the call.
\<close>

theorem Allow_isolated:
  "let l' = snd (Limiter_Allow ops now now' key l) in
     (\<forall>k. k \<noteq> key \<longrightarrow> peek k l' = peek k l) \<and>
     (\<exists>b. peek key l' = Some \<lparr>lim = b, lastSeen = now\<rparr>) \<and>
     length (entries l') \<le> length (entries l) + 1"
  by (auto simp: Limiter_Allow_def peek_def Let_def gm_length_put split: prod.splits)

theorem Allow_isolated_witness:
  "let l = snd (Limiter_Allow tb_ops 1 1 ''a'' (Limiter_New 100 200 60)); l' = snd (Limiter_Allow tb_ops 2 2 ''b'' l) in
     peek ''a'' l' = peek ''a'' l \<and> peek ''a'' l \<noteq> None"
  using Allow_isolated [of tb_ops 2 2 "''b''" "snd (Limiter_Allow tb_ops 1 1 ''a'' (Limiter_New 100 200 60))"]
    Allow_isolated [of tb_ops 1 1 "''a''" "Limiter_New 100 200 60"]
  by (auto simp: Let_def)

end
