(* ===== verification/Hub.thy ===== *)
theory Hub
  imports Prelude
begin

text \<open>
  \<open>internal/hub/hub.go\<close>: the set of open connections, closing the connections of a revoked key,
  and the drain on shutdown.

  A tracked connection is the number of its \<open>*conn.Conn\<close>; its key (\<open>APIKeyID\<close>, fixed for the life
  of a connection) is the argument \<open>key\<close>. Closing a connection is a call on it, so an operation
  returns the calls it makes. \<open>hub_step\<close> interleaves the operations at the granularity of the
  critical sections: \<open>Drain\<close> sets \<open>draining\<close> in one and takes its snapshot in another.
\<close>

type_synonym close_error = "nat \<times> string"

definition StatusGoingAway :: nat where "StatusGoingAway = 1001"
definition StatusPolicyViolation :: nat where "StatusPolicyViolation = 1008"

record hub =
  hconns :: "nat list"
  closedKeys :: "(string, close_error) gomap"
  draining :: bool

definition drainClose :: close_error where
  "drainClose = (StatusGoingAway, ''shutdown'')"

definition hub_New :: hub where
  "hub_New = \<lparr>hconns = [], closedKeys = [], draining = False\<rparr>"

text \<open>\<open>None\<close> is the result \<open>(websocket.CloseError{}, true)\<close>: the connection is tracked.\<close>

definition hub_Add :: "(nat \<Rightarrow> string) \<Rightarrow> nat \<Rightarrow> hub \<Rightarrow> close_error option \<times> hub" where
  "hub_Add key c h =
    (if draining h then (Some drainClose, h)
     else case gm_get (closedKeys h) (key c) of
       Some ce \<Rightarrow> (Some ce, h)
     | None \<Rightarrow> (None, h\<lparr>hconns := set_add c (hconns h)\<rparr>))"

definition hub_Remove :: "nat \<Rightarrow> hub \<Rightarrow> hub" where
  "hub_Remove c h = h\<lparr>hconns := set_del c (hconns h)\<rparr>"

definition hub_Len :: "hub \<Rightarrow> nat" where
  "hub_Len h = length (hconns h)"

definition snapshot :: "hub \<Rightarrow> nat list" where
  "snapshot h = hconns h"

text \<open>The calls an operation makes on connections: \<open>CloseFrame\<close> in its own goroutine, \<open>CloseNow\<close>.\<close>

datatype close_call = CloseFrame nat close_error | CloseNow nat

definition hub_CloseKey :: "(nat \<Rightarrow> string) \<Rightarrow> string \<Rightarrow> nat \<Rightarrow> string \<Rightarrow> hub \<Rightarrow> nat \<times> close_call list \<times> hub" where
  "hub_CloseKey key keyID code reason h =
    (let h' = h\<lparr>closedKeys := gm_put keyID (code, reason) (closedKeys h)\<rparr>;
         matched = filter (\<lambda>c. key c = keyID) (hconns h')
     in (length matched, map (\<lambda>c. CloseFrame c (code, reason)) matched, h'))"

definition drain_mark :: "hub \<Rightarrow> hub" where
  "drain_mark h = h\<lparr>draining := True\<rparr>"

text \<open>
  The wait: one element of the list per tick, the other goroutines' effect on the hub until that
  tick; the end of the list is the deadline. \<open>Len\<close> is read before every wait.
\<close>

fun drain_wait :: "(hub \<Rightarrow> hub) list \<Rightarrow> hub \<Rightarrow> close_call list \<times> hub" where
  "drain_wait [] h = (if hub_Len h > 0 then (map CloseNow (snapshot h), h) else ([], h))"
| "drain_wait (tick # ticks) h = (if hub_Len h > 0 then drain_wait ticks (tick h) else ([], h))"

definition hub_Drain :: "(hub \<Rightarrow> hub) \<Rightarrow> (hub \<Rightarrow> hub) \<Rightarrow> (hub \<Rightarrow> hub) list \<Rightarrow> hub \<Rightarrow> close_call list \<times> hub" where
  "hub_Drain gap start ticks h =
    (let h1 = gap (drain_mark h);
         closes = map (\<lambda>c. CloseFrame c drainClose) (snapshot h1);
         (forced, h2) = drain_wait ticks (start h1)
     in (closes @ forced, h2))"

subsection \<open>Interleavings\<close>

datatype drain_phase = NotDraining | Marked | Snapped

record hub_sys =
  hs :: hub
  calls :: "close_call list"
  phase :: drain_phase
  refused :: "(nat \<times> close_error) list"

inductive hub_step :: "(nat \<Rightarrow> string) \<Rightarrow> hub_sys \<Rightarrow> hub_sys \<Rightarrow> bool" for key where
  add: "hub_Add key c (hs s) = (None, h) \<Longrightarrow> hub_step key s (s\<lparr>hs := h\<rparr>)"
| refuse: "hub_Add key c (hs s) = (Some ce, h) \<Longrightarrow> hub_step key s (s\<lparr>hs := h, refused := (c, ce) # refused s\<rparr>)"
| remove: "hub_step key s (s\<lparr>hs := hub_Remove c (hs s)\<rparr>)"
| close_key: "hub_CloseKey key k code reason (hs s) = (n, cs, h) \<Longrightarrow>
    hub_step key s (s\<lparr>hs := h, calls := calls s @ cs\<rparr>)"
| mark: "phase s = NotDraining \<Longrightarrow> hub_step key s (s\<lparr>hs := drain_mark (hs s), phase := Marked\<rparr>)"
| snap: "phase s = Marked \<Longrightarrow>
    hub_step key s (s\<lparr>calls := calls s @ map (\<lambda>c. CloseFrame c drainClose) (snapshot (hs s)), phase := Snapped\<rparr>)"
| force: "phase s = Snapped \<Longrightarrow>
    hub_step key s (s\<lparr>calls := calls s @ map CloseNow (snapshot (hs s))\<rparr>)"

inductive hub_reach :: "(nat \<Rightarrow> string) \<Rightarrow> hub_sys \<Rightarrow> bool" for key where
  init: "hub_reach key \<lparr>hs = hub_New, calls = [], phase = NotDraining, refused = []\<rparr>"
| step: "hub_reach key s \<Longrightarrow> hub_step key s s' \<Longrightarrow> hub_reach key s'"

definition key_closed :: "hub \<Rightarrow> string \<Rightarrow> bool" where
  "key_closed h k \<longleftrightarrow> gm_get (closedKeys h) k \<noteq> None"

text \<open>The connection was sent a close frame.\<close>

definition told :: "close_call list \<Rightarrow> nat \<Rightarrow> bool" where
  "told cs c \<longleftrightarrow> (\<exists>ce. CloseFrame c ce \<in> set cs)"

lemma told_append [simp]: "told (cs @ cs') c \<longleftrightarrow> told cs c \<or> told cs' c"
  by (auto simp: told_def)

lemma told_frames [simp]: "told (map (\<lambda>c. CloseFrame c ce) xs) c \<longleftrightarrow> c \<in> set xs"
  by (auto simp: told_def simp del: split_paired_Ex)

lemma told_nows [simp]: "\<not> told (map CloseNow xs) c"
  by (auto simp: told_def)

lemma key_closed_simps [simp]:
  "key_closed (h\<lparr>hconns := x\<rparr>) k = key_closed h k"
  "key_closed (h\<lparr>draining := d\<rparr>) k = key_closed h k"
  "key_closed (h\<lparr>closedKeys := gm_put k' ce (closedKeys h)\<rparr>) k \<longleftrightarrow> k = k' \<or> key_closed h k"
  by (auto simp: key_closed_def)

text \<open>
  A tracked connection whose key is closed, or that is tracked after the drain's snapshot, has been
  sent the close; only a connection of a closed key, or one that comes while draining, is refused.
\<close>

definition hub_inv :: "(nat \<Rightarrow> string) \<Rightarrow> hub_sys \<Rightarrow> bool" where
  "hub_inv key s \<longleftrightarrow>
    distinct (hconns (hs s)) \<and> gm_ok (closedKeys (hs s)) \<and>
    (draining (hs s) \<longleftrightarrow> phase s \<noteq> NotDraining) \<and>
    (\<forall>c \<in> set (hconns (hs s)). key_closed (hs s) (key c) \<longrightarrow> told (calls s) c) \<and>
    (phase s = Snapped \<longrightarrow> (\<forall>c \<in> set (hconns (hs s)). CloseFrame c drainClose \<in> set (calls s))) \<and>
    (\<forall>c \<in> fst ` set (refused s). phase s \<noteq> NotDraining \<or> key_closed (hs s) (key c))"

lemma hub_Add_cases:
  obtains "draining h" "hub_Add key c h = (Some drainClose, h)"
  | ce where "\<not> draining h" "gm_get (closedKeys h) (key c) = Some ce" "hub_Add key c h = (Some ce, h)"
  | "\<not> draining h" "\<not> key_closed h (key c)" "hub_Add key c h = (None, h\<lparr>hconns := set_add c (hconns h)\<rparr>)"
  by (cases "draining h"; cases "gm_get (closedKeys h) (key c)") (auto simp: hub_Add_def key_closed_def)

lemma hub_step_inv: "hub_step key s s' \<Longrightarrow> hub_inv key s \<Longrightarrow> hub_inv key s'"
proof (induction rule: hub_step.induct)
  case (add c s h)
  then show ?case
    by (cases rule: hub_Add_cases [of "hs s" key c]) (auto simp: hub_inv_def set_set_add simp del: set_append)
next
  case (refuse c s ce h)
  then show ?case by (cases rule: hub_Add_cases [of "hs s" key c]) (auto simp: hub_inv_def key_closed_def)
next
  case (remove s c)
  then show ?case by (auto simp: hub_inv_def hub_Remove_def)
next
  case (close_key k code reason s n cs h)
  then have h: "h = (hs s)\<lparr>closedKeys := gm_put k (code, reason) (closedKeys (hs s))\<rparr>"
    and cs: "cs = map (\<lambda>c. CloseFrame c (code, reason)) (filter (\<lambda>c. key c = k) (hconns (hs s)))"
    by (auto simp: hub_CloseKey_def Let_def)
  from close_key.prems show ?case unfolding h cs hub_inv_def by simp
next
  case (mark s)
  then show ?case by (auto simp: hub_inv_def drain_mark_def)
next
  case (snap s)
  then show ?case by (auto simp: hub_inv_def snapshot_def)
next
  case (force s)
  then show ?case by (auto simp: hub_inv_def snapshot_def)
qed

lemma hub_reach_inv: "hub_reach key s \<Longrightarrow> hub_inv key s"
proof (induction rule: hub_reach.induct)
  case init
  show ?case by (simp add: hub_inv_def hub_New_def)
next
  case (step s s')
  then show ?case by (blast intro: hub_step_inv)
qed

subsection \<open>The drain\<close>

lemma drain_wait_tracked:
  "drain_wait ticks h = (forced, h') \<Longrightarrow> hconns h' \<noteq> [] \<Longrightarrow> forced = map CloseNow (hconns h')"
  by (induction ticks arbitrary: h) (auto simp: hub_Len_def snapshot_def split: if_splits)

lemma drain_wait_early:
  "hconns h = [] \<Longrightarrow> drain_wait ticks h = ([], h)"
  by (cases ticks) (auto simp: hub_Len_def)


text \<open>What an accepted connection can rely on, as one statement about the reachable states.\<close>

lemma hub_reach_told:
  "hub_reach key s \<Longrightarrow> c \<in> set (hconns (hs s)) \<Longrightarrow> key_closed (hs s) (key c) \<Longrightarrow> told (calls s) c"
  using hub_reach_inv by (auto simp: hub_inv_def)

subsection \<open>Properties\<close>

text \<open>
  C13: No connection of a revoked key, and none during a shutdown, is left open unnoticed. In every
  reachable interleaving of \<open>Add\<close>, \<open>Remove\<close>, \<open>CloseKey\<close> and the steps of \<open>Drain\<close>: a connection that
  is tracked while its key is closed has been sent a close frame; once \<open>Drain\<close> has taken its
  snapshot every tracked connection has been sent the shutdown close; and from \<open>draining\<close> on, or for
  a closed key, \<open>Add\<close> tracks nothing. So the separate critical sections of \<open>Drain\<close> are harmless.
\<close>

theorem no_connection_missed:
  assumes "hub_reach key s"
  shows "(\<forall>c \<in> set (hconns (hs s)). key_closed (hs s) (key c) \<longrightarrow> told (calls s) c) \<and>
    (phase s = Snapped \<longrightarrow> (\<forall>c \<in> set (hconns (hs s)). CloseFrame c drainClose \<in> set (calls s))) \<and>
    (phase s \<noteq> NotDraining \<longrightarrow> (\<forall>c. hub_Add key c (hs s) = (Some drainClose, hs s))) \<and>
    (\<forall>c. key_closed (hs s) (key c) \<longrightarrow> fst (hub_Add key c (hs s)) \<noteq> None \<and> snd (hub_Add key c (hs s)) = hs s)"
proof -
  note inv = hub_reach_inv [OF assms, unfolded hub_inv_def]
  have "hub_Add key c (hs s) = (Some drainClose, hs s)" if "phase s \<noteq> NotDraining" for c
    using inv that by (simp add: hub_Add_def)
  moreover have "fst (hub_Add key c (hs s)) \<noteq> None \<and> snd (hub_Add key c (hs s)) = hs s" if "key_closed (hs s) (key c)" for c
    using that by (cases rule: hub_Add_cases [of "hs s" key c]) auto
  ultimately show ?thesis using inv by blast
qed

definition hub_example :: hub_sys where
  "hub_example = \<lparr>hs = \<lparr>hconns = [1], closedKeys = [(''k'', (1008, ''key revoked''))], draining = False\<rparr>,
     calls = [CloseFrame 1 (1008, ''key revoked'')], phase = NotDraining, refused = []\<rparr>"

lemma hub_example_reach: "hub_reach (\<lambda>_. ''k'') hub_example"
proof -
  let ?s0 = "\<lparr>hs = hub_New, calls = [], phase = NotDraining, refused = []\<rparr>"
  let ?s1 = "?s0\<lparr>hs := \<lparr>hconns = [1], closedKeys = [], draining = False\<rparr>\<rparr>"
  have "hub_step (\<lambda>_. ''k'') ?s0 ?s1"
    by (rule hub_step.add [where c = 1]) (simp add: hub_Add_def hub_New_def)
  with hub_reach.init [of "\<lambda>_. ''k''"] have "hub_reach (\<lambda>_. ''k'') ?s1" by (rule hub_reach.step)
  moreover have "hub_step (\<lambda>_. ''k'') ?s1 hub_example"
    using hub_step.close_key [of "\<lambda>_. ''k''" "''k''" 1008 "''key revoked''" ?s1]
    by (simp add: hub_CloseKey_def hub_example_def Let_def)
  ultimately show ?thesis by (rule hub_reach.step)
qed

theorem no_connection_missed_witness:
  "hub_reach (\<lambda>_. ''k'') hub_example \<and> 1 \<in> set (hconns (hs hub_example)) \<and>
   key_closed (hs hub_example) ''k'' \<and> told (calls hub_example) 1 \<and>
   fst (hub_Add (\<lambda>_. ''k'') 2 (hs hub_example)) \<noteq> None"
  using no_connection_missed [OF hub_example_reach] hub_example_reach
  by (simp add: hub_example_def key_closed_def)

text \<open>
  \<open>Drain\<close> ends with nothing open. Whatever the other goroutines do meanwhile, every connection
  tracked at its snapshot is sent the shutdown close, every one still tracked when it returns has been
  force-closed, and it returns before the deadline as soon as a tick finds none.
\<close>

theorem Drain_closes_all:
  assumes "hub_Drain gap start ticks h = (cs, h')"
  shows "(\<forall>c \<in> set (hconns (gap (drain_mark h))). CloseFrame c drainClose \<in> set cs) \<and>
    (\<forall>c \<in> set (hconns h'). CloseNow c \<in> set cs) \<and>
    (hconns (start (gap (drain_mark h))) = [] \<longrightarrow> h' = start (gap (drain_mark h)) \<and> (\<forall>c. CloseNow c \<notin> set cs))"
proof -
  let ?h = "gap (drain_mark h)"
  obtain forced where w: "drain_wait ticks (start ?h) = (forced, h')"
    and cs: "cs = map (\<lambda>c. CloseFrame c drainClose) (hconns ?h) @ forced"
    using assms by (auto simp: hub_Drain_def Let_def snapshot_def split: prod.splits)
  have "forced = map CloseNow (hconns h')" if "hconns h' \<noteq> []" using drain_wait_tracked [OF w that] .
  moreover have "forced = [] \<and> h' = start ?h" if "hconns (start ?h) = []"
    using drain_wait_early [OF that] w by simp
  ultimately show ?thesis unfolding cs by (cases "hconns h' = []") auto
qed

theorem Drain_closes_all_witness:
  "let h = hub_New\<lparr>hconns := [4, 7]\<rparr>; (cs, h') = hub_Drain id id [hub_Remove 4] h in
     CloseFrame 4 drainClose \<in> set cs \<and> hconns h' = [7] \<and> CloseNow 7 \<in> set cs"
proof -
  let ?h = "hub_New\<lparr>hconns := [4, 7]\<rparr>"
  obtain cs h' where d: "hub_Drain id id [hub_Remove 4] ?h = (cs, h')" by (cases "hub_Drain id id [hub_Remove 4] ?h")
  then have "hconns h' = [7]"
    by (auto simp: hub_Drain_def hub_Len_def drain_mark_def hub_Remove_def Let_def hub_New_def)
  with Drain_closes_all [OF d] d show ?thesis by (simp add: drain_mark_def)
qed

end
