(* ===== verification/Fanout.thy ===== *)
theory Fanout
  imports Hub_Channel
begin

text \<open>
  \<open>internal/fanout\<close>: the two ways a publish reaches the subscribers. \<open>PerConn\<close> broadcasts in the
  publisher's goroutine. \<open>ShardedPool\<close> puts a job on the queue of the channel's shard, and one worker
  per shard broadcasts the jobs of its queue in order.

  A send on a full queue blocks until the shard's worker has received a job; \<open>pool_enqueue\<close> says
  so by returning \<open>None\<close>, and \<open>pool_Broadcast\<close> lets the worker run once in that case, which is what
  unblocks it. \<open>pool_step\<close> has the publishers and the workers interleave freely.
\<close>

type_synonym job = "chref \<times> bytes"

record sharded_pool =
  queues :: "job list list"
  workers :: nat
  pool_closed :: bool

definition queueSize :: nat where
  "queueSize = 1024"

definition NewShardedPool :: "nat \<Rightarrow> sharded_pool" where
  "NewShardedPool n = \<lparr>queues = replicate n [], workers = n, pool_closed = False\<rparr>"

definition pool_shardFor :: "string \<Rightarrow> sharded_pool \<Rightarrow> nat" where
  "pool_shardFor name p = shard_index (workers p) name"

text \<open>One round of \<open>run(i)\<close>: receive a job, broadcast it.\<close>

definition pool_take :: "nat \<Rightarrow> sharded_pool \<Rightarrow> (job \<times> sharded_pool) option" where
  "pool_take i p = (case queues p ! i of
     [] \<Rightarrow> None
   | j # js \<Rightarrow> Some (j, p\<lparr>queues := (queues p)[i := js]\<rparr>))"

definition pool_run :: "(cid \<Rightarrow> bytes \<Rightarrow> 'w \<Rightarrow> 'w) \<Rightarrow> channel list \<Rightarrow> nat \<Rightarrow> sharded_pool \<times> 'w \<Rightarrow> sharded_pool \<times> 'w" where
  "pool_run Send heap i = (\<lambda>(p, w). case pool_take i p of
     None \<Rightarrow> (p, w)
   | Some ((c, msg), p') \<Rightarrow> (p', hub_Broadcast Send heap c msg w))"

definition pool_enqueue :: "channel list \<Rightarrow> chref \<Rightarrow> bytes \<Rightarrow> sharded_pool \<Rightarrow> sharded_pool option" where
  "pool_enqueue heap c msg p =
    (if pool_closed p then Some p
     else let i = pool_shardFor (Name (heap ! c)) p in
       if length (queues p ! i) < queueSize
       then Some (p\<lparr>queues := (queues p)[i := queues p ! i @ [(c, msg)]]\<rparr>) else None)"

definition pool_Broadcast :: "(cid \<Rightarrow> bytes \<Rightarrow> 'w \<Rightarrow> 'w) \<Rightarrow> channel list \<Rightarrow> chref \<Rightarrow> bytes \<Rightarrow> sharded_pool \<times> 'w \<Rightarrow> sharded_pool \<times> 'w" where
  "pool_Broadcast Send heap c msg = (\<lambda>(p, w). case pool_enqueue heap c msg p of
     Some p' \<Rightarrow> (p', w)
   | None \<Rightarrow> let (p1, w1) = pool_run Send heap (pool_shardFor (Name (heap ! c)) p) (p, w) in
       (case pool_enqueue heap c msg p1 of Some p2 \<Rightarrow> (p2, w1) | None \<Rightarrow> (p1, w1)))"

text \<open>\<open>Close\<close>: no more jobs, and the workers run until their queues are empty.\<close>

definition pool_drain_queue :: "(cid \<Rightarrow> bytes \<Rightarrow> 'w \<Rightarrow> 'w) \<Rightarrow> channel list \<Rightarrow> job list \<Rightarrow> 'w \<Rightarrow> 'w" where
  "pool_drain_queue Send heap js w = fold (\<lambda>(c, msg). hub_Broadcast Send heap c msg) js w"

definition pool_Close :: "(cid \<Rightarrow> bytes \<Rightarrow> 'w \<Rightarrow> 'w) \<Rightarrow> channel list \<Rightarrow> sharded_pool \<times> 'w \<Rightarrow> sharded_pool \<times> 'w" where
  "pool_Close Send heap = (\<lambda>(p, w). if pool_closed p then (p, w)
     else (p\<lparr>pool_closed := True, queues := map (\<lambda>_. []) (queues p)\<rparr>,
           fold (pool_drain_queue Send heap) (queues p) w))"

subsection \<open>The interface\<close>

datatype fanout = PerConn | Pool sharded_pool

definition NewPerConn :: fanout where
  "NewPerConn = PerConn"

fun fan_Broadcast :: "(cid \<Rightarrow> bytes \<Rightarrow> 'w \<Rightarrow> 'w) \<Rightarrow> channel list \<Rightarrow> chref \<Rightarrow> bytes \<Rightarrow> fanout \<times> 'w \<Rightarrow> fanout \<times> 'w" where
  "fan_Broadcast Send heap c msg (PerConn, w) = (PerConn, hub_Broadcast Send heap c msg w)"
| "fan_Broadcast Send heap c msg (Pool p, w) =
    (case pool_Broadcast Send heap c msg (p, w) of (p', w') \<Rightarrow> (Pool p', w'))"

fun fan_Close :: "(cid \<Rightarrow> bytes \<Rightarrow> 'w \<Rightarrow> 'w) \<Rightarrow> channel list \<Rightarrow> fanout \<times> 'w \<Rightarrow> fanout \<times> 'w" where
  "fan_Close Send heap (PerConn, w) = (PerConn, w)"
| "fan_Close Send heap (Pool p, w) = (case pool_Close Send heap (p, w) of (p', w') \<Rightarrow> (Pool p', w'))"

text \<open>
  What the fanout relies on is the \<open>Send\<close> of a connection. Whatever a single \<open>Send\<close> of a message that
  satisfies \<open>M\<close> keeps, every operation of both implementations keeps as long as the messages it is given
  and the ones in its queues satisfy \<open>M\<close>: the relation is reflexive and transitive.
\<close>

definition pool_holds :: "(bytes \<Rightarrow> bool) \<Rightarrow> sharded_pool \<Rightarrow> bool" where
  "pool_holds M p \<longleftrightarrow> 0 < workers p \<and> workers p < 2 ^ 32 \<and> length (queues p) = workers p \<and>
     (\<forall>js \<in> set (queues p). \<forall>j \<in> set js. M (snd j))"

fun fan_holds :: "(bytes \<Rightarrow> bool) \<Rightarrow> fanout \<Rightarrow> bool" where
  "fan_holds M PerConn = True"
| "fan_holds M (Pool p) = pool_holds M p"

lemma holds_NewShardedPool: "0 < n \<Longrightarrow> n < 2 ^ 32 \<Longrightarrow> pool_holds M (NewShardedPool n)"
  by (auto simp: pool_holds_def NewShardedPool_def)

lemma holds_index: "pool_holds M p \<Longrightarrow> pool_shardFor name p < length (queues p)"
  using shard_index_less [of "workers p"] by (simp add: pool_holds_def pool_shardFor_def)

lemma holds_update:
  assumes "pool_holds M p" "\<forall>j \<in> set js. M (snd j)"
  shows "pool_holds M (p\<lparr>queues := (queues p)[i := js]\<rparr>)"
proof -
  have "\<forall>xs \<in> set ((queues p)[i := js]). \<forall>j \<in> set xs. M (snd j)"
    using assms set_update_subset_insert [of "queues p" i js] unfolding pool_holds_def by blast
  with assms(1) show ?thesis by (simp add: pool_holds_def)
qed

lemma holds_take:
  assumes "pool_holds M p" "i < length (queues p)" "pool_take i p = Some (j, p')"
  shows "M (snd j)" "pool_holds M p'"
proof -
  obtain js where q: "queues p ! i = j # js" "p' = p\<lparr>queues := (queues p)[i := js]\<rparr>"
    using assms(3) by (auto simp: pool_take_def split: list.splits)
  have ok: "\<forall>x \<in> set (j # js). M (snd x)" using assms(1,2) nth_mem [OF assms(2)] by (auto simp: pool_holds_def q(1))
  then show "M (snd j)" "pool_holds M p'" using holds_update [OF assms(1), of js i] by (simp_all add: q(2))
qed

lemma holds_run: "pool_holds M p \<Longrightarrow> i < length (queues p) \<Longrightarrow> pool_holds M (fst (pool_run Send heap i (p, w)))"
  using holds_take(2) [of M p i] by (auto simp: pool_run_def split: option.split)

lemma holds_enqueue:
  assumes "pool_holds M p" "M msg" "pool_enqueue heap c msg p = Some p'"
  shows "pool_holds M p'"
proof -
  let ?i = "pool_shardFor (Name (heap ! c)) p"
  have "\<forall>j \<in> set (queues p ! ?i @ [(c, msg)]). M (snd j)"
    using assms(1,2) nth_mem [OF holds_index [OF assms(1), of "Name (heap ! c)"]] by (auto simp: pool_holds_def)
  moreover have "p' = p \<or> p' = p\<lparr>queues := (queues p)[?i := queues p ! ?i @ [(c, msg)]]\<rparr>"
    using assms(3) by (auto simp: pool_enqueue_def Let_def split: if_splits)
  ultimately show ?thesis using assms(1) holds_update [OF assms(1)] by auto
qed

lemma holds_fan_Broadcast:
  assumes "fan_holds M f" "M msg"
  shows "fan_holds M (fst (fan_Broadcast Send heap c msg (f, w)))"
proof (cases f)
  case (Pool p)
  let ?i = "pool_shardFor (Name (heap ! c)) p"
  obtain p1 w1 where r: "pool_run Send heap ?i (p, w) = (p1, w1)" by fastforce
  have h: "pool_holds M p" "pool_holds M p1"
    using assms(1) Pool holds_run [of M p ?i Send heap w] holds_index [of M p] r by auto
  show ?thesis using h holds_enqueue [OF h(1) assms(2)] holds_enqueue [OF h(2) assms(2)]
    by (auto simp: Pool pool_Broadcast_def r split: option.split)
qed simp

locale checked_delivery =
  fixes Send :: "cid \<Rightarrow> bytes \<Rightarrow> 'w \<Rightarrow> 'w" and R :: "'w \<Rightarrow> 'w \<Rightarrow> bool" and M :: "bytes \<Rightarrow> bool"
  assumes R_refl: "R w w"
    and R_trans: "R u v \<Longrightarrow> R v w \<Longrightarrow> R u w"
    and R_Send: "M m \<Longrightarrow> R w (Send s m w)"
begin

lemma R_fold: "(\<And>x w. x \<in> set xs \<Longrightarrow> R w (f x w)) \<Longrightarrow> R w (fold f xs w)"
proof (induction xs arbitrary: w)
  case (Cons x xs)
  have "R (f x w) (fold f xs (f x w))" by (rule Cons.IH) (simp add: Cons.prems)
  moreover have "R w (f x w)" by (simp add: Cons.prems)
  ultimately show ?case using R_trans by simp
qed (simp add: R_refl)

lemma R_Broadcast: "M msg \<Longrightarrow> R w (hub_Broadcast Send heap c msg w)"
  by (simp add: hub_Broadcast_def Let_def R_fold R_Send)

lemma R_run: "(\<And>j p'. pool_take i p = Some (j, p') \<Longrightarrow> M (snd j)) \<Longrightarrow> R w (snd (pool_run Send heap i (p, w)))"
  by (auto simp: pool_run_def R_Broadcast R_refl split: option.splits)

lemma R_fan_Broadcast:
  assumes "M msg" "\<And>p j p'. f = Pool p \<Longrightarrow> pool_take (pool_shardFor (Name (heap ! c)) p) p = Some (j, p') \<Longrightarrow> M (snd j)"
  shows "R w (snd (fan_Broadcast Send heap c msg (f, w)))"
proof (cases f)
  case (Pool p)
  obtain p1 w1 where r: "pool_run Send heap (pool_shardFor (Name (heap ! c)) p) (p, w) = (p1, w1)" by fastforce
  then have "R w w1" using R_run [of "pool_shardFor (Name (heap ! c)) p" p w heap] assms(2) [OF Pool] by simp
  then show ?thesis by (simp add: Pool pool_Broadcast_def r R_refl split: option.split)
qed (simp add: R_Broadcast assms(1))

lemma R_fan_Close:
  assumes "\<And>p js j. f = Pool p \<Longrightarrow> js \<in> set (queues p) \<Longrightarrow> j \<in> set js \<Longrightarrow> M (snd j)"
  shows "R w (snd (fan_Close Send heap (f, w)))"
proof (cases f)
  case (Pool p)
  have "R w (pool_drain_queue Send heap js w)" if "js \<in> set (queues p)" for js w
    unfolding pool_drain_queue_def by (rule R_fold) (use assms [OF Pool that] in \<open>auto simp: R_Broadcast\<close>)
  then show ?thesis by (simp add: Pool pool_Close_def R_refl R_fold)
qed (simp add: R_refl)

lemma R_holding_run: "pool_holds M p \<Longrightarrow> i < length (queues p) \<Longrightarrow> R w (snd (pool_run Send heap i (p, w)))"
  by (rule R_run) (rule holds_take(1))

lemma R_holding_Broadcast: "fan_holds M f \<Longrightarrow> M msg \<Longrightarrow> R w (snd (fan_Broadcast Send heap c msg (f, w)))"
  by (rule R_fan_Broadcast) (auto dest: holds_take(1) [OF _ holds_index])

end

text \<open>A relation that every \<open>Send\<close> keeps needs nothing of the messages.\<close>

locale delivery =
  fixes Send :: "cid \<Rightarrow> bytes \<Rightarrow> 'w \<Rightarrow> 'w" and R :: "'w \<Rightarrow> 'w \<Rightarrow> bool"
  assumes refl: "R w w"
    and trans: "R u v \<Longrightarrow> R v w \<Longrightarrow> R u w"
    and keeps_Send: "R w (Send s m w)"

sublocale delivery \<subseteq> every: checked_delivery Send R "\<lambda>_. True"
  by unfold_locales (auto intro: refl keeps_Send elim: trans)

context delivery
begin

lemmas R_Broadcast = every.R_Broadcast [OF TrueI]
lemmas R_fan_Broadcast = every.R_fan_Broadcast [OF TrueI TrueI]
lemmas R_fan_Close = every.R_fan_Close [OF TrueI]

end

subsection \<open>Order per channel\<close>

text \<open>
  The pool together with two histories: the jobs it accepted and the jobs its workers have started
  to broadcast, each in order. The name of a channel never changes, so it is a function here.
\<close>

record pool_sys =
  pl :: sharded_pool
  accepted :: "job list"
  started :: "job list"

inductive pool_step :: "channel list \<Rightarrow> pool_sys \<Rightarrow> pool_sys \<Rightarrow> bool" for heap where
  publish: "\<not> pool_closed (pl s) \<Longrightarrow> pool_enqueue heap c msg (pl s) = Some p \<Longrightarrow>
    pool_step heap s (s\<lparr>pl := p, accepted := accepted s @ [(c, msg)]\<rparr>)"
| after_close: "pool_closed (pl s) \<Longrightarrow> pool_enqueue heap c msg (pl s) = Some p \<Longrightarrow> pool_step heap s (s\<lparr>pl := p\<rparr>)"
| work: "i < workers (pl s) \<Longrightarrow> pool_take i (pl s) = Some (j, p) \<Longrightarrow>
    pool_step heap s (s\<lparr>pl := p, started := started s @ [j]\<rparr>)"
| close: "pool_step heap s (s\<lparr>pl := (pl s)\<lparr>pool_closed := True\<rparr>\<rparr>)"

inductive pool_reach :: "channel list \<Rightarrow> nat \<Rightarrow> pool_sys \<Rightarrow> bool" for heap n where
  init: "pool_reach heap n \<lparr>pl = NewShardedPool n, accepted = [], started = []\<rparr>"
| step: "pool_reach heap n s \<Longrightarrow> pool_step heap s s' \<Longrightarrow> pool_reach heap n s'"

abbreviation of_chan :: "chref \<Rightarrow> job list \<Rightarrow> job list" where
  "of_chan c \<equiv> filter (\<lambda>j. fst j = c)"

definition pool_inv :: "channel list \<Rightarrow> nat \<Rightarrow> pool_sys \<Rightarrow> bool" where
  "pool_inv heap n s \<longleftrightarrow>
    workers (pl s) = n \<and> length (queues (pl s)) = n \<and>
    (\<forall>i < n. length (queues (pl s) ! i) \<le> queueSize \<and> (\<forall>j \<in> set (queues (pl s) ! i). shard_index n (Name (heap ! fst j)) = i)) \<and>
    (\<forall>c. of_chan c (accepted s) = of_chan c (started s) @ of_chan c (queues (pl s) ! shard_index n (Name (heap ! c))))"

lemma pool_step_inv:
  assumes "0 < n" "n < 2 ^ 32" "pool_step heap s s'" "pool_inv heap n s"
  shows "pool_inv heap n s'"
  using assms(3,4)
proof (induction rule: pool_step.induct)
  case (publish s c msg p)
  let ?i = "shard_index n (Name (heap ! c))"
  have i: "?i < n" by (rule shard_index_less [OF assms(1,2)])
  from publish have p: "p = (pl s)\<lparr>queues := (queues (pl s))[?i := queues (pl s) ! ?i @ [(c, msg)]]\<rparr>"
    and room: "length (queues (pl s) ! ?i) < queueSize"
    by (auto simp: pool_enqueue_def pool_shardFor_def pool_inv_def Let_def split: if_splits)
  show ?case using publish.prems i room unfolding p pool_inv_def by (auto simp: nth_list_update)
next
  case (after_close s c msg p)
  then have "p = pl s" by (simp add: pool_enqueue_def)
  with after_close.prems show ?case by (simp add: pool_inv_def)
next
  case (work i s j p)
  from work have i: "i < n" by (simp add: pool_inv_def)
  from work obtain js where q: "queues (pl s) ! i = j # js" and p: "p = (pl s)\<lparr>queues := (queues (pl s))[i := js]\<rparr>"
    by (auto simp: pool_take_def split: list.splits)
  have j: "shard_index n (Name (heap ! fst j)) = i" using work.prems i q by (auto simp: pool_inv_def)
  have "of_chan c (started s @ [j]) @ of_chan c (queues p ! shard_index n (Name (heap ! c))) =
    of_chan c (started s) @ of_chan c (queues (pl s) ! shard_index n (Name (heap ! c)))" for c
    using i j q work.prems by (cases "fst j = c") (auto simp: p pool_inv_def nth_list_update)
  moreover have "\<forall>k < n. length (queues p ! k) \<le> queueSize \<and> (\<forall>x \<in> set (queues p ! k). shard_index n (Name (heap ! fst x)) = k)"
    using work.prems i q by (auto simp: p pool_inv_def nth_list_update)
  ultimately show ?case using work.prems i by (simp add: p pool_inv_def)
next
  case (close s)
  then show ?case by (simp add: pool_inv_def)
qed

lemma pool_init_inv:
  assumes "0 < n" "n < 2 ^ 32"
  shows "pool_inv heap n \<lparr>pl = NewShardedPool n, accepted = [], started = []\<rparr>"
  using shard_index_less [OF assms] by (simp add: pool_inv_def NewShardedPool_def)

lemma pool_reach_inv:
  assumes "0 < n" "n < 2 ^ 32" "pool_reach heap n s"
  shows "pool_inv heap n s"
  using assms(3)
proof (induction rule: pool_reach.induct)
  case init
  show ?case by (rule pool_init_inv [OF assms(1,2)])
next
  case (step s s')
  then show ?case using pool_step_inv [OF assms(1,2)] by blast
qed

subsection \<open>Properties\<close>

text \<open>
  C14: The sharded pool keeps the order of every channel. In every interleaving of publishers,
  workers and \<open>Close\<close>, the jobs of a channel that were started, followed by those still queued,
  are exactly the jobs accepted for it, in the order they were accepted: none is lost, duplicated or
  overtaken. No queue ever holds more than its capacity.
\<close>

theorem sharded_order_per_channel:
  assumes "0 < n" "n < 2 ^ 32" "pool_reach heap n s"
  shows "(\<forall>c. of_chan c (accepted s) =
      of_chan c (started s) @ of_chan c (queues (pl s) ! pool_shardFor (Name (heap ! c)) (pl s))) \<and>
    (\<forall>i < n. length (queues (pl s) ! i) \<le> queueSize)"
  using pool_reach_inv [OF assms] by (auto simp: pool_inv_def pool_shardFor_def)

theorem sharded_order_per_channel_witness:
  "let heap = [\<lparr>Name = ''a'', Subscribers = [], Deleted = False\<rparr>];
       p = \<lparr>queues = [[(0, ''m'')]], workers = 1, pool_closed = False\<rparr>;
       s = \<lparr>pl = p, accepted = [(0, ''m'')], started = []\<rparr> in
     pool_reach heap 1 s \<and> of_chan 0 (accepted s) = of_chan 0 (started s) @ of_chan 0 (queues p ! pool_shardFor ''a'' p)"
proof -
  let ?heap = "[\<lparr>Name = ''a'', Subscribers = [], Deleted = False\<rparr>]"
  let ?p = "\<lparr>queues = [[(0, ''m'')]], workers = 1, pool_closed = False\<rparr>"
  let ?s = "\<lparr>pl = ?p, accepted = [(0, ''m'')], started = []\<rparr>"
  have i: "shard_index 1 x = 0" for x using shard_index_less [of 1 x] by simp
  have "pool_step ?heap \<lparr>pl = NewShardedPool 1, accepted = [], started = []\<rparr> ?s"
    using pool_step.publish [of "\<lparr>pl = NewShardedPool 1, accepted = [], started = []\<rparr>" ?heap 0 "''m''" ?p] i
    by (simp add: NewShardedPool_def pool_enqueue_def pool_shardFor_def queueSize_def)
  with pool_reach.init have r: "pool_reach ?heap 1 ?s" by (rule pool_reach.step)
  have "of_chan 0 (accepted ?s) = of_chan 0 (started ?s) @ of_chan 0 (queues (pl ?s) ! pool_shardFor (Name (?heap ! 0)) (pl ?s))"
    by (rule spec [OF conjunct1 [OF sharded_order_per_channel [OF _ _ r]]]) simp_all
  with r show ?thesis by (simp add: Let_def)
qed

text \<open>
  A full queue never loses a publish. On an open pool \<open>Broadcast\<close> always ends with the job last
  on its channel's shard; when the queue was full the shard's worker has first broadcast the oldest
  job, and only that one. Other shards are untouched. On a closed pool \<open>Broadcast\<close> does nothing.
\<close>

theorem pool_Broadcast_queues:
  assumes "0 < workers p" "workers p < 2 ^ 32" "length (queues p) = workers p"
    and "length (queues p ! pool_shardFor (Name (heap ! c)) p) \<le> queueSize"
  shows "let i = pool_shardFor (Name (heap ! c)) p; q = queues p ! i; (p', w') = pool_Broadcast Send heap c msg (p, w) in
    if pool_closed p then (p', w') = (p, w)
    else if length q < queueSize then queues p' = (queues p)[i := q @ [(c, msg)]] \<and> w' = w
    else queues p' = (queues p)[i := tl q @ [(c, msg)]] \<and> w' = hub_Broadcast Send heap (fst (hd q)) (snd (hd q)) w"
proof -
  let ?i = "pool_shardFor (Name (heap ! c)) p"
  have i: "?i < length (queues p)" using shard_index_less [OF assms(1,2)] assms(3) by (simp add: pool_shardFor_def)
  show ?thesis
  proof (cases "pool_closed p \<or> length (queues p ! ?i) < queueSize")
    case True
    then show ?thesis by (auto simp: pool_Broadcast_def pool_enqueue_def Let_def)
  next
    case False
    then have full: "length (queues p ! ?i) = queueSize" using assms(4) by simp
    then obtain j js where q: "queues p ! ?i = j # js" by (cases "queues p ! ?i") (auto simp: queueSize_def)
    let ?p1 = "p\<lparr>queues := (queues p)[?i := js]\<rparr>"
    have i1: "pool_shardFor (Name (heap ! c)) ?p1 = ?i" by (simp add: pool_shardFor_def)
    have run: "pool_run Send heap ?i (p, w) = (?p1, hub_Broadcast Send heap (fst j) (snd j) w)"
      by (cases j) (simp add: pool_run_def pool_take_def q)
    have enq: "pool_enqueue heap c msg ?p1 = Some (?p1\<lparr>queues := (queues p)[?i := js @ [(c, msg)]]\<rparr>)"
      using False full q i by (simp add: pool_enqueue_def i1 Let_def)
    have "pool_enqueue heap c msg p = None" using False by (simp add: pool_enqueue_def Let_def)
    then have "pool_Broadcast Send heap c msg (p, w) =
      (?p1\<lparr>queues := (queues p)[?i := js @ [(c, msg)]]\<rparr>, hub_Broadcast Send heap (fst j) (snd j) w)"
      by (simp add: pool_Broadcast_def run enq)
    with False q show ?thesis by (simp add: Let_def)
  qed
qed

theorem pool_Broadcast_queues_witness:
  "let heap = [\<lparr>Name = ''a'', Subscribers = [3], Deleted = False\<rparr>];
       (p', w') = pool_Broadcast (\<lambda>s m w. w @ [(s, m)]) heap 0 ''x'' (NewShardedPool 1, []) in
     queues p' = [[(0, ''x'')]] \<and> w' = []"
proof -
  let ?heap = "[\<lparr>Name = ''a'', Subscribers = [3], Deleted = False\<rparr>]"
  let ?S = "\<lambda>s m w. w @ [(s, m)]"
  have i: "pool_shardFor x (NewShardedPool 1) = 0" for x
    using shard_index_less [of 1 x] by (simp add: pool_shardFor_def NewShardedPool_def)
  obtain p' w' where b: "pool_Broadcast ?S ?heap 0 ''x'' (NewShardedPool 1, []) = (p', w')"
    by (cases "pool_Broadcast ?S ?heap 0 ''x'' (NewShardedPool 1, [])")
  have *: "0 < workers (NewShardedPool 1)" "workers (NewShardedPool 1) < 2 ^ 32"
    "length (queues (NewShardedPool 1)) = workers (NewShardedPool 1)"
    "length (queues (NewShardedPool 1) ! pool_shardFor (Name (?heap ! 0)) (NewShardedPool 1)) \<le> queueSize"
    unfolding i by (simp_all add: NewShardedPool_def)
  from pool_Broadcast_queues [OF *, of ?S "''x''" "[]"] b i show ?thesis
    by (simp add: Let_def NewShardedPool_def queueSize_def)
qed

end
