(* ===== verification/Metrics.thy ===== *)
theory Metrics
  imports Registry
begin

text \<open>
  \<open>internal/metrics/prom.go\<close>. The collectors are Prometheus objects, which are not part of the
  repository: the state is the list of the calls the program makes on them, oldest first, and what
  reading a collector returns is the argument \<open>prom_read\<close> over those calls. \<open>channelSource\<close> is the
  callback the server installs; the function it calls is the registry's \<open>Len\<close>.
\<close>

datatype metric_call =
    Connections_Inc
  | Connections_Dec
  | Published_Inc
  | Dropped_Inc string
  | Latency_Observe int
  | UpgradeRej_Inc string
  | AuthFails_Inc

record metrics =
  mcalls :: "metric_call list"
  channelSource :: "(registry \<Rightarrow> nat) option"
  registerOnce :: bool
  registered :: "string list"

definition metric :: "metric_call \<Rightarrow> metrics \<Rightarrow> metrics" where
  "metric c m = m\<lparr>mcalls := mcalls m @ [c]\<rparr>"

definition SetChannelSource :: "(registry \<Rightarrow> nat) option \<Rightarrow> metrics \<Rightarrow> metrics" where
  "SetChannelSource fn m = (case fn of
     None \<Rightarrow> m\<lparr>channelSource := None\<rparr>
   | Some f \<Rightarrow> m\<lparr>channelSource := Some f\<rparr>)"

definition channelCount :: "registry \<Rightarrow> metrics \<Rightarrow> nat" where
  "channelCount r m = (case channelSource m of Some f \<Rightarrow> f r | None \<Rightarrow> 0)"

text \<open>
  What \<open>Write\<close> fills in for one collector (\<open>None\<close> when it fails), and what \<open>Collect\<close> sends for a vector.
  Only whole numbers are ever added to the collectors that are read back, so their values are integers.
\<close>

record dto_metric =
  dto_Gauge :: "int option"
  dto_Counter :: "int option"

record prom_read =
  read_connections :: "metric_call list \<Rightarrow> dto_metric option"
  read_published :: "metric_call list \<Rightarrow> dto_metric option"
  read_dropped :: "metric_call list \<Rightarrow> dto_metric option list"

definition readValue :: "dto_metric option \<Rightarrow> int" where
  "readValue v = (case v of
     None \<Rightarrow> 0
   | Some d \<Rightarrow> (case dto_Gauge d of
       Some x \<Rightarrow> x
     | None \<Rightarrow> (case dto_Counter d of Some x \<Rightarrow> x | None \<Rightarrow> 0)))"

definition readVecTotal :: "dto_metric option list \<Rightarrow> int" where
  "readVecTotal vs = fold (\<lambda>v total. total + readValue v) vs 0"

definition SnapshotBasic :: "prom_read \<Rightarrow> registry \<Rightarrow> metrics \<Rightarrow> (string, int) gomap" where
  "SnapshotBasic rd r m =
    (let published = readValue (read_published rd (mcalls m)) in
     [(''connections'', readValue (read_connections rd (mcalls m))),
      (''channels'', int (channelCount r m)),
      (''published'', published),
      (''messages_published_total'', published),
      (''dropped'', readVecTotal (read_dropped rd (mcalls m)))])"

text \<open>
  \<open>MustRegister\<close> panics on a name it already has; \<open>None\<close> is that panic.
\<close>

fun MustRegister :: "string list \<Rightarrow> metrics \<Rightarrow> metrics option" where
  "MustRegister [] m = Some m"
| "MustRegister (n # ns) m =
    (if n \<in> set (registered m) then None else MustRegister ns (m\<lparr>registered := registered m @ [n]\<rparr>))"

definition realRegister :: "metrics \<Rightarrow> metrics option" where
  "realRegister m = (case MustRegister [''wirefan_channels''] m of
     None \<Rightarrow> None
   | Some m1 \<Rightarrow> MustRegister [''wirefan_connections'', ''wirefan_messages_published_total'',
       ''wirefan_messages_dropped_total'', ''wirefan_broadcast_latency_seconds'',
       ''wirefan_upgrade_rejected_total'', ''wirefan_auth_failures_total''] m1)"

definition Register :: "metrics \<Rightarrow> metrics option" where
  "Register m = (if registerOnce m then Some m else realRegister (m\<lparr>registerOnce := True\<rparr>))"

text \<open>However often a process boots a server, registering never panics.\<close>

lemma Register_again:
  assumes "registered m = []" "\<not> registerOnce m"
  obtains m' where "Register m = Some m'" "Register m' = Some m'" "mcalls m' = mcalls m"
    "channelSource m' = channelSource m"
proof -
  have "\<exists>m'. Register m = Some m' \<and> registerOnce m' \<and> mcalls m' = mcalls m \<and> channelSource m' = channelSource m"
    using assms by (simp add: Register_def realRegister_def)
  then obtain m' where "Register m = Some m'" "registerOnce m'" "mcalls m' = mcalls m"
    "channelSource m' = channelSource m" by blast
  with that show thesis by (simp add: Register_def)
qed

lemma readVecTotal_sum: "readVecTotal vs = sum_list (map readValue vs)"
proof -
  have "fold (\<lambda>v total. total + readValue v) vs a = a + sum_list (map readValue vs)" for a
    by (induction vs arbitrary: a) simp_all
  then show ?thesis by (simp add: readVecTotal_def)
qed

end
