(* ===== verification/Conn.thy ===== *)
theory Conn
  imports Frames Auth Hub_Channel Sweep_Race Policy Ratelimit Hub Fanout Metrics
begin

text \<open>
  \<open>internal/conn\<close>: one connection's life (\<open>Run\<close>), its two pumps, and the handlers of the client
  protocol, over a \<open>world\<close> that holds everything a handler can reach: the registry and its channels,
  the replay cache, the rate limiter, the fanout, the hub, the metrics and all connections.

  A handler is a function, composed of the critical sections it consists of, each a definition of its
  own; \<open>Sections\<close> runs the sections of all goroutines in any order. \<open>itf\<close> is what the garbage collector
  does to the registry between \<open>GetOrCreate\<close> and \<open>Subscribe\<close> in each round of the retry loop, \<open>env\<close> holds
  the readings of the clock and the fresh ULID. The calls on the WebSocket and on
  the TCP connection are recorded in \<open>ws_log\<close>; the library behind them is not modelled, and its
  results are arguments of the pump steps.
\<close>

subsection \<open>State\<close>

definition sendChanSize :: nat where "sendChanSize = 64"

definition defaultMaxChannelsPerConn :: nat where "defaultMaxChannelsPerConn = 64"
definition defaultMaxSubsPerChannel :: nat where "defaultMaxSubsPerChannel = 10000"
definition defaultConnPublishRate :: int where "defaultConnPublishRate = 50"
definition defaultConnPublishBurst :: int where "defaultConnPublishBurst = 100"
definition defaultConnControlRate :: int where "defaultConnControlRate = 20"
definition defaultConnControlBurst :: int where "defaultConnControlBurst = int defaultMaxChannelsPerConn"

datatype ws_call = WsClose nat string | WsCloseNow | WsWrite bytes | WsPing | NetClose

text \<open>
  \<open>closeReq\<close> says whether the one-element channel is full, \<open>cancelled\<close> whether \<open>runCtx\<close> is, \<open>netConn\<close>
  whether \<open>Run\<close> found a TCP connection in its context. \<open>running\<close> holds while the pumps run.
\<close>

record 'l conn =
  socketID :: string
  apiKeyID :: string
  send :: "bytes list"
  connRate :: 'l
  controlRate :: 'l
  conn_policy :: policy
  closeReq :: bool
  cancelled :: bool
  netConn :: bool
  subs :: "(string, chref) gomap"
  closed :: bool
  maxChannels :: nat
  ws_log :: "ws_call list"
  running :: bool

record 'l world =
  reg :: registry
  chans :: "channel list"
  signingSecret :: string
  cache :: "replay_cache option"
  rlim :: "'l limiter"
  fan :: fanout
  hubst :: hub
  mets :: metrics
  conns :: "cid \<Rightarrow> 'l conn"

record env =
  now_control :: int
  now_publish :: int
  now_key :: int
  now_key' :: int
  now_token :: int
  now_start :: int
  now_end :: int
  fresh_ulid :: string

definition upd_conn :: "cid \<Rightarrow> ('l conn \<Rightarrow> 'l conn) \<Rightarrow> 'l world \<Rightarrow> 'l world" where
  "upd_conn c f w = w\<lparr>conns := (conns w)(c := f (conns w c))\<rparr>"

definition count :: "metric_call \<Rightarrow> 'l world \<Rightarrow> 'l world" where
  "count m w = w\<lparr>mets := metric m (mets w)\<rparr>"

definition ws_call :: "cid \<Rightarrow> ws_call \<Rightarrow> 'l world \<Rightarrow> 'l world" where
  "ws_call c a = upd_conn c (\<lambda>k. k\<lparr>ws_log := ws_log k @ [a]\<rparr>)"

subsection \<open>Replies and delivery\<close>

text \<open>The non-blocking send on \<open>c.send\<close>; a reply that finds the buffer full is dropped.\<close>

definition reply :: "cid \<Rightarrow> bytes \<Rightarrow> 'l world \<Rightarrow> 'l world" where
  "reply c b = upd_conn c (\<lambda>k. k\<lparr>send := fst (try_send sendChanSize (send k) b)\<rparr>)"

definition sendAck :: "cid \<Rightarrow> string \<Rightarrow> string \<Rightarrow> 'l world \<Rightarrow> 'l world" where
  "sendAck c typ channel = reply c (ack_frame typ channel)"

definition sendErrorFrame :: "cid \<Rightarrow> errorFrame \<Rightarrow> 'l world \<Rightarrow> 'l world" where
  "sendErrorFrame c f = reply c (marshal_errorFrame f)"

definition sendError :: "cid \<Rightarrow> string \<Rightarrow> string \<Rightarrow> 'l world \<Rightarrow> 'l world" where
  "sendError c code message = sendErrorFrame c (error_frame code message)"

definition sendOpError :: "cid \<Rightarrow> incoming \<Rightarrow> string \<Rightarrow> string \<Rightarrow> 'l world \<Rightarrow> 'l world" where
  "sendOpError c msg code message = sendErrorFrame c (op_error_frame msg code message)"

text \<open>
  \<open>sendMu\<close> keeps other \<open>Send\<close>s out, but the write pump and the replies run between the steps of
  \<open>PolicyDropOldest\<close>: \<open>gap1\<close> and \<open>gap2\<close> are what they do to the buffer. \<open>Conn_Send\<close> is the run in which they
  do nothing there.
\<close>

definition Conn_Send_gaps :: "(bytes list \<Rightarrow> bytes list) \<Rightarrow> (bytes list \<Rightarrow> bytes list) \<Rightarrow> cid \<Rightarrow> bytes \<Rightarrow> 'l world \<Rightarrow> send_error option \<times> 'l world" where
  "Conn_Send_gaps gap1 gap2 c b w =
    (if closed (conns w c) then (Some ErrSlowConsumer, w)
     else let (err, q) = policy_Apply (conn_policy (conns w c)) sendChanSize gap1 gap2 (send (conns w c)) b;
              w1 = upd_conn c (\<lambda>k. k\<lparr>send := q\<rparr>) w
          in if err = Some ErrSlowConsumer
             then (err, upd_conn c (\<lambda>k. k\<lparr>closeReq := True\<rparr>) (count (Dropped_Inc ''slow_consumer'') w1))
             else (err, w1))"

definition Conn_Send :: "cid \<Rightarrow> bytes \<Rightarrow> 'l world \<Rightarrow> send_error option \<times> 'l world" where
  "Conn_Send c b w = Conn_Send_gaps id id c b w"

lemmas Conn_Send_unfold = Conn_Send_def Conn_Send_gaps_def

text \<open>\<open>Conn.Close\<close> is a no-op.\<close>

definition Conn_Close :: "cid \<Rightarrow> 'l world \<Rightarrow> 'l world" where
  "Conn_Close c w = w"

abbreviation deliver :: "cid \<Rightarrow> bytes \<Rightarrow> 'l world \<Rightarrow> 'l world" where
  "deliver c b w \<equiv> snd (Conn_Send c b w)"

definition APIKeyID :: "'l world \<Rightarrow> cid \<Rightarrow> string" where
  "APIKeyID w c = apiKeyID (conns w c)"

definition world_Broadcast :: "chref \<Rightarrow> bytes \<Rightarrow> 'l world \<Rightarrow> 'l world" where
  "world_Broadcast ch msg w =
    (case fan_Broadcast deliver (chans w) ch msg (fan w, w) of (f, w') \<Rightarrow> w'\<lparr>fan := f\<rparr>)"

subsection \<open>Handlers\<close>

definition allowKey :: "'l rate_ops \<Rightarrow> env \<Rightarrow> cid \<Rightarrow> 'l world \<Rightarrow> bool \<times> 'l world" where
  "allowKey ops e c w =
    (case Limiter_Allow ops (now_key e) (now_key' e) (apiKeyID (conns w c)) (rlim w) of
       (ok, l) \<Rightarrow> (ok, w\<lparr>rlim := l\<rparr>))"

definition allowControl :: "'l rate_ops \<Rightarrow> env \<Rightarrow> cid \<Rightarrow> incoming \<Rightarrow> 'l world \<Rightarrow> bool \<times> 'l world" where
  "allowControl ops e c msg w =
    (let (ok, b) = rate_Allow ops (now_control e) (controlRate (conns w c));
         w1 = upd_conn c (\<lambda>k. k\<lparr>controlRate := b\<rparr>) w
     in if \<not> ok then (False, sendOpError c msg ''RATE_LIMITED_CONN'' ''too many control ops on this connection'' w1)
        else let (ok', w2) = allowKey ops e c w1
        in if \<not> ok' then (False, sendOpError c msg ''RATE_LIMITED'' ''too many control ops'' w2)
           else (True, w2))"

text \<open>The rounds left, the interference of each, and the result of the last round so far.\<close>

fun subscribe_loop ::
  "nat \<Rightarrow> (nat \<Rightarrow> registry \<times> channel list \<Rightarrow> registry \<times> channel list) \<Rightarrow> string \<Rightarrow> cid \<Rightarrow>
   sub_error option \<times> chref \<Rightarrow> registry \<times> channel list \<Rightarrow> (sub_error option \<times> chref) \<times> registry \<times> channel list" where
  "subscribe_loop 0 itf name c res st = (res, st)"
| "subscribe_loop (Suc n) itf name c res st =
    (let (ch, st1) = reg_GetOrCreate name st;
         (r2, h2) = itf n st1;
         (err, h3) = hub_Subscribe ch c defaultMaxSubsPerChannel h2
     in case err of
          None \<Rightarrow> ((None, ch), r2, h3)
        | Some ErrChannelDeleted \<Rightarrow> subscribe_loop n itf name c (err, ch) (r2, h3)
        | Some ErrTooManySubs \<Rightarrow> ((err, ch), r2, h3))"

fun sub_error_text :: "sub_error \<Rightarrow> string" where
  "sub_error_text ErrTooManySubs = ''too many subscribers''"
| "sub_error_text ErrChannelDeleted = ''channel deleted''"

text \<open>
  The critical sections on a connection's own map (\<open>subsMu\<close>) and on a channel's subscribers (\<open>SubsMu\<close>)
  that the handlers and \<open>Run\<close> consist of.
\<close>

definition at_channel_limit :: "'l conn \<Rightarrow> bool" where
  [simp]: "at_channel_limit k \<longleftrightarrow> length (subs k) \<ge> maxChannels k"

definition own_put :: "string \<Rightarrow> chref \<Rightarrow> cid \<Rightarrow> 'l world \<Rightarrow> 'l world" where
  [simp]: "own_put n ch c w = upd_conn c (\<lambda>k. k\<lparr>subs := gm_put n ch (subs k)\<rparr>) w"

definition own_del :: "string \<Rightarrow> cid \<Rightarrow> 'l world \<Rightarrow> 'l world" where
  [simp]: "own_del n c w = upd_conn c (\<lambda>k. k\<lparr>subs := gm_del n (subs k)\<rparr>) w"

definition own_clear :: "cid \<Rightarrow> 'l world \<Rightarrow> 'l world" where
  [simp]: "own_clear c w = upd_conn c (\<lambda>k. k\<lparr>subs := []\<rparr>) w"

definition leave_channel :: "cid \<Rightarrow> chref \<Rightarrow> 'l world \<Rightarrow> 'l world" where
  [simp]: "leave_channel c ch w = w\<lparr>chans := hub_Unsubscribe ch c (chans w)\<rparr>"

definition leave_all :: "cid \<Rightarrow> chref list \<Rightarrow> 'l world \<Rightarrow> 'l world" where
  "leave_all c chs w = fold (leave_channel c) chs w"

lemma leave_all_eq [simp]: "leave_all c chs w = w\<lparr>chans := fold (\<lambda>ch. hub_Unsubscribe ch c) chs (chans w)\<rparr>"
  unfolding leave_all_def by (induction chs arbitrary: w) simp_all

text \<open>The token check of \<open>handleSubscribe\<close>: whether to go on, and the world after it.\<close>

definition checkToken :: "env \<Rightarrow> cid \<Rightarrow> incoming \<Rightarrow> 'l world \<Rightarrow> bool \<times> 'l world" where
  "checkToken e c msg w =
    (if ChannelRequiresAuth (msg_Channel msg)
     then case VerifyTokenAgainst (now_token e) (signingSecret w) (socketID (conns w c)) (msg_Channel msg) (msg_Token msg) (cache w) of
         (None, cache') \<Rightarrow> (True, w\<lparr>cache := cache'\<rparr>)
       | (Some err, cache') \<Rightarrow>
          let w1 = count AuthFails_Inc (w\<lparr>cache := cache'\<rparr>) in
          (False, if err = ErrTokenReplayed then sendOpError c msg ''AUTH_REPLAYED'' ''token already used'' w1
                  else sendOpError c msg ''AUTH_FAILED'' ''invalid token'' w1)
     else (True, w))"

definition joinChannel :: "(nat \<Rightarrow> registry \<times> channel list \<Rightarrow> registry \<times> channel list) \<Rightarrow> cid \<Rightarrow> incoming \<Rightarrow> 'l world \<Rightarrow> 'l world" where
  "joinChannel itf c msg w =
    (if at_channel_limit (conns w c)
     then sendOpError c msg ''LIMIT_CHANNELS'' ''max channels per conn'' w
     else let ((err, ch), r, h) = subscribe_loop maxSubscribeRetries itf (msg_Channel msg) c (None, 0) (reg w, chans w);
              w1 = w\<lparr>reg := r, chans := h\<rparr>
          in case err of
               Some ErrTooManySubs \<Rightarrow> sendOpError c msg ''LIMIT_SUBSCRIBERS'' ''max subscribers per channel'' w1
             | Some er \<Rightarrow> sendOpError c msg ''SUBSCRIBE_FAILED'' (sub_error_text er) w1
             | None \<Rightarrow> sendAck c ''subscribed'' (msg_Channel msg)
                         (own_put (msg_Channel msg) ch c w1))"

definition handleSubscribe ::
  "'l rate_ops \<Rightarrow> (nat \<Rightarrow> registry \<times> channel list \<Rightarrow> registry \<times> channel list) \<Rightarrow> env \<Rightarrow> cid \<Rightarrow> incoming \<Rightarrow> 'l world \<Rightarrow> 'l world" where
  "handleSubscribe ops itf e c msg w =
    (if channelReserved (msg_Channel msg) \<and> \<not> reservedSubscribeAllowed (msg_Channel msg)
     then sendOpError c msg ''RESERVED_CHANNEL'' ''channel name reserved for server use'' w
     else case allowControl ops e c msg w of
         (False, w1) \<Rightarrow> w1
       | (True, w1) \<Rightarrow>
          if gm_get (subs (conns w1 c)) (msg_Channel msg) \<noteq> None
          then sendAck c ''subscribed'' (msg_Channel msg) w1
          else case checkToken e c msg w1 of
              (False, w2) \<Rightarrow> w2
            | (True, w2) \<Rightarrow> joinChannel itf c msg w2)"

definition handlePublish :: "'l rate_ops \<Rightarrow> env \<Rightarrow> cid \<Rightarrow> incoming \<Rightarrow> 'l world \<Rightarrow> 'l world" where
  "handlePublish ops e c msg w =
    (if channelReserved (msg_Channel msg)
     then sendOpError c msg ''RESERVED_CHANNEL'' ''channel name reserved for server use'' w
     else case gm_get (subs (conns w c)) (msg_Channel msg) of
         None \<Rightarrow> sendOpError c msg ''NOT_SUBSCRIBED'' ''must subscribe before publish'' w
       | Some ch \<Rightarrow>
          let (ok, b) = rate_Allow ops (now_publish e) (connRate (conns w c));
              w1 = upd_conn c (\<lambda>k. k\<lparr>connRate := b\<rparr>) w
          in if \<not> ok then sendOpError c msg ''RATE_LIMITED_CONN'' ''too many publishes on this connection'' w1
             else let (ok', w2) = allowKey ops e c w1
             in if \<not> ok' then sendOpError c msg ''RATE_LIMITED'' ''too many publishes for this API key'' w2
                else let out = event_frame (msg_Channel msg) (msg_Data msg) (fresh_ulid e)
                     in count (Latency_Observe (now_end e - now_start e))
                          (world_Broadcast ch out (count Published_Inc w2)))"

definition handleUnsubscribe :: "'l rate_ops \<Rightarrow> env \<Rightarrow> cid \<Rightarrow> incoming \<Rightarrow> 'l world \<Rightarrow> 'l world" where
  "handleUnsubscribe ops e c msg w =
    (case allowControl ops e c msg w of
       (False, w1) \<Rightarrow> w1
     | (True, w1) \<Rightarrow>
        (case gm_get (subs (conns w1 c)) (msg_Channel msg) of
           None \<Rightarrow> sendAck c ''unsubscribed'' (msg_Channel msg) w1
         | Some ch \<Rightarrow>
            sendAck c ''unsubscribed'' (msg_Channel msg) (leave_channel c ch (own_del (msg_Channel msg) c w1))))"

definition handle ::
  "'l rate_ops \<Rightarrow> (nat \<Rightarrow> registry \<times> channel list \<Rightarrow> registry \<times> channel list) \<Rightarrow> env \<Rightarrow> cid \<Rightarrow> bytes \<Rightarrow> 'l world \<Rightarrow> 'l world" where
  "handle ops itf e c raw w =
    (if \<not> utf8_Valid raw then sendError c ''BAD_JSON'' ''message is not valid UTF-8'' w
     else case Unmarshal_incoming raw of
         None \<Rightarrow> sendError c ''BAD_JSON'' ''malformed message'' w
       | Some msg \<Rightarrow>
          case (if msg_Type msg \<in> {''subscribe'', ''unsubscribe'', ''publish''}
                then ValidateChannelName (msg_Channel msg) else None) of
            Some err \<Rightarrow> sendOpError c msg ''BAD_CHANNEL'' err w
          | None \<Rightarrow>
             if msg_Type msg = ''subscribe'' then handleSubscribe ops itf e c msg w
             else if msg_Type msg = ''unsubscribe'' then handleUnsubscribe ops e c msg w
             else if msg_Type msg = ''publish'' then handlePublish ops e c msg w
             else sendError c ''BAD_TYPE'' ''unknown message type'' w)"

subsection \<open>Closing\<close>

text \<open>The timer that closes the TCP connection under a stuck handshake is \<open>closeHandshakeTimeout\<close> later; see \<open>closeNetConn\<close>.\<close>

definition Conn_CloseFrame :: "cid \<Rightarrow> nat \<Rightarrow> string \<Rightarrow> 'l world \<Rightarrow> 'l world" where
  "Conn_CloseFrame c code reason = ws_call c (WsClose code reason)"

definition closeNetConn :: "cid \<Rightarrow> 'l world \<Rightarrow> 'l world" where
  "closeNetConn c w = (if netConn (conns w c) then ws_call c NetClose w else w)"

definition cancel :: "cid \<Rightarrow> 'l world \<Rightarrow> 'l world" where
  "cancel c = upd_conn c (\<lambda>k. k\<lparr>cancelled := True\<rparr>)"

definition Conn_CloseNow :: "cid \<Rightarrow> 'l world \<Rightarrow> 'l world" where
  "Conn_CloseNow c w = closeNetConn c (cancel c w)"

subsection \<open>Run\<close>

definition new_conn :: "'l rate_ops \<Rightarrow> policy \<Rightarrow> bool \<Rightarrow> string \<Rightarrow> string \<Rightarrow> 'l conn" where
  "new_conn ops p nc sid key =
    \<lparr>socketID = sid, apiKeyID = key, send = [],
     connRate = NewLimiter ops defaultConnPublishRate defaultConnPublishBurst,
     controlRate = NewLimiter ops defaultConnControlRate defaultConnControlBurst,
     conn_policy = p, closeReq = False, cancelled = False, netConn = nc, subs = [], closed = False,
     maxChannels = defaultMaxChannelsPerConn, ws_log = [], running = False\<rparr>"

lemma new_conn_socketID [simp]: "socketID (new_conn ops p nc sid key) = sid"
  by (simp add: new_conn_def)

text \<open>
  The sections of \<open>Run\<close>: the connection exists and is counted; \<open>Hub.Add\<close>; the greeting, which starts the
  pumps; and at the end \<open>closed\<close>, \<open>Hub.Remove\<close>, and the count taken back. \<open>c.subs = nil\<close> is \<open>own_clear\<close>.
\<close>

definition Run_enter :: "'l rate_ops \<Rightarrow> policy \<Rightarrow> bool \<Rightarrow> cid \<Rightarrow> string \<Rightarrow> string \<Rightarrow> 'l world \<Rightarrow> 'l world" where
  [simp]: "Run_enter ops p nc c sid key w = count Connections_Inc (w\<lparr>conns := (conns w)(c := new_conn ops p nc sid key)\<rparr>)"

definition Run_add :: "cid \<Rightarrow> 'l world \<Rightarrow> close_error option \<times> 'l world" where
  [simp]: "Run_add c w = (case hub_Add (APIKeyID w) c (hubst w) of (ce, h) \<Rightarrow> (ce, w\<lparr>hubst := h\<rparr>))"

definition Run_hello :: "cid \<Rightarrow> 'l world \<Rightarrow> bool \<times> 'l world" where
  [simp]: "Run_hello c w =
    (case try_send sendChanSize (send (conns w c)) (hello_frame (socketID (conns w c))) of
       (q, True) \<Rightarrow> (True, upd_conn c (\<lambda>k. k\<lparr>send := q, running := True\<rparr>) w)
     | (q, False) \<Rightarrow> (False, ws_call c (WsClose 1011 ''send chan full at start'') w))"

definition Run_closed :: "cid \<Rightarrow> 'l world \<Rightarrow> 'l world" where
  [simp]: "Run_closed c w = upd_conn c (\<lambda>k. k\<lparr>running := False, closed := True\<rparr>) w"

definition Run_remove :: "cid \<Rightarrow> 'l world \<Rightarrow> 'l world" where
  [simp]: "Run_remove c w = w\<lparr>hubst := hub_Remove c (hubst w)\<rparr>"

definition Run_leave :: "cid \<Rightarrow> 'l world \<Rightarrow> 'l world" where
  [simp]: "Run_leave c w = cancel c (count Connections_Dec w)"

text \<open>
  \<open>Run\<close> up to the start of the pumps. The result says whether they started; when they did not, \<open>Run\<close>
  has returned and its deferred calls have run.
\<close>

definition Run_start :: "'l rate_ops \<Rightarrow> policy \<Rightarrow> bool \<Rightarrow> cid \<Rightarrow> string \<Rightarrow> string \<Rightarrow> 'l world \<Rightarrow> bool \<times> 'l world" where
  "Run_start ops p nc c sid key w =
    (case Run_add c (Run_enter ops p nc c sid key w) of
       (Some (code, reason), w1) \<Rightarrow> (False, Run_leave c (Conn_CloseFrame c code reason w1))
     | (None, w1) \<Rightarrow>
        (case Run_hello c w1 of
           (True, w2) \<Rightarrow> (True, w2)
         | (False, w2) \<Rightarrow> (False, Run_leave c (Run_remove c w2))))"

text \<open>
  \<open>Run\<close> from the moment a pump has returned or \<open>closeReq\<close> was signalled (\<open>slow\<close>), to its end.
\<close>

definition Run_finish :: "bool \<Rightarrow> cid \<Rightarrow> 'l world \<Rightarrow> 'l world" where
  "Run_finish slow c w =
    (let w1 = cancel c (if slow then Conn_CloseFrame c StatusPolicyViolation ''slow consumer'' w else w);
         w2 = closeNetConn c (ws_call c WsCloseNow w1);
         w3 = Run_closed c w2;
         chs = map snd (subs (conns w3 c))
     in Run_leave c (Run_remove c (leave_all c chs (own_clear c w3))))"

subsection \<open>Pumps\<close>

text \<open>
  One turn of \<open>writePump\<close>'s loop: the case its \<open>select\<close> took and what the library call returned.
  \<open>c.send\<close> is never closed, so the receive always yields a message. The result says whether the pump
  returned.
\<close>

datatype write_event = CtxDone | Message bool | Tick bool

fun writePump_step :: "write_event \<Rightarrow> cid \<Rightarrow> 'l world \<Rightarrow> bool \<times> 'l world" where
  "writePump_step CtxDone c w = (True, w)"
| "writePump_step (Message ok) c w =
    (case send (conns w c) of
       [] \<Rightarrow> (False, w)
     | m # q \<Rightarrow> (\<not> ok, ws_call c (WsWrite m) (upd_conn c (\<lambda>k. k\<lparr>send := q\<rparr>) w)))"
| "writePump_step (Tick ok) c w = (\<not> ok, ws_call c WsPing w)"

text \<open>One turn of \<open>readPump\<close>: what \<open>Read\<close> returned, \<open>None\<close> for an error.\<close>

definition readPump_step ::
  "'l rate_ops \<Rightarrow> (nat \<Rightarrow> registry \<times> channel list \<Rightarrow> registry \<times> channel list) \<Rightarrow> env \<Rightarrow> bytes option \<Rightarrow> cid \<Rightarrow> 'l world \<Rightarrow> bool \<times> 'l world" where
  "readPump_step ops itf e res c w =
    (case res of None \<Rightarrow> (True, w) | Some raw \<Rightarrow> (False, handle ops itf e c raw w))"

text \<open>
  With \<open>SetReadLimit\<close> the library's \<open>Read\<close> fails on a message that is longer than the limit, so \<open>sent\<close>, a
  message of the peer, is handled only within it.
\<close>

definition readLimit :: nat where "readLimit = 64 * 1024"

definition limited_Read :: "bytes option \<Rightarrow> bytes option" where
  "limited_Read sent = (case sent of None \<Rightarrow> None | Some raw \<Rightarrow> if length raw > readLimit then None else Some raw)"

lemma oversize_ends_readPump:
  "readLimit < length raw \<Longrightarrow> readPump_step ops itf e (limited_Read (Some raw)) c w = (True, w)"
  by (simp add: limited_Read_def readPump_step_def)

end
