(* ===== verification/Conn_Inv.thy ===== *)
theory Conn_Inv
  imports Conn
begin

text \<open>
  What the handlers keep. \<open>subs_linked\<close> ties the two views of a subscription together: a connection's
  \<open>subs\<close> map and the channels' \<open>Subscribers\<close>. \<open>frame\<close> is the relation between worlds that differ
  only in queues, buckets, logs, counters, the cache and the fanout; most operations stay within it.
\<close>

declare map_of_eq_Some_iff [simp del] Some_eq_map_of_iff [simp del]

definition subs_linked :: "'l world \<Rightarrow> bool" where
  "subs_linked w \<longleftrightarrow> chans_wf (reg w, chans w) \<and> (\<forall>c. gm_ok (subs (conns w c))) \<and>
    (\<forall>c n ch. gm_get (subs (conns w c)) n = Some ch \<longleftrightarrow>
      ch < length (chans w) \<and> Name (chans w ! ch) = n \<and> c \<in> set (Subscribers (chans w ! ch)))"

definition bounded :: "'l world \<Rightarrow> bool" where
  "bounded w \<longleftrightarrow> (\<forall>c. length (send (conns w c)) \<le> sendChanSize \<and>
     length (subs (conns w c)) \<le> defaultMaxChannelsPerConn \<and>
     maxChannels (conns w c) = defaultMaxChannelsPerConn \<and> (\<not> running (conns w c) \<longrightarrow> subs (conns w c) = []))"

text \<open>\<open>calm\<close>: no connection starts or ends, and nothing is counted as one.\<close>

definition calm :: "'l world \<Rightarrow> 'l world \<Rightarrow> bool" where
  "calm w w' \<longleftrightarrow> hubst w' = hubst w \<and> (\<forall>c. running (conns w' c) = running (conns w c)) \<and>
    count_list (mcalls (mets w')) Connections_Inc = count_list (mcalls (mets w)) Connections_Inc \<and>
    count_list (mcalls (mets w')) Connections_Dec = count_list (mcalls (mets w)) Connections_Dec"

definition frame :: "'l world \<Rightarrow> 'l world \<Rightarrow> bool" where
  "frame w w' \<longleftrightarrow> calm w w' \<and> reg w' = reg w \<and> chans w' = chans w \<and> signingSecret w' = signingSecret w \<and>
    (\<forall>c. subs (conns w' c) = subs (conns w c) \<and> maxChannels (conns w' c) = maxChannels (conns w c) \<and>
      running (conns w' c) = running (conns w c) \<and> closed (conns w' c) = closed (conns w c) \<and>
      socketID (conns w' c) = socketID (conns w c) \<and> apiKeyID (conns w' c) = apiKeyID (conns w c) \<and>
      (length (send (conns w c)) \<le> sendChanSize \<longrightarrow> length (send (conns w' c)) \<le> sendChanSize))"

named_theorems frame_intros "operations that stay within the frame"

lemma frame_refl [frame_intros]: "frame w w"
  by (simp add: frame_def calm_def)

lemma calm_trans: "calm u v \<Longrightarrow> calm v w \<Longrightarrow> calm u w"
  by (simp add: calm_def)

lemma frame_trans: "frame u v \<Longrightarrow> frame v w \<Longrightarrow> frame u w"
  by (simp add: frame_def calm_def)

lemma frame_calm: "frame u v \<Longrightarrow> calm u v"
  by (simp add: frame_def)

lemma frame_linked: "frame w w' \<Longrightarrow> subs_linked w \<Longrightarrow> subs_linked w'"
  by (simp add: frame_def subs_linked_def)

lemma frame_bounded: "frame w w' \<Longrightarrow> bounded w \<Longrightarrow> bounded w'"
  by (simp add: frame_def bounded_def)

lemma conns_upd_conn [simp]: "conns (upd_conn c f w) d = (if d = c then f (conns w c) else conns w d)"
  by (simp add: upd_conn_def)

lemma upd_conn_simps [simp]:
  "reg (upd_conn c f w) = reg w" "chans (upd_conn c f w) = chans w" "signingSecret (upd_conn c f w) = signingSecret w"
  "cache (upd_conn c f w) = cache w" "rlim (upd_conn c f w) = rlim w" "fan (upd_conn c f w) = fan w"
  "hubst (upd_conn c f w) = hubst w" "mets (upd_conn c f w) = mets w"
  by (simp_all add: upd_conn_def)

lemma count_simps [simp]:
  "conns (count m w) = conns w" "reg (count m w) = reg w" "chans (count m w) = chans w"
  "signingSecret (count m w) = signingSecret w" "cache (count m w) = cache w" "rlim (count m w) = rlim w"
  "fan (count m w) = fan w" "hubst (count m w) = hubst w" "mcalls (mets (count m w)) = mcalls (mets w) @ [m]"
  by (simp_all add: count_def metric_def)

lemma reply_simps [simp]:
  "reg (reply c b w) = reg w" "chans (reply c b w) = chans w" "signingSecret (reply c b w) = signingSecret w"
  "cache (reply c b w) = cache w" "rlim (reply c b w) = rlim w" "fan (reply c b w) = fan w"
  "hubst (reply c b w) = hubst w" "mets (reply c b w) = mets w"
  by (simp_all add: reply_def)

lemmas reply_ops = sendAck_def sendErrorFrame_def sendError_def sendOpError_def

lemma frame_upd_conn:
  assumes "subs (f (conns w c)) = subs (conns w c)" "maxChannels (f (conns w c)) = maxChannels (conns w c)"
    "running (f (conns w c)) = running (conns w c)" "closed (f (conns w c)) = closed (conns w c)"
    "socketID (f (conns w c)) = socketID (conns w c)" "apiKeyID (f (conns w c)) = apiKeyID (conns w c)"
    "length (send (conns w c)) \<le> sendChanSize \<Longrightarrow> length (send (f (conns w c))) \<le> sendChanSize"
  shows "frame w (upd_conn c f w)"
  using assms by (simp add: frame_def calm_def)

lemma frame_count [frame_intros]: "m \<noteq> Connections_Inc \<Longrightarrow> m \<noteq> Connections_Dec \<Longrightarrow> frame w (count m w)"
  by (simp add: frame_def calm_def)

lemma frame_reply [frame_intros]: "frame w (reply c b w)"
  unfolding reply_def by (rule frame_upd_conn) (simp_all add: chan_simps)

lemma frame_replies [frame_intros]:
  "frame w (sendAck c t n w)" "frame w (sendError c code m w)" "frame w (sendOpError c msg code m w)"
  by (simp_all add: reply_ops frame_reply)

lemma frame_ws_call [frame_intros]: "frame w (ws_call c a w)"
  unfolding ws_call_def by (rule frame_upd_conn) simp_all

lemma frame_cancel [frame_intros]: "frame w (cancel c w)"
  unfolding cancel_def by (rule frame_upd_conn) simp_all

lemma frame_Send_gaps:
  assumes "\<And>x. length x \<le> sendChanSize \<Longrightarrow> length (g1 x) \<le> sendChanSize \<and> length (g2 x) \<le> sendChanSize"
  shows "frame w (snd (Conn_Send_gaps g1 g2 c b w))"
proof (cases "closed (conns w c)")
  case True
  then show ?thesis by (simp add: Conn_Send_gaps_def frame_refl)
next
  case False
  obtain err q where a: "policy_Apply (conn_policy (conns w c)) sendChanSize g1 g2 (send (conns w c)) b = (err, q)"
    by fastforce
  have q: "length (send (conns w c)) \<le> sendChanSize \<Longrightarrow> length q \<le> sendChanSize"
    using pol.bounded [of "send (conns w c)" sendChanSize g1 g2 "conn_policy (conns w c)" b] assms a by simp
  have "frame w (upd_conn c (\<lambda>k. k\<lparr>send := q\<rparr>) w)"
    by (rule frame_upd_conn) (simp_all add: q)
  moreover have "frame v (upd_conn c (\<lambda>k. k\<lparr>closeReq := True\<rparr>) v)" for v :: "'a world"
    by (rule frame_upd_conn) simp_all
  moreover have "frame v (count (Dropped_Inc x) v)" for v :: "'a world" and x by (rule frame_count) simp_all
  ultimately show ?thesis using False a frame_trans
    by (simp add: Conn_Send_gaps_def Let_def) blast
qed

lemma frame_Send [frame_intros]: "frame w (deliver c b w)"
  by (simp add: Conn_Send_def frame_Send_gaps)

interpretation fr: delivery deliver frame
  by unfold_locales (auto intro: frame_intros elim: frame_trans)

lemma frame_Broadcast [frame_intros]: "frame w (world_Broadcast ch msg w)"
  using fr.R_fan_Broadcast [of w "chans w" ch msg "fan w"]
  by (simp add: world_Broadcast_def frame_def calm_def case_prod_unfold)

lemma frame_allowKey [frame_intros]: "frame w (snd (allowKey ops e c w))"
  by (simp add: allowKey_def frame_def calm_def case_prod_unfold)

lemma frame_bucket [frame_intros]:
  "frame w (upd_conn c (\<lambda>k. k\<lparr>controlRate := b\<rparr>) w)" "frame w (upd_conn c (\<lambda>k. k\<lparr>connRate := b\<rparr>) w)"
  by (rule frame_upd_conn, simp_all)+

lemma frame_allowControl [frame_intros]: "frame w (snd (allowControl ops e c msg w))"
proof -
  obtain ok b where r: "rate_Allow ops (now_control e) (controlRate (conns w c)) = (ok, b)" by fastforce
  let ?w1 = "upd_conn c (\<lambda>k. k\<lparr>controlRate := b\<rparr>) w"
  obtain ok' w2 where k: "allowKey ops e c ?w1 = (ok', w2)" by fastforce
  have 1: "frame w ?w1" by (rule frame_bucket)
  have 2: "frame w w2" using frame_trans [OF 1] frame_allowKey [of ?w1 ops e c] k by simp
  show ?thesis using r k frame_trans [OF 1 frame_replies(3)] frame_trans [OF 2 frame_replies(3)] 2
    by (auto simp: allowControl_def Let_def)
qed

lemma frame_checkToken [frame_intros]: "frame w (snd (checkToken e c msg w))"
proof -
  have "frame w (w\<lparr>cache := x\<rparr>)" for x by (simp add: frame_def calm_def)
  then have 1: "frame w (count AuthFails_Inc (w\<lparr>cache := x\<rparr>))" for x
    by (rule frame_trans [OF _ frame_count]) simp_all
  show ?thesis
    using frame_trans [OF 1 frame_replies(3)] \<open>\<And>x. frame w (w\<lparr>cache := x\<rparr>)\<close>
    by (auto simp: checkToken_def Let_def frame_refl split: option.splits prod.splits)
qed

lemma frame_handlePublish [frame_intros]: "frame w (handlePublish ops e c msg w)"
proof -
  obtain ok b where r: "rate_Allow ops (now_publish e) (connRate (conns w c)) = (ok, b)" by fastforce
  let ?w1 = "upd_conn c (\<lambda>k. k\<lparr>connRate := b\<rparr>) w"
  obtain ok' w2 where k: "allowKey ops e c ?w1 = (ok', w2)" by fastforce
  have 1: "frame w ?w1" by (rule frame_bucket)
  have 2: "frame w w2" using frame_trans [OF 1] frame_allowKey [of ?w1 ops e c] k by simp
  have 3: "frame w (count (Latency_Observe x) (world_Broadcast ch out (count Published_Inc w2)))" for x ch out
    by (rule frame_trans [OF frame_trans [OF frame_trans [OF 2 frame_count] frame_Broadcast] frame_count]) simp_all
  show ?thesis
  proof (cases "gm_get (subs (conns w c)) (msg_Channel msg)")
    case None
    then show ?thesis by (simp add: handlePublish_def frame_replies)
  next
    case (Some ch)
    then show ?thesis
      using r k frame_trans [OF 1 frame_replies(3)] frame_trans [OF 2 frame_replies(3)] 3
      by (cases ok; cases ok') (simp_all add: handlePublish_def Let_def frame_replies)
  qed
qed

subsection \<open>Joining a channel\<close>

text \<open>
  Between \<open>GetOrCreate\<close> and \<open>Subscribe\<close> the garbage collector may or may not run.
\<close>

definition itf_ok :: "(nat \<Rightarrow> registry \<times> channel list \<Rightarrow> registry \<times> channel list) \<Rightarrow> bool" where
  "itf_ok itf \<longleftrightarrow> (\<forall>n st. itf n st = st \<or> itf n st = snd (Sweep st))"

text \<open>Channels keep their names and subscribers; new ones are empty.\<close>

definition grows :: "channel list \<Rightarrow> channel list \<Rightarrow> bool" where
  "grows h h' \<longleftrightarrow> length h \<le> length h' \<and>
    (\<forall>i < length h. Name (h' ! i) = Name (h ! i) \<and> Subscribers (h' ! i) = Subscribers (h ! i)) \<and>
    (\<forall>i < length h'. length h \<le> i \<longrightarrow> Subscribers (h' ! i) = [])"

lemma grows_refl: "grows h h"
  by (simp add: grows_def)

lemma grows_trans: "grows g h \<Longrightarrow> grows h k \<Longrightarrow> grows g k"
  unfolding grows_def by (smt (verit) le_trans less_le_trans linorder_not_less)

lemma grows_append: "\<forall>x \<in> set g. Subscribers x = [] \<Longrightarrow> grows h (h @ g)"
  by (auto simp: grows_def nth_append)

lemma itf_step:
  assumes "itf_ok itf" "chans_wf st"
  shows "chans_wf (itf n st) \<and> grows (snd st) (snd (itf n st))"
proof -
  obtain r h where st: "st = (r, h)" by (cases st)
  obtain k r' h' where sw: "Sweep (r, h) = (k, r', h')" by (metis prod_cases3)
  have wf: "chans_wf (r, h)" using assms(2) st by simp
  note S = Sweep_result [OF wf sw]
  have "grows h h'" using S by (auto simp: grows_def)
  moreover have "itf n st = st \<or> itf n st = (r', h')" using assms(1) st sw by (metis itf_ok_def snd_conv)
  ultimately show ?thesis using S assms(2) st grows_refl by auto
qed

text \<open>The channels after a successful subscribe: \<open>c\<close> was added to one channel of that name.\<close>

definition joined :: "channel list \<Rightarrow> string \<Rightarrow> cid \<Rightarrow> chref \<Rightarrow> channel list \<Rightarrow> bool" where
  "joined g name c ch h' \<longleftrightarrow>
    (\<exists>h. grows g h \<and> ch < length h \<and> Name (h ! ch) = name \<and> c \<notin> set (Subscribers (h ! ch)) \<and>
       length (Subscribers (h ! ch)) < defaultMaxSubsPerChannel \<and>
       h' = h[ch := (h ! ch)\<lparr>Subscribers := Subscribers (h ! ch) @ [c]\<rparr>])"

lemma joined_trans: "grows g h \<Longrightarrow> joined h name c ch h' \<Longrightarrow> joined g name c ch h'"
  unfolding joined_def using grows_trans by blast

lemma subscribe_loop_result:
  assumes "itf_ok itf" "chans_wf st" "subscribe_loop n itf name c res st = ((err, ch), r', h')"
    and "\<forall>i < length (snd st). Name (snd st ! i) = name \<longrightarrow> c \<notin> set (Subscribers (snd st ! i))"
  shows "chans_wf (r', h') \<and>
    (if err = None \<and> n > 0
     then joined (snd st) name c ch h'
     else grows (snd st) h')"
  using assms(2-)
proof (induction n arbitrary: res st)
  case 0
  then show ?case by (auto simp: grows_refl)
next
  case (Suc n)
  obtain r h where st: "st = (r, h)" by (cases st)
  obtain ch1 r1 h1 where g: "reg_GetOrCreate name (r, h) = (ch1, r1, h1)" by (metis prod_cases3)
  obtain r2 h2 where i: "itf n (r1, h1) = (r2, h2)" by fastforce
  note G = GetOrCreate_wf [OF Suc.prems(1) [unfolded st] g]
  have g1: "grows h h1" using G grows_append by blast
  have I: "chans_wf (r2, h2)" "grows h1 h2" using itf_step [OF assms(1), of "(r1, h1)" n] G i by auto
  have g2: "grows h h2" using grows_trans [OF g1 I(2)] .
  have ch1: "ch1 < length h2" "Name (h2 ! ch1) = name" using G I(2) by (auto simp: grows_def)
  have notin: "c \<notin> set (Subscribers (h2 ! j))" if "j < length h2" "Name (h2 ! j) = name" for j
    using g2 Suc.prems(3) that by (cases "j < length h") (auto simp: st grows_def)
  show ?case
  proof (cases rule: Subscribe_cases [of h2 ch1 c defaultMaxSubsPerChannel])
    case 1
    then have rec: "subscribe_loop n itf name c (Some ErrChannelDeleted, ch1) (r2, h2) = ((err, ch), r', h')"
      using Suc.prems(2) by (simp add: st g i)
    have err0: "err = Some ErrChannelDeleted" if "n = 0" using rec that by simp
    have "chans_wf (r', h') \<and> (if err = None \<and> n > 0 then joined h2 name c ch h' else grows h2 h')"
      using Suc.IH [OF I(1) rec] notin unfolding snd_conv by blast
    then show ?thesis using err0 g2 joined_trans [OF g2] grows_trans [OF g2] by (auto simp: st split: if_splits)
  next
    case 2
    then have "err = Some ErrTooManySubs" "(r', h') = (r2, h2)"
      using Suc.prems(2) by (auto simp: st g i)
    then show ?thesis using I g2 by (simp add: st)
  next
    case 3
    let ?h3 = "h2[ch1 := (h2 ! ch1)\<lparr>Subscribers := set_add c (Subscribers (h2 ! ch1))\<rparr>]"
    have res: "err = None" "ch = ch1" "r' = r2" "h' = ?h3"
      using 3 Suc.prems(2) by (auto simp: st g i)
    have add: "set_add c (Subscribers (h2 ! ch1)) = Subscribers (h2 ! ch1) @ [c]" using notin ch1 by simp
    have del: "reg_abs r2 name = Some ch1"
    proof -
      have "itf n (r1, h1) = (r1, h1) \<or> itf n (r1, h1) = snd (Sweep (r1, h1))" using assms(1) by (simp add: itf_ok_def)
      then show ?thesis
      proof
        assume "itf n (r1, h1) = (r1, h1)"
        then show ?thesis using i G by simp
      next
        assume a: "itf n (r1, h1) = snd (Sweep (r1, h1))"
        obtain k where "Sweep (r1, h1) = (k, r2, h2)" using a i by (metis prod.collapse snd_conv)
        note S = Sweep_result [OF conjunct1 [OF G] this]
        have "ch1 \<in> ran (reg_abs r1)" using G by (auto simp: ran_def)
        with S G 3(1) have "\<not> idle h1 ch1" by (auto split: if_splits)
        with S G show ?thesis by simp
      qed
    qed
    have "chans_wf (r2, snd (hub_Subscribe ch1 c defaultMaxSubsPerChannel h2))"
      by (rule Subscribe_wf) (use I del ch1 in auto)
    then have "chans_wf (r', h')" using 3(3) res by simp
    moreover have "joined (snd st) name c ch h'"
      unfolding joined_def using g2 ch1 notin 3(2) res add by (intro exI [of _ h2]) (simp add: st)
    ultimately show ?thesis using res by simp
  qed
qed

subsection \<open>Handlers keep the invariant\<close>

lemma linked_cong:
  "subs_linked w \<Longrightarrow> reg w' = reg w \<Longrightarrow> chans w' = chans w \<Longrightarrow> (\<And>c. subs (conns w' c) = subs (conns w c)) \<Longrightarrow> subs_linked w'"
  by (simp add: subs_linked_def)

lemma linkedD: "subs_linked w \<Longrightarrow> gm_get (subs (conns w c)) n = Some ch \<longleftrightarrow>
      ch < length (chans w) \<and> Name (chans w ! ch) = n \<and> c \<in> set (Subscribers (chans w ! ch))"
  by (simp add: subs_linked_def)

lemma linked_wf: "subs_linked w \<Longrightarrow> chans_wf (reg w, chans w)"
  by (simp add: subs_linked_def)

lemma linked_ok: "subs_linked w \<Longrightarrow> gm_ok (subs (conns w c))"
  by (simp add: subs_linked_def)

lemma linkedI:
  assumes "chans_wf (reg w, chans w)" "\<And>c. gm_ok (subs (conns w c))"
    "\<And>c n ch. gm_get (subs (conns w c)) n = Some ch \<longleftrightarrow>
      ch < length (chans w) \<and> Name (chans w ! ch) = n \<and> c \<in> set (Subscribers (chans w ! ch))"
  shows "subs_linked w"
  using assms by (simp add: subs_linked_def)

lemma linked_grows:
  assumes "subs_linked w" "chans_wf (r, h)" "grows (chans w) h"
  shows "subs_linked (w\<lparr>reg := r, chans := h\<rparr>)"
proof (rule linkedI)
  fix c n ch
  show "gm_get (subs (conns (w\<lparr>reg := r, chans := h\<rparr>) c)) n = Some ch \<longleftrightarrow>
      ch < length (chans (w\<lparr>reg := r, chans := h\<rparr>)) \<and> Name (chans (w\<lparr>reg := r, chans := h\<rparr>) ! ch) = n \<and>
      c \<in> set (Subscribers (chans (w\<lparr>reg := r, chans := h\<rparr>) ! ch))"
    using assms(3) linkedD [OF assms(1), of c n ch]
    by (cases "ch < length (chans w)") (auto simp: grows_def)
qed (simp_all add: assms(2) linked_ok [OF assms(1)])

lemma linked_joined:
  assumes "subs_linked w" "chans_wf (r, h')" "joined (chans w) n c ch h'" "gm_get (subs (conns w c)) n = None"
  shows "subs_linked (upd_conn c (\<lambda>k. k\<lparr>subs := gm_put n ch (subs k)\<rparr>) (w\<lparr>reg := r, chans := h'\<rparr>))" (is "subs_linked ?w")
proof -
  obtain h where h: "grows (chans w) h" "ch < length h" "Name (h ! ch) = n" "c \<notin> set (Subscribers (h ! ch))"
    and h': "h' = h[ch := (h ! ch)\<lparr>Subscribers := Subscribers (h ! ch) @ [c]\<rparr>]"
    using assms(3) unfolding joined_def by blast
  have old: "gm_get (subs (conns w d)) m = Some x \<longleftrightarrow> x < length h \<and> Name (h ! x) = m \<and> d \<in> set (Subscribers (h ! x))" for d m x
    using h(1) linkedD [OF assms(1), of d m x] by (cases "x < length (chans w)") (auto simp: grows_def)
  have nth: "h' ! x = (if x = ch then (h ! ch)\<lparr>Subscribers := Subscribers (h ! ch) @ [c]\<rparr> else h ! x)" for x
    using h(2) by (simp add: h' nth_list_update)
  have len: "length h' = length h" by (simp add: h')
  show ?thesis
  proof (rule linkedI)
    fix d m x
    show "gm_get (subs (conns ?w d)) m = Some x \<longleftrightarrow>
      x < length (chans ?w) \<and> Name (chans ?w ! x) = m \<and> d \<in> set (Subscribers (chans ?w ! x))"
    proof (cases "d = c")
      case False
      then show ?thesis using old [of d m x] h(2) by (auto simp: nth len)
    next
      case True
      show ?thesis
      proof (cases "m = n")
        case True
        have "x < length h \<and> Name (h ! x) = n \<longrightarrow> c \<notin> set (Subscribers (h ! x))"
          using old [of c n x] assms(4) by auto
        with \<open>d = c\<close> True show ?thesis using h by (auto simp: nth len)
      next
        case False
        with \<open>d = c\<close> show ?thesis using old [of c m x] h by (auto simp: nth len)
      qed
    qed
  next
    fix d show "gm_ok (subs (conns ?w d))" using linked_ok [OF assms(1)] by simp
  qed (simp add: assms(2))
qed

definition winv :: "'l world \<Rightarrow> bool" where
  "winv w \<longleftrightarrow> subs_linked w \<and> bounded w"

lemma winv_frame: "frame w w' \<Longrightarrow> winv w \<Longrightarrow> winv w'"
  using frame_linked frame_bounded by (auto simp: winv_def)

lemma winv_count: "winv (count m w) = winv w"
  by (simp add: winv_def subs_linked_def bounded_def)

lemma winv_replies:
  "winv w \<Longrightarrow> winv (sendAck c t n w)" "winv w \<Longrightarrow> winv (sendError c code m w)"
  "winv w \<Longrightarrow> winv (sendOpError c msg code m w)"
  by (rule winv_frame, rule frame_replies, assumption)+

lemma joinChannel_inv:
  assumes "winv w" "itf_ok itf" "running (conns w c)" "gm_get (subs (conns w c)) (msg_Channel msg) = None"
  shows "winv (joinChannel itf c msg w)"
proof (cases "length (subs (conns w c)) \<ge> maxChannels (conns w c)")
  case True
  then show ?thesis using assms by (simp add: joinChannel_def winv_replies)
next
  case False
  have l0: "subs_linked w" "bounded w" using assms(1) by (simp_all add: winv_def)
  obtain err ch r h where l: "subscribe_loop maxSubscribeRetries itf (msg_Channel msg) c (None, 0) (reg w, chans w) = ((err, ch), r, h)"
    by (metis prod_cases3 prod.collapse)
  have "\<forall>i < length (chans w). Name (chans w ! i) = msg_Channel msg \<longrightarrow> c \<notin> set (Subscribers (chans w ! i))"
    using linkedD [OF l0(1), of c "msg_Channel msg"] assms(4) by auto
  note S = subscribe_loop_result [OF assms(2) linked_wf [OF l0(1)] l, simplified, OF this]
  let ?w1 = "w\<lparr>reg := r, chans := h\<rparr>"
  have b1: "bounded ?w1" using l0(2) by (simp add: bounded_def)
  show ?thesis
  proof (cases err)
    case None
    let ?w2 = "upd_conn c (\<lambda>k. k\<lparr>subs := gm_put (msg_Channel msg) ch (subs k)\<rparr>) ?w1"
    have "subs_linked ?w2"
      using S None l0 assms(4) by (intro linked_joined) (auto simp: maxSubscribeRetries_def)
    moreover have "bounded ?w2"
      using l0(2) assms(3,4) False by (auto simp: bounded_def gm_length_put)
    ultimately have "winv ?w2" by (simp add: winv_def)
    then show ?thesis using None False l by (simp add: joinChannel_def winv_replies)
  next
    case (Some er)
    have "subs_linked ?w1" using S Some l0(1) by (intro linked_grows) auto
    then have "winv ?w1" using b1 by (simp add: winv_def)
    then show ?thesis using Some False l by (cases er) (simp_all add: joinChannel_def winv_replies)
  qed
qed

lemma frame_keeps:
  "frame w w' \<Longrightarrow> subs (conns w' c) = subs (conns w c)" "frame w w' \<Longrightarrow> running (conns w' c) = running (conns w c)"
  "frame w w' \<Longrightarrow> socketID (conns w' c) = socketID (conns w c)" "frame w w' \<Longrightarrow> signingSecret w' = signingSecret w"
  "frame w w' \<Longrightarrow> chans w' = chans w" "frame w w' \<Longrightarrow> reg w' = reg w"
  by (simp_all add: frame_def)

lemma handleSubscribe_inv:
  assumes "winv w" "itf_ok itf" "running (conns w c)"
  shows "winv (handleSubscribe ops itf e c msg w)"
proof -
  obtain ok w1 where a: "allowControl ops e c msg w = (ok, w1)" by fastforce
  have f1: "frame w w1" using frame_allowControl [of w ops e c msg] a by simp
  obtain ok2 w2 where t: "checkToken e c msg w1 = (ok2, w2)" by fastforce
  have f2: "frame w w2" using frame_trans [OF f1] frame_checkToken [of w1 e c msg] t by simp
  have "winv (joinChannel itf c msg w2)" if "gm_get (subs (conns w1 c)) (msg_Channel msg) = None"
    using that assms winv_frame [OF f2] frame_keeps(1,2) [OF f1] frame_keeps(1,2) [OF f2]
    by (intro joinChannel_inv) auto
  moreover have "winv w1" "winv w2" using winv_frame f1 f2 assms(1) by blast+
  ultimately show ?thesis
    using a t assms(1) by (cases ok; cases ok2) (simp_all add: handleSubscribe_def winv_replies)
qed

lemma fold_Unsubscribe_length [simp]: "length (fold (\<lambda>ch. hub_Unsubscribe ch c) chs h) = length h"
  by (induction chs arbitrary: h) auto

lemma fold_Unsubscribe_nth:
  "\<forall>ch \<in> set chs. ch < length h \<Longrightarrow> fold (\<lambda>ch. hub_Unsubscribe ch c) chs h ! d =
     (if d \<in> set chs then (h ! d)\<lparr>Subscribers := set_del c (Subscribers (h ! d))\<rparr> else h ! d)"
proof (induction chs arbitrary: h)
  case (Cons x chs)
  then show ?case by (auto simp: Unsubscribe_nth)
qed simp

lemma fold_Unsubscribe_wf: "chans_wf (r, h) \<Longrightarrow> chans_wf (r, fold (\<lambda>ch. hub_Unsubscribe ch c) chs h)"
  by (induction chs arbitrary: h) (auto intro: Unsubscribe_wf)

lemma linked_left:
  assumes "subs_linked w" "\<forall>n ch. (n, ch) \<in> set gone \<longrightarrow> gm_get (subs (conns w c)) n = Some ch"
    "gm_ok s" "\<And>n. gm_get s n = (if n \<in> fst ` set gone then None else gm_get (subs (conns w c)) n)"
  shows "subs_linked ((upd_conn c (\<lambda>k. k\<lparr>subs := s\<rparr>) w)\<lparr>chans := fold (\<lambda>ch. hub_Unsubscribe ch c) (map snd gone) (chans w)\<rparr>)" (is "subs_linked ?w")
proof (rule linkedI)
  let ?h = "fold (\<lambda>ch. hub_Unsubscribe ch c) (map snd gone) (chans w)"
  have in_h: "\<forall>ch \<in> set (map snd gone). ch < length (chans w)"
  proof
    fix ch assume "ch \<in> set (map snd gone)"
    then obtain n where "(n, ch) \<in> set gone" by auto
    with assms(2) have "gm_get (subs (conns w c)) n = Some ch" by blast
    then show "ch < length (chans w)" using linkedD [OF assms(1), of c n ch] by simp
  qed
  note nth = fold_Unsubscribe_nth [OF in_h, of c]
  fix d n ch
  have "ch \<in> snd ` set gone \<longleftrightarrow> n \<in> fst ` set gone" if "gm_get (subs (conns w c)) n = Some ch"
  proof
    assume "ch \<in> snd ` set gone"
    then obtain m where "(m, ch) \<in> set gone" by auto
    then have "gm_get (subs (conns w c)) m = Some ch" using assms(2) by blast
    then have "m = n" using that linkedD [OF assms(1), of c n ch] linkedD [OF assms(1), of c m ch] by simp
    then show "n \<in> fst ` set gone" using \<open>(m, ch) \<in> set gone\<close> by force
  next
    assume "n \<in> fst ` set gone"
    then obtain x where "(n, x) \<in> set gone" by auto
    moreover then have "x = ch" using assms(2) that by auto
    ultimately show "ch \<in> snd ` set gone" by force
  qed
  then show "gm_get (subs (conns ?w d)) n = Some ch \<longleftrightarrow>
      ch < length (chans ?w) \<and> Name (chans ?w ! ch) = n \<and> d \<in> set (Subscribers (chans ?w ! ch))"
    using linkedD [OF assms(1), of d n ch] linkedD [OF assms(1), of c n ch] by (auto simp: nth assms(4))
next
  fix d show "gm_ok (subs (conns ?w d))" using linked_ok [OF assms(1)] assms(3) by simp
next
  show "chans_wf (reg ?w, chans ?w)" using fold_Unsubscribe_wf [OF linked_wf [OF assms(1)]] by simp
qed

lemma handleUnsubscribe_inv:
  assumes "winv w"
  shows "winv (handleUnsubscribe ops e c msg w)"
proof -
  obtain ok w1 where a: "allowControl ops e c msg w = (ok, w1)" by fastforce
  have f1: "frame w w1" using frame_allowControl [of w ops e c msg] a by simp
  have w1: "winv w1" using winv_frame [OF f1 assms] .
  then have l1: "subs_linked w1" "bounded w1" by (simp_all add: winv_def)
  let ?n = "msg_Channel msg"
  show ?thesis
  proof (cases "ok \<and> gm_get (subs (conns w1 c)) ?n \<noteq> None")
    case False
    then show ?thesis using a w1 by (cases ok) (auto simp: handleUnsubscribe_def winv_replies)
  next
    case True
    then obtain ch where ch: "gm_get (subs (conns w1 c)) ?n = Some ch" by blast
    let ?w2 = "(upd_conn c (\<lambda>k. k\<lparr>subs := gm_del ?n (subs (conns w1 c))\<rparr>) w1)\<lparr>chans := fold (\<lambda>ch. hub_Unsubscribe ch c) (map snd [(?n, ch)]) (chans w1)\<rparr>"
    have "subs_linked ?w2" using ch l1(1) by (intro linked_left) (auto simp: linked_ok)
    moreover have "bounded ?w2"
      using l1(2) gm_length_del_le [of ?n "subs (conns w1 c)"] le_trans by (fastforce simp: bounded_def)
    ultimately have "winv ?w2" by (simp add: winv_def)
    moreover have "handleUnsubscribe ops e c msg w = sendAck c ''unsubscribed'' ?n ?w2"
      using True a ch by (simp add: handleUnsubscribe_def Let_def upd_conn_def)
    ultimately show ?thesis by (simp only: winv_replies)
  qed
qed

lemma handle_inv:
  assumes "winv w" "itf_ok itf" "running (conns w c)"
  shows "winv (handle ops itf e c raw w)"
  using handleSubscribe_inv [OF assms] handleUnsubscribe_inv [OF assms(1)] winv_frame [OF frame_handlePublish assms(1)]
    winv_replies(2,3) [OF assms(1)]
  by (simp add: handle_def split: option.split)

subsection \<open>The life of a connection\<close>

lemma frame_closeNetConn [frame_intros]: "frame w (closeNetConn c w)"
  by (simp add: closeNetConn_def frame_intros)

lemma winv_hubst: "winv (w\<lparr>hubst := h\<rparr>) = winv w"
  by (simp add: winv_def subs_linked_def bounded_def)

lemma winv_new_conn:
  assumes "winv w" "\<not> running (conns w c)"
  shows "winv (w\<lparr>conns := (conns w)(c := new_conn ops p nc sid key)\<rparr>)"
proof -
  have "subs (conns w c) = []" using assms by (simp add: winv_def bounded_def)
  then have none: "\<not> (ch < length (chans w) \<and> Name (chans w ! ch) = n \<and> c \<in> set (Subscribers (chans w ! ch)))" for n ch
    using assms(1) linkedD [of w c n ch] by (simp add: winv_def)
  have "subs_linked (w\<lparr>conns := (conns w)(c := new_conn ops p nc sid key)\<rparr>)"
    using assms(1) none by (auto simp: winv_def subs_linked_def new_conn_def)
  moreover have "bounded (w\<lparr>conns := (conns w)(c := new_conn ops p nc sid key)\<rparr>)"
    using assms(1) by (auto simp: winv_def bounded_def new_conn_def)
  ultimately show ?thesis by (simp add: winv_def)
qed

lemma Run_start_inv:
  assumes "winv w" "\<not> running (conns w c)"
  shows "winv (snd (Run_start ops p nc c sid key w))"
proof -
  let ?w1 = "count Connections_Inc (w\<lparr>conns := (conns w)(c := new_conn ops p nc sid key)\<rparr>)"
  have w1: "winv ?w1" unfolding winv_count by (rule winv_new_conn [OF assms])
  have w1h: "winv (?w1\<lparr>hubst := h\<rparr>)" for h using w1 by (simp add: winv_hubst)
  obtain ce h where a: "hub_Add (APIKeyID ?w1) c (hubst ?w1) = (ce, h)" by fastforce
  have send: "try_send sendChanSize (send (conns ?w1 c)) (hello_frame sid) = ([hello_frame sid], True)"
    by (simp add: new_conn_def try_send_def sendChanSize_def)
  show ?thesis
  proof (cases ce)
    case (Some cr)
    obtain code reason where cr: "cr = (code, reason)" by (cases cr)
    have "winv (count Connections_Dec (Conn_CloseFrame c code reason (?w1\<lparr>hubst := h\<rparr>)))"
      unfolding Conn_CloseFrame_def winv_count by (rule winv_frame [OF frame_ws_call w1h])
    from winv_frame [OF frame_cancel this] show ?thesis using a Some cr by (simp add: Run_start_def Let_def)
  next
    case None
    let ?w2 = "upd_conn c (\<lambda>k. k\<lparr>send := [hello_frame sid], running := True\<rparr>) (?w1\<lparr>hubst := h\<rparr>)"
    have "subs_linked ?w2"
      by (rule linked_cong [of "?w1\<lparr>hubst := h\<rparr>"]) (use w1h in \<open>simp_all add: winv_def\<close>)
    moreover have "bounded ?w2"
      using assms(1) by (simp add: winv_def bounded_def sendChanSize_def new_conn_def)
    ultimately have "winv ?w2" by (simp add: winv_def)
    then show ?thesis using a None send by (simp add: Run_start_def Let_def)
  qed
qed

lemma Run_finish_inv:
  assumes "winv w"
  shows "winv (Run_finish slow c w)" "\<not> running (conns (Run_finish slow c w) c)"
    "\<forall>ch \<in> set (chans (Run_finish slow c w)). c \<notin> set (Subscribers ch)"
    "c \<notin> set (hconns (hubst (Run_finish slow c w)))"
proof -
  define w2 where "w2 = closeNetConn c (ws_call c WsCloseNow (cancel c (if slow then Conn_CloseFrame c StatusPolicyViolation ''slow consumer'' w else w)))"
  have f: "frame w w2" unfolding w2_def
    by (auto simp: Conn_CloseFrame_def intro!: frame_intros
        intro: frame_trans [OF _ frame_closeNetConn] frame_trans [OF _ frame_ws_call] frame_trans [OF _ frame_cancel])
  have w2: "winv w2" by (rule winv_frame [OF f assms])
  let ?w3 = "upd_conn c (\<lambda>k. k\<lparr>running := False, closed := True\<rparr>) w2"
  let ?w5 = "(upd_conn c (\<lambda>k. k\<lparr>subs := []\<rparr>) ?w3)\<lparr>chans := fold (\<lambda>ch. hub_Unsubscribe ch c) (map snd (subs (conns ?w3 c))) (chans ?w3)\<rparr>"
  have fin: "Run_finish slow c w = cancel c (count Connections_Dec (?w5\<lparr>hubst := hub_Remove c (hubst ?w5)\<rparr>))"
    by (simp add: Run_finish_def Let_def w2_def)
  have l3: "subs_linked ?w3"
    by (rule linked_cong [of w2]) (use w2 in \<open>simp_all add: winv_def\<close>)
  have ok: "gm_ok (subs (conns ?w3 c))" using l3 by (rule linked_ok)
  have l5: "subs_linked ?w5"
  proof (rule linked_left [OF l3])
    show "\<forall>n ch. (n, ch) \<in> set (subs (conns ?w3 c)) \<longrightarrow> gm_get (subs (conns ?w3 c)) n = Some ch"
      using gm_get_in_set [OF ok] by blast
    show "gm_get [] n = (if n \<in> fst ` set (subs (conns ?w3 c)) then None else gm_get (subs (conns ?w3 c)) n)" for n
      using map_of_eq_None_iff [of "subs (conns ?w3 c)" n] by (simp del: conns_upd_conn add: eq_commute [of None])
  qed simp
  have b5: "bounded ?w5" using w2 by (auto simp: winv_def bounded_def)
  have w6: "winv (?w5\<lparr>hubst := h\<rparr>)" for h unfolding winv_hubst unfolding winv_def using l5 b5 by blast
  show "winv (Run_finish slow c w)" unfolding fin
    by (rule winv_frame [OF frame_cancel]) (simp only: winv_count w6)
  show "\<not> running (conns (Run_finish slow c w) c)" unfolding fin by (simp add: cancel_def)
  show "c \<notin> set (hconns (hubst (Run_finish slow c w)))" unfolding fin by (simp add: cancel_def hub_Remove_def)
  have "c \<notin> set (Subscribers (chans ?w5 ! i))" if "i < length (chans ?w5)" for i
    using linkedD [OF l5, of c "Name (chans ?w5 ! i)" i] that by simp
  then have "\<forall>ch \<in> set (chans ?w5). c \<notin> set (Subscribers ch)"
    by (metis in_set_conv_nth)
  moreover have "chans (Run_finish slow c w) = chans ?w5" unfolding fin by (simp add: cancel_def)
  ultimately show "\<forall>ch \<in> set (chans (Run_finish slow c w)). c \<notin> set (Subscribers ch)" by simp
qed

lemma frame_writePump: "frame w (snd (writePump_step ev c w))"
proof (cases ev)
  case (Message ok)
  show ?thesis
  proof (cases "send (conns w c)")
    case (Cons m q)
    have "frame w (ws_call c (WsWrite m) (upd_conn c (\<lambda>k. k\<lparr>send := q\<rparr>) w))"
      by (rule frame_trans [OF frame_upd_conn frame_ws_call]) (simp_all add: Cons)
    then show ?thesis using Cons Message by simp
  qed (simp add: Message frame_refl)
qed (auto intro: frame_intros)

lemma writePump_inv: "winv w \<Longrightarrow> winv (snd (writePump_step ev c w))"
  by (rule winv_frame [OF frame_writePump])

lemma Sweep_inv: "winv w \<Longrightarrow> Sweep (reg w, chans w) = (k, r, h) \<Longrightarrow> winv (w\<lparr>reg := r, chans := h\<rparr>)"
proof -
  assume w: "winv w" and s: "Sweep (reg w, chans w) = (k, r, h)"
  then have l: "subs_linked w" by (simp add: winv_def)
  note S = Sweep_result [OF linked_wf [OF l] s]
  have "grows (chans w) h" using S by (auto simp: grows_def)
  then have "subs_linked (w\<lparr>reg := r, chans := h\<rparr>)" using S by (intro linked_grows [OF l]) auto
  then show ?thesis using w by (simp add: winv_def bounded_def)
qed

subsection \<open>No channel is overfull\<close>

definition capped :: "channel list \<Rightarrow> bool" where
  "capped h \<longleftrightarrow> (\<forall>i < length h. length (Subscribers (h ! i)) \<le> defaultMaxSubsPerChannel)"

lemma capped_grows: "grows h h' \<Longrightarrow> capped h \<Longrightarrow> capped h'"
  unfolding capped_def grows_def by (metis bot_nat_0.extremum linorder_not_less list.size(3))

lemma capped_joined:
  assumes "joined g n c ch h'" "capped g"
  shows "capped h'"
proof -
  obtain h where h: "grows g h" "length (Subscribers (h ! ch)) < defaultMaxSubsPerChannel" "ch < length h"
    and h': "h' = h[ch := (h ! ch)\<lparr>Subscribers := Subscribers (h ! ch) @ [c]\<rparr>]"
    using assms(1) unfolding joined_def by blast
  from capped_grows [OF h(1) assms(2)] h(2,3) show ?thesis
    by (auto simp: capped_def h' nth_list_update)
qed

lemma capped_Unsubscribe: "capped h \<Longrightarrow> capped (hub_Unsubscribe ch c h)"
  unfolding capped_def hub_Unsubscribe_def
  by (cases "ch < length h") (auto simp: nth_list_update intro: le_trans [OF length_filter_le])

lemma joinChannel_capped:
  assumes "winv w" "itf_ok itf" "gm_get (subs (conns w c)) (msg_Channel msg) = None" "capped (chans w)"
  shows "capped (chans (joinChannel itf c msg w))"
proof -
  have l0: "subs_linked w" using assms(1) by (simp add: winv_def)
  obtain err ch r h where l: "subscribe_loop maxSubscribeRetries itf (msg_Channel msg) c (None, 0) (reg w, chans w) = ((err, ch), r, h)"
    by (metis prod_cases3 prod.collapse)
  have "\<forall>i < length (chans w). Name (chans w ! i) = msg_Channel msg \<longrightarrow> c \<notin> set (Subscribers (chans w ! i))"
    using linkedD [OF l0, of c "msg_Channel msg"] assms(3) by auto
  note S = subscribe_loop_result [OF assms(2) linked_wf [OF l0] l, simplified, OF this]
  have "capped h" using S assms(4) capped_grows capped_joined by (auto split: if_splits)
  with assms(4) l show ?thesis
    by (auto simp: joinChannel_def Let_def reply_ops split: option.split sub_error.split)
qed

lemma handle_capped:
  assumes "winv w" "itf_ok itf" "capped (chans w)"
  shows "capped (chans (handle ops itf e c raw w))"
proof -
  have sub: "capped (chans (handleSubscribe ops itf e c msg w))" for msg
  proof -
    obtain ok w1 where a: "allowControl ops e c msg w = (ok, w1)" by fastforce
    have f1: "frame w w1" using frame_allowControl [of w ops e c msg] a by simp
    obtain ok2 w2 where t: "checkToken e c msg w1 = (ok2, w2)" by fastforce
    have f2: "frame w w2" using frame_trans [OF f1] frame_checkToken [of w1 e c msg] t by simp
    have "capped (chans (joinChannel itf c msg w2))" if "gm_get (subs (conns w1 c)) (msg_Channel msg) = None"
      using that assms winv_frame [OF f2] frame_keeps(1,5) [OF f1] frame_keeps(1,5) [OF f2]
      by (intro joinChannel_capped) auto
    with frame_keeps(5) [OF f1] frame_keeps(5) [OF f2] a t assms(3) show ?thesis
      by (cases ok; cases ok2) (simp_all add: handleSubscribe_def reply_ops)
  qed
  have unsub: "capped (chans (handleUnsubscribe ops e c msg w))" for msg
  proof -
    obtain ok w1 where a: "allowControl ops e c msg w = (ok, w1)" by fastforce
    have "chans w1 = chans w" using frame_keeps(5) [OF frame_allowControl [of w ops e c msg]] a by simp
    with a assms(3) capped_Unsubscribe show ?thesis
      by (cases ok) (auto simp: handleUnsubscribe_def Let_def reply_ops split: option.split)
  qed
  show ?thesis using sub unsub assms(3)
    by (simp add: handle_def reply_ops frame_keeps(5) [OF frame_handlePublish] split: option.split)
qed

end
