(* ===== verification/System.thy ===== *)
theory System
  imports Conn_Inv "HOL-Library.List_Lexorder" "HOL-Library.Char_ord"
begin

text \<open>
  The running server as a transition system: the pumps and the life of every connection, the stats
  publisher (\<open>internal/hub/stats.go\<close>), the garbage collector's sweeps, the fanout workers, and the
  closes that a revoke or a shutdown makes. Each transition is one of the operations of the component
  theories; \<open>sys_reach\<close> is everything a server can get to. Its invariant gives the properties below.
\<close>

declare map_of_eq_Some_iff [simp del] Some_eq_map_of_iff [simp del]

subsection \<open>The stats publisher\<close>

text \<open>\<open>json.Marshal\<close> writes the keys of a map in increasing order.\<close>

definition stats_frame :: "(string, int) gomap \<Rightarrow> string \<Rightarrow> bytes" where
  "stats_frame snap ident = json_object
    [(''channel'', json_string True statsChannel),
     (''data'', json_object (map (\<lambda>(k, v). (k, FormatInt v)) (sort_key fst snap))),
     (''id'', json_string True ident), (''type'', json_string True ''event'')]"

definition PublishStats_tick :: "(string, int) gomap \<Rightarrow> string \<Rightarrow> 'l world \<Rightarrow> 'l world" where
  "PublishStats_tick snap ident w =
    (let (ch, r, h) = reg_GetOrCreate statsChannel (reg w, chans w);
         w1 = w\<lparr>reg := r, chans := h\<rparr>
     in hub_Broadcast deliver h ch (stats_frame snap ident) w1)"

text \<open>The loop until its context is cancelled: one snapshot and one ULID per tick.\<close>

definition PublishStatsLoop :: "((string, int) gomap \<times> string) list \<Rightarrow> 'l world \<Rightarrow> 'l world" where
  "PublishStatsLoop ticks = fold (\<lambda>(snap, ident). PublishStats_tick snap ident) ticks"

subsection \<open>Closing connections\<close>

fun run_close :: "close_call \<Rightarrow> 'l world \<Rightarrow> 'l world" where
  "run_close (CloseFrame c (code, reason)) w = Conn_CloseFrame c code reason w"
| "run_close (CloseNow c) w = Conn_CloseNow c w"

definition world_CloseKey :: "string \<Rightarrow> nat \<Rightarrow> string \<Rightarrow> 'l world \<Rightarrow> 'l world" where
  "world_CloseKey keyID code reason w =
    (let (n, cs, h) = hub_CloseKey (APIKeyID w) keyID code reason (hubst w)
     in fold run_close cs (w\<lparr>hubst := h\<rparr>))"

subsection \<open>Transitions\<close>

inductive sys_step :: "'l rate_ops \<Rightarrow> 'l world \<Rightarrow> 'l world \<Rightarrow> bool" for ops where
  start: "\<not> running (conns w c) \<Longrightarrow> sys_step ops w (snd (Run_start ops p nc c sid key w))"
| reading: "running (conns w c) \<Longrightarrow> itf_ok itf \<Longrightarrow> sys_step ops w (snd (readPump_step ops itf e res c w))"
| writing: "running (conns w c) \<Longrightarrow> sys_step ops w (snd (writePump_step ev c w))"
| finish: "running (conns w c) \<Longrightarrow> sys_step ops w (Run_finish slow c w)"
| sweep: "Sweep (reg w, chans w) = (k, r, h) \<Longrightarrow> sys_step ops w (w\<lparr>reg := r, chans := h\<rparr>)"
| cache_sweep: "cache w = Some seen \<Longrightarrow> sys_step ops w (w\<lparr>cache := Some (snd (ReplayCache_Sweep now seen))\<rparr>)"
| limiter_gc: "sys_step ops w (w\<lparr>rlim := gcOnce now (rlim w)\<rparr>)"
| stats: "sys_step ops w (PublishStats_tick (SnapshotBasic rd r m) ident w)"
| worker: "fan w = Pool p \<Longrightarrow> i < length (queues p) \<Longrightarrow> pool_run deliver (chans w) i (p, w) = (p', w') \<Longrightarrow> sys_step ops w (w'\<lparr>fan := Pool p'\<rparr>)"
| close_key: "sys_step ops w (world_CloseKey keyID code reason w)"
| drain_flag: "sys_step ops w (w\<lparr>hubst := drain_mark (hubst w)\<rparr>)"
| close_conn: "sys_step ops w (run_close cl w)"
| close_timer: "sys_step ops w (closeNetConn c w)"

definition dead_conn :: "'l rate_ops \<Rightarrow> 'l conn" where
  "dead_conn ops = (new_conn ops PolicyDisconnect False [] [])\<lparr>closed := True\<rparr>"

definition world_init :: "'l rate_ops \<Rightarrow> registry \<Rightarrow> fanout \<Rightarrow> string \<Rightarrow> 'l limiter \<Rightarrow> 'l world" where
  "world_init ops r f secret rl =
    \<lparr>reg = r, chans = [], signingSecret = secret, cache = Some NewReplayCache, rlim = rl, fan = f,
     hubst = hub_New, mets = \<lparr>mcalls = [], channelSource = Some reg_Len, registerOnce = False, registered = []\<rparr>, conns = (\<lambda>_. dead_conn ops)\<rparr>"

inductive sys_reach :: "'l rate_ops \<Rightarrow> 'l world \<Rightarrow> bool" for ops where
  init: "r \<in> {SyncMapReg NewSyncMap, ShardedReg NewSharded} \<Longrightarrow> mcalls m = [] \<Longrightarrow>
    f = PerConn \<or> (\<exists>n. 0 < n \<and> n < 2 ^ 32 \<and> f = Pool (NewShardedPool n)) \<Longrightarrow>
    sys_reach ops ((world_init ops r f secret rl)\<lparr>mets := m\<rparr>)"
| step: "sys_reach ops w \<Longrightarrow> sys_step ops w w' \<Longrightarrow> sys_reach ops w'"

subsection \<open>The invariant\<close>

text \<open>Besides \<open>winv\<close>: the hub tracks the running connections, and the gauge counts them.\<close>

definition tracked :: "'l world \<Rightarrow> bool" where
  "tracked w \<longleftrightarrow> distinct (hconns (hubst w)) \<and> set (hconns (hubst w)) = {c. running (conns w c)} \<and>
    count_list (mcalls (mets w)) Connections_Inc =
      count_list (mcalls (mets w)) Connections_Dec + length (hconns (hubst w))"

definition sys_inv :: "'l world \<Rightarrow> bool" where
  "sys_inv w \<longleftrightarrow> winv w \<and> tracked w \<and> capped (chans w)"

lemma calm_tracked: "calm w w' \<Longrightarrow> tracked w \<Longrightarrow> tracked w'"
  by (simp add: calm_def tracked_def)

lemma sys_inv_frame: "frame w w' \<Longrightarrow> sys_inv w \<Longrightarrow> sys_inv w'"
  by (auto simp: sys_inv_def frame_keeps intro: winv_frame calm_tracked [OF frame_calm])

lemmas calm_replies = frame_calm [OF frame_replies(1)] frame_calm [OF frame_replies(2)] frame_calm [OF frame_replies(3)]

lemma calm_joinChannel: "calm w (joinChannel itf c msg w)"
proof -
  obtain err ch r h where l: "subscribe_loop maxSubscribeRetries itf (msg_Channel msg) c (None, 0) (reg w, chans w) = ((err, ch), r, h)"
    by (metis prod_cases3 prod.collapse)
  have 1: "calm w (w\<lparr>reg := r, chans := h\<rparr>)" by (simp add: calm_def)
  have 2: "calm w (upd_conn c (\<lambda>k. k\<lparr>subs := s k\<rparr>) (w\<lparr>reg := r, chans := h\<rparr>))" for s by (simp add: calm_def)
  have "calm w (sendOpError c msg code m (w\<lparr>reg := r, chans := h\<rparr>))" for code m
    by (rule calm_trans [OF 1 frame_calm [OF frame_replies(3)]])
  moreover have "calm w (sendAck c t n (upd_conn c (\<lambda>k. k\<lparr>subs := s k\<rparr>) (w\<lparr>reg := r, chans := h\<rparr>)))" for s t n
    by (rule calm_trans [OF 2 frame_calm [OF frame_replies(1)]])
  ultimately show ?thesis
    using l frame_calm [OF frame_replies(3)]
    by (auto simp: joinChannel_def Let_def split: option.split sub_error.split)
qed

lemma calm_handleSubscribe: "calm w (handleSubscribe ops itf e c msg w)"
proof -
  obtain ok w1 where a: "allowControl ops e c msg w = (ok, w1)" by fastforce
  have f1: "frame w w1" using frame_allowControl [of w ops e c msg] a by simp
  obtain ok2 w2 where t: "checkToken e c msg w1 = (ok2, w2)" by fastforce
  have f2: "frame w w2" using frame_trans [OF f1] frame_checkToken [of w1 e c msg] t by simp
  show ?thesis
    using a t frame_calm [OF f1] frame_calm [OF f2] calm_trans [OF frame_calm [OF f2] calm_joinChannel]
      frame_calm [OF frame_trans [OF f1 frame_replies(1)]]
    by (cases ok; cases ok2) (simp_all add: handleSubscribe_def calm_replies)
qed

lemma calm_handleUnsubscribe: "calm w (handleUnsubscribe ops e c msg w)"
proof -
  obtain ok w1 where a: "allowControl ops e c msg w = (ok, w1)" by fastforce
  have f1: "frame w w1" using frame_allowControl [of w ops e c msg] a by simp
  have 1: "calm w1 ((upd_conn c (\<lambda>k. k\<lparr>subs := s k\<rparr>) w1)\<lparr>chans := h\<rparr>)" for s h by (simp add: calm_def)
  have "calm w (sendAck c t n ((upd_conn c (\<lambda>k. k\<lparr>subs := s k\<rparr>) w1)\<lparr>chans := h\<rparr>))" for s h t n
    by (rule calm_trans [OF calm_trans [OF frame_calm [OF f1] 1] frame_calm [OF frame_replies(1)]])
  then show ?thesis
    using a frame_calm [OF f1] frame_calm [OF frame_trans [OF f1 frame_replies(1)]]
    by (cases ok) (simp_all add: handleUnsubscribe_def Let_def split: option.split)
qed

lemma calm_handle: "calm w (handle ops itf e c raw w)"
  by (simp add: handle_def calm_handleSubscribe calm_handleUnsubscribe frame_calm [OF frame_handlePublish]
      calm_replies split: option.split)

lemma Run_start_cases:
  assumes "w1 = count Connections_Inc (w\<lparr>conns := (conns w)(c := new_conn ops p nc sid key)\<rparr>)"
  obtains ce where "fst (hub_Add (APIKeyID w1) c (hubst w)) = Some ce"
      "Run_start ops p nc c sid key w = (False, cancel c (count Connections_Dec (Conn_CloseFrame c (fst ce) (snd ce) w1)))"
  | "hub_Add (APIKeyID w1) c (hubst w) = (None, (hubst w)\<lparr>hconns := set_add c (hconns (hubst w))\<rparr>)"
      "Run_start ops p nc c sid key w = (True, upd_conn c (\<lambda>k. k\<lparr>send := [hello_frame sid], running := True\<rparr>)
         (w1\<lparr>hubst := (hubst w)\<lparr>hconns := set_add c (hconns (hubst w))\<rparr>\<rparr>))"
proof -
  have send: "try_send sendChanSize (send (conns w1 c)) (hello_frame sid) = ([hello_frame sid], True)"
    by (simp add: assms new_conn_def try_send_def sendChanSize_def)
  have h1: "hubst w1 = hubst w" "socketID (conns w1 c) = sid" by (simp_all add: assms)
  have keep: "w1\<lparr>hubst := hubst w\<rparr> = w1" unfolding h1(1) [symmetric] by simp
  show thesis
  proof (cases rule: hub_Add_cases [of "hubst w" "APIKeyID w1" c])
    case 1
    with that(1) [of drainClose] keep show ?thesis
      by (simp add: Run_start_def Let_def assms [symmetric] h1 drainClose_def)
  next
    case (2 ce)
    with that(1) [of ce] keep show ?thesis
      by (cases ce) (simp add: Run_start_def Let_def assms [symmetric] h1)
  next
    case 3
    with that(2) send show ?thesis
      by (simp add: Run_start_def Let_def assms [symmetric] h1)
  qed
qed

lemma Run_start_tracked:
  assumes "tracked w" "\<not> running (conns w c)"
  shows "tracked (snd (Run_start ops p nc c sid key w))"
proof -
  define w1 where "w1 = count Connections_Inc (w\<lparr>conns := (conns w)(c := new_conn ops p nc sid key)\<rparr>)"
  have new: "\<not> running (new_conn ops p nc sid key)" by (simp add: new_conn_def)
  have c: "c \<notin> set (hconns (hubst w))" using assms by (simp add: tracked_def)
  show ?thesis
  proof (cases rule: Run_start_cases [OF w1_def])
    case (1 ce)
    have "{d. running (conns (snd (Run_start ops p nc c sid key w)) d)} = {d. running (conns w d)}"
      using assms(2) new unfolding 1(2) by (auto simp: w1_def cancel_def Conn_CloseFrame_def ws_call_def split: if_splits)
    with assms(1) show ?thesis unfolding 1(2) tracked_def
      by (simp add: w1_def cancel_def Conn_CloseFrame_def ws_call_def)
  next
    case 2
    have "{d. running (conns (snd (Run_start ops p nc c sid key w)) d)} = insert c {d. running (conns w d)}"
      using new unfolding 2(2) by (auto simp: w1_def)
    with assms(1) c show ?thesis unfolding 2(2) tracked_def by (simp add: w1_def)
  qed
qed

lemma Run_start_chans: "chans (snd (Run_start ops p nc c sid key w)) = chans w"
proof (cases rule: Run_start_cases [OF refl, of w c ops p nc sid key])
  case (1 ce)
  then show ?thesis by (simp add: cancel_def Conn_CloseFrame_def ws_call_def)
qed simp

lemma fold_Unsubscribe_capped: "capped h \<Longrightarrow> capped (fold (\<lambda>ch. hub_Unsubscribe ch c) chs h)"
  by (induction chs arbitrary: h) (auto intro: capped_Unsubscribe)

lemma Run_finish_capped: "capped (chans w) \<Longrightarrow> capped (chans (Run_finish slow c w))"
  by (simp add: Run_finish_def Let_def cancel_def closeNetConn_def ws_call_def Conn_CloseFrame_def fold_Unsubscribe_capped)

lemma Run_finish_hub: "hubst (Run_finish slow c w) = hub_Remove c (hubst w)"
  by (simp add: Run_finish_def Let_def cancel_def closeNetConn_def ws_call_def Conn_CloseFrame_def)

lemma Run_finish_calls: "mcalls (mets (Run_finish slow c w)) = mcalls (mets w) @ [Connections_Dec]"
  by (simp add: Run_finish_def Let_def cancel_def closeNetConn_def ws_call_def Conn_CloseFrame_def)

lemma Run_finish_running: "running (conns (Run_finish slow c w) d) = (if d = c then False else running (conns w d))"
  by (simp add: Run_finish_def Let_def cancel_def closeNetConn_def ws_call_def Conn_CloseFrame_def)

lemma length_set_del: "distinct xs \<Longrightarrow> x \<in> set xs \<Longrightarrow> Suc (length (set_del x xs)) = length xs"
proof (induction xs)
  case (Cons y ys)
  show ?case
  proof (cases "y = x")
    case True
    with Cons.prems have "set_del x ys = ys" by (auto simp: filter_id_conv)
    with True show ?thesis by simp
  next
    case False
    with Cons show ?thesis by simp
  qed
qed simp

lemma Run_finish_tracked:
  assumes "tracked w" "running (conns w c)"
  shows "tracked (Run_finish slow c w)"
proof -
  have c: "distinct (hconns (hubst w))" "c \<in> set (hconns (hubst w))" using assms by (auto simp: tracked_def)
  have "set (set_del c (hconns (hubst w))) = {d. running (conns (Run_finish slow c w) d)}"
    using assms(1) by (auto simp: tracked_def Run_finish_running)
  moreover have "Suc (length (set_del c (hconns (hubst w)))) = length (hconns (hubst w))"
    by (rule length_set_del [OF c])
  ultimately show ?thesis using assms(1)
    by (simp add: tracked_def Run_finish_hub Run_finish_calls hub_Remove_def)
qed

lemma frame_run_close: "frame w (run_close cl w)"
proof (cases cl)
  case (CloseFrame c ce)
  then show ?thesis by (cases ce) (simp add: Conn_CloseFrame_def frame_intros)
next
  case (CloseNow c)
  then show ?thesis by (simp add: Conn_CloseNow_def frame_trans [OF frame_cancel frame_closeNetConn])
qed

lemma frame_run_closes: "frame w (fold run_close cs w)"
proof (induction cs arbitrary: w)
  case (Cons x cs)
  from frame_trans [OF frame_run_close Cons.IH] show ?case by simp
qed (simp add: frame_refl)

lemma sys_inv_hub:
  "hconns h = hconns (hubst w) \<Longrightarrow> sys_inv w \<Longrightarrow> sys_inv (w\<lparr>hubst := h\<rparr>)"
  by (simp add: sys_inv_def winv_hubst tracked_def)

lemma PublishStats_inv:
  assumes "sys_inv w"
  shows "sys_inv (PublishStats_tick snap ident w)"
proof -
  obtain ch r h where g: "reg_GetOrCreate statsChannel (reg w, chans w) = (ch, r, h)" by (metis prod_cases3)
  have l: "subs_linked w" using assms by (simp add: sys_inv_def winv_def)
  note G = GetOrCreate_wf [OF linked_wf [OF l] g]
  have gr: "grows (chans w) h" using G grows_append by blast
  have "subs_linked (w\<lparr>reg := r, chans := h\<rparr>)" using G gr by (intro linked_grows [OF l]) auto
  then have "sys_inv (w\<lparr>reg := r, chans := h\<rparr>)" using assms capped_grows [OF gr] by (simp add: sys_inv_def winv_def bounded_def tracked_def)
  from sys_inv_frame [OF fr.R_Broadcast this] show ?thesis
    by (simp add: PublishStats_tick_def g Let_def)
qed

lemma sys_step_inv: "sys_step ops w w' \<Longrightarrow> sys_inv w \<Longrightarrow> sys_inv w'"
proof (induction rule: sys_step.induct)
  case (start w c p nc sid key)
  then show ?case by (simp add: sys_inv_def Run_start_inv Run_start_tracked Run_start_chans)
next
  case (reading w c itf e res)
  then show ?case using calm_tracked [OF calm_handle]
    by (auto simp: sys_inv_def readPump_step_def handle_inv handle_capped split: option.split)
next
  case (writing w c ev)
  have "calm w (snd (writePump_step ev c w))" "chans (snd (writePump_step ev c w)) = chans w"
    by (cases ev; auto simp: calm_def ws_call_def split: list.split)+
  then show ?case using writing calm_tracked by (auto simp: sys_inv_def writePump_inv)
next
  case (finish w c slow)
  then show ?case by (simp add: sys_inv_def Run_finish_inv(1) Run_finish_tracked Run_finish_capped)
next
  case (sweep w k r h)
  then have "grows (chans w) h" using Sweep_result [OF linked_wf, of w k r h] by (auto simp: sys_inv_def winv_def grows_def)
  with sweep show ?case using Sweep_inv capped_grows by (auto simp: sys_inv_def tracked_def)
next
  case (cache_sweep w seen now)
  have "frame w (w\<lparr>cache := Some (snd (ReplayCache_Sweep now seen))\<rparr>)" by (simp add: frame_def calm_def)
  then show ?case using cache_sweep sys_inv_frame by blast
next
  case (limiter_gc w now)
  have "frame w (w\<lparr>rlim := gcOnce now (rlim w)\<rparr>)" by (simp add: frame_def calm_def)
  then show ?case using limiter_gc sys_inv_frame by blast
next
  case (stats w rd r m ident)
  then show ?case by (rule PublishStats_inv)
next
  case (worker w p i p' w')
  have "frame w w'"
    using worker(3) fr.R_Broadcast frame_refl by (auto simp: pool_run_def split: option.splits)
  moreover have "frame w' (w'\<lparr>fan := Pool p'\<rparr>)" by (simp add: frame_def calm_def)
  ultimately show ?case using worker.prems sys_inv_frame by blast
next
  case (close_key w keyID code reason)
  obtain n cs h where k: "hub_CloseKey (APIKeyID w) keyID code reason (hubst w) = (n, cs, h)" by (metis prod_cases3)
  then have "hconns h = hconns (hubst w)" by (auto simp: hub_CloseKey_def Let_def)
  from sys_inv_frame [OF frame_run_closes sys_inv_hub [OF this close_key.prems]] show ?case
    by (simp add: world_CloseKey_def k)
next
  case (drain_flag w)
  then show ?case by (simp add: sys_inv_hub drain_mark_def)
next
  case (close_conn w cl)
  then show ?case using frame_run_close sys_inv_frame by blast
next
  case (close_timer w c)
  then show ?case using frame_closeNetConn sys_inv_frame by blast
qed

lemma world_init_inv:
  assumes "r \<in> {SyncMapReg NewSyncMap, ShardedReg NewSharded}" "mcalls m = []"
  shows "sys_inv ((world_init ops r f secret rl)\<lparr>mets := m\<rparr>)"
proof -
  have "chans_wf (r, [])" using assms chans_wf_init by auto
  then show ?thesis using assms(2)
    by (simp add: sys_inv_def winv_def subs_linked_def bounded_def tracked_def capped_def world_init_def dead_conn_def
        new_conn_def hub_New_def)
qed

lemma sys_reach_inv: "sys_reach ops w \<Longrightarrow> sys_inv w"
proof (induction rule: sys_reach.induct)
  case (init r m f secret rl)
  show ?case by (rule world_init_inv [OF init(1,2)])
next
  case (step w w')
  then show ?case using sys_step_inv by blast
qed

end
