(* ===== verification/Conn_Props.thy ===== *)
theory Conn_Props
  imports System
begin

text \<open>
  What the protocol handlers promise, stated over the model of \<open>internal/conn\<close>: delivery of a
  publish, what a refused request leaves alone, who can join a private channel, and what remains of
  a connection that has ended.
\<close>

declare map_of_eq_Some_iff [simp del] Some_eq_map_of_iff [simp del]

subsection \<open>Delivery\<close>

text \<open>What one \<open>Send\<close> does to the connection it is for; it touches no other.\<close>

definition received :: "bytes \<Rightarrow> 'l conn \<Rightarrow> 'l conn" where
  "received b k =
    (if closed k then k
     else let (err, q) = policy_Apply (conn_policy k) sendChanSize id id (send k) b in
       if err = Some ErrSlowConsumer then k\<lparr>send := q, closeReq := True\<rparr> else k\<lparr>send := q\<rparr>)"

lemma conns_deliver: "conns (deliver c b w) = (conns w)(c := received b (conns w c))"
proof (cases "closed (conns w c)")
  case True
  then show ?thesis by (simp add: Conn_Send_unfold received_def)
next
  case False
  obtain err q where a: "policy_Apply (conn_policy (conns w c)) sendChanSize id id (send (conns w c)) b = (err, q)"
    by fastforce
  from False show ?thesis by (simp add: Conn_Send_unfold received_def a Let_def fun_eq_iff)
qed

lemma conns_fold_deliver:
  "conns (fold (\<lambda>s. deliver s b) xs w) = fold (\<lambda>s f. f(s := received b (f s))) xs (conns w)"
  by (induction xs arbitrary: w) (simp_all add: conns_deliver)

lemma hub_Broadcast_conns:
  assumes "distinct (Subscribers (heap ! ch))"
  shows "conns (hub_Broadcast deliver heap ch b w) d =
    (if d \<in> set (Subscribers (heap ! ch)) then received b (conns w d) else conns w d)"
  using fold_fun_upd_at [OF assms, of "\<lambda>_. received b" "conns w" d]
  by (simp add: hub_Broadcast_def Let_def conns_fold_deliver)

lemma world_Broadcast_conns:
  assumes "fan w = PerConn" "distinct (Subscribers (chans w ! ch))"
  shows "conns (world_Broadcast ch b w) d =
    (if d \<in> set (Subscribers (chans w ! ch)) then received b (conns w d) else conns w d)"
  using assms(1) by (simp add: world_Broadcast_def hub_Broadcast_conns [OF assms(2)])

lemma allowKey_conns [simp]:
  "conns (snd (allowKey ops e c w)) = conns w" "fan (snd (allowKey ops e c w)) = fan w"
  "chans (snd (allowKey ops e c w)) = chans w" "mets (snd (allowKey ops e c w)) = mets w"
  "cache (snd (allowKey ops e c w)) = cache w" "reg (snd (allowKey ops e c w)) = reg w"
  by (simp_all add: allowKey_def case_prod_unfold)

text \<open>The two budgets a publish is charged to, in order.\<close>

definition conn_budget :: "'l rate_ops \<Rightarrow> env \<Rightarrow> cid \<Rightarrow> 'l world \<Rightarrow> bool" where
  "conn_budget ops e c w = fst (rate_Allow ops (now_publish e) (connRate (conns w c)))"

definition key_budget :: "'l rate_ops \<Rightarrow> env \<Rightarrow> cid \<Rightarrow> 'l world \<Rightarrow> bool" where
  "key_budget ops e c w = fst (Limiter_Allow ops (now_key e) (now_key' e) (apiKeyID (conns w c)) (rlim w))"

lemma handlePublish_accepted:
  assumes "\<not> channelReserved (msg_Channel msg)" "gm_get (subs (conns w c)) (msg_Channel msg) = Some ch"
    "conn_budget ops e c w" "key_budget ops e c w"
  obtains b l where "handlePublish ops e c msg w =
      count (Latency_Observe (now_end e - now_start e))
        (world_Broadcast ch (event_frame (msg_Channel msg) (msg_Data msg) (fresh_ulid e))
          (count Published_Inc ((upd_conn c (\<lambda>k. k\<lparr>connRate := b\<rparr>) w)\<lparr>rlim := l\<rparr>)))"
proof -
  obtain b where b: "rate_Allow ops (now_publish e) (connRate (conns w c)) = (True, b)"
    using assms(3) by (metis conn_budget_def prod.collapse)
  obtain l where l: "Limiter_Allow ops (now_key e) (now_key' e) (apiKeyID (conns w c)) (rlim w) = (True, l)"
    using assms(4) by (metis key_budget_def prod.collapse)
  have "allowKey ops e c (upd_conn c (\<lambda>k. k\<lparr>connRate := b\<rparr>) w) = (True, (upd_conn c (\<lambda>k. k\<lparr>connRate := b\<rparr>) w)\<lparr>rlim := l\<rparr>)"
    using l by (simp add: allowKey_def)
  with assms(1,2) b show thesis by (intro that) (simp add: handlePublish_def)
qed

lemma received_bucket: "send (received b (k\<lparr>connRate := x\<rparr>)) = send (received b k)"
  by (simp add: received_def Let_def split: prod.split)

text \<open>
  C1: A publish reaches exactly the channel's subscribers. When a publish is accepted under the
  per-connection fanout, every connection subscribed to the channel, the publisher included, gets the
  event frame offered to its send buffer once under its own backpressure policy (appended, when there
  is room), and the queue of no other connection changes; the accepted publish is counted once.
\<close>

theorem publish_delivers:
  assumes "winv w" "fan w = PerConn" "\<not> channelReserved (msg_Channel msg)"
    "gm_get (subs (conns w c)) (msg_Channel msg) = Some ch" "conn_budget ops e c w" "key_budget ops e c w"
  shows "let w' = handlePublish ops e c msg w; out = event_frame (msg_Channel msg) (msg_Data msg) (fresh_ulid e) in
    (\<forall>d. send (conns w' d) =
      (if gm_get (subs (conns w d)) (msg_Channel msg) = Some ch then send (received out (conns w d)) else send (conns w d))) \<and>
    (\<forall>d. gm_get (subs (conns w d)) (msg_Channel msg) = Some ch \<longrightarrow> \<not> closed (conns w d) \<longrightarrow>
      length (send (conns w d)) < sendChanSize \<longrightarrow> send (conns w' d) = send (conns w d) @ [out]) \<and>
    count_list (mcalls (mets w')) Published_Inc = Suc (count_list (mcalls (mets w)) Published_Inc)"
proof -
  let ?out = "event_frame (msg_Channel msg) (msg_Data msg) (fresh_ulid e)"
  obtain b l where h: "handlePublish ops e c msg w =
      count (Latency_Observe (now_end e - now_start e))
        (world_Broadcast ch ?out (count Published_Inc ((upd_conn c (\<lambda>k. k\<lparr>connRate := b\<rparr>) w)\<lparr>rlim := l\<rparr>)))"
    using handlePublish_accepted [OF assms(3-6)] .
  let ?w1 = "count Published_Inc ((upd_conn c (\<lambda>k. k\<lparr>connRate := b\<rparr>) w)\<lparr>rlim := l\<rparr>)"
  have l: "subs_linked w" using assms(1) by (simp add: winv_def)
  have ch: "ch < length (chans w)" "Name (chans w ! ch) = msg_Channel msg"
    using linkedD [OF l, of c "msg_Channel msg" ch] assms(4) by simp_all
  have dist: "distinct (Subscribers (chans w ! ch))" using chans_wf_distinct [OF linked_wf [OF l] ch(1)] .
  have mem: "d \<in> set (Subscribers (chans w ! ch)) \<longleftrightarrow> gm_get (subs (conns w d)) (msg_Channel msg) = Some ch" for d
    using linkedD [OF l, of d "msg_Channel msg" ch] ch by simp
  have bc: "conns (world_Broadcast ch ?out ?w1) d =
    (if d \<in> set (Subscribers (chans w ! ch)) then received ?out (conns ?w1 d) else conns ?w1 d)" for d
    using world_Broadcast_conns [of ?w1 ch ?out d] dist assms(2) by simp
  have send: "send (conns (handlePublish ops e c msg w) d) =
      (if gm_get (subs (conns w d)) (msg_Channel msg) = Some ch then send (received ?out (conns w d)) else send (conns w d))" for d
    unfolding h by (cases "d = c") (simp_all add: bc mem received_bucket)
  have room: "send (received ?out (conns w d)) = send (conns w d) @ [?out]"
    if "\<not> closed (conns w d)" "length (send (conns w d)) < sendChanSize" for d
    using that pol.room [OF that(2)] by (simp add: received_def)
  have "count_list (mcalls (mets (fold (\<lambda>s. deliver s ?out) xs v))) Published_Inc = count_list (mcalls (mets v)) Published_Inc"
    for xs and v :: "'a world"
    by (induction xs arbitrary: v) (simp_all add: Conn_Send_unfold Let_def case_prod_unfold)
  then have "count_list (mcalls (mets (handlePublish ops e c msg w))) Published_Inc = Suc (count_list (mcalls (mets w)) Published_Inc)"
    unfolding h using assms(2) by (simp add: world_Broadcast_def hub_Broadcast_def Let_def)
  with send room show ?thesis by (simp add: Let_def)
qed

text \<open>A limiter that allows everything, and a world with two members of one room, for the witnesses.\<close>

definition free_ops :: "unit rate_ops" where
  "free_ops = \<lparr>NewLimiter = (\<lambda>_ _. ()), rate_Allow = (\<lambda>_ _. (True, ()))\<rparr>"

definition demo_conn :: "string \<Rightarrow> unit conn" where
  "demo_conn sid = (new_conn free_ops PolicyDisconnect False sid ''k'')\<lparr>subs := [(''room'', 0)], running := True\<rparr>"

definition demo_world :: "unit world" where
  "demo_world = (world_init free_ops (SyncMapReg [(''room'', 0)]) PerConn ''secret'' (Limiter_New 100 200 60))
     \<lparr>chans := [\<lparr>Name = ''room'', Subscribers = [1, 2], Deleted = False\<rparr>],
      conns := (\<lambda>_. dead_conn free_ops)(1 := demo_conn ''s1'', 2 := demo_conn ''s2'')\<rparr>"

definition demo_env :: env where
  "demo_env = \<lparr>now_control = 0, now_publish = 0, now_key = 0, now_key' = 0, now_token = 0, now_start = 0, now_end = 1, fresh_ulid = ''u''\<rparr>"

definition demo_msg :: "string \<Rightarrow> incoming" where
  "demo_msg t = \<lparr>msg_Type = t, msg_Channel = ''room'', msg_Token = [], msg_Data = ''1''\<rparr>"

lemma demo_winv: "winv demo_world"
proof -
  let ?room = "\<lparr>Name = ''room'', Subscribers = [1, 2], Deleted = False\<rparr>"
  have wf: "chans_wf (SyncMapReg [(''room'', 0)], [?room])"
    by (rule chans_wfI) (auto split: if_splits)
  have "subs_linked demo_world"
  proof (rule linkedI)
    fix c n ch
    show "gm_get (subs (conns demo_world c)) n = Some ch \<longleftrightarrow>
      ch < length (chans demo_world) \<and> Name (chans demo_world ! ch) = n \<and> c \<in> set (Subscribers (chans demo_world ! ch))"
      by (auto simp: demo_world_def demo_conn_def dead_conn_def new_conn_def)
  next
    fix c show "gm_ok (subs (conns demo_world c))"
      by (simp add: demo_world_def demo_conn_def dead_conn_def new_conn_def)
  qed (use wf in \<open>simp add: demo_world_def world_init_def\<close>)
  moreover have "bounded demo_world"
    by (simp add: bounded_def demo_world_def demo_conn_def dead_conn_def new_conn_def defaultMaxChannelsPerConn_def)
  ultimately show ?thesis by (simp add: winv_def)
qed

lemma demo_facts:
  "fan demo_world = PerConn" "gm_get (subs (conns demo_world 1)) ''room'' = Some 0" "gm_get (subs (conns demo_world 2)) ''room'' = Some 0"
  "conn_budget free_ops demo_env 1 demo_world" "key_budget free_ops demo_env 1 demo_world"
  "send (conns demo_world 2) = []" "\<not> closed (conns demo_world 2)" "running (conns demo_world 1)"
  by (simp_all add: demo_world_def world_init_def demo_conn_def new_conn_def conn_budget_def key_budget_def
      free_ops_def Limiter_Allow_def Let_def)

lemma demo_msg_facts [simp]: "msg_Channel (demo_msg t) = ''room''" "msg_Data (demo_msg t) = ''1''" "msg_Type (demo_msg t) = t" "msg_Token (demo_msg t) = []"
  by (simp_all add: demo_msg_def)

lemma room_public: "\<not> channelReserved ''room''" "\<not> ChannelRequiresAuth ''room''"
  by (simp_all add: channelReserved_def reservedChannelPrefix_def ChannelRequiresAuth_def authRequiredPrefixes_def HasPrefix_def)

lemma demo_ulid [simp]: "fresh_ulid demo_env = ''u''"
  by (simp add: demo_env_def)

theorem publish_delivers_witness:
  "send (conns (handlePublish free_ops demo_env 1 (demo_msg ''publish'') demo_world) 2) = [event_frame ''room'' ''1'' ''u'']"
proof -
  have "\<not> channelReserved (msg_Channel (demo_msg ''publish''))"
    "gm_get (subs (conns demo_world 1)) (msg_Channel (demo_msg ''publish'')) = Some 0"
    using room_public demo_facts by simp_all
  from publish_delivers [OF demo_winv demo_facts(1) this demo_facts(4,5)]
  have "gm_get (subs (conns demo_world 2)) (msg_Channel (demo_msg ''publish'')) = Some 0 \<longrightarrow> \<not> closed (conns demo_world 2) \<longrightarrow>
      length (send (conns demo_world 2)) < sendChanSize \<longrightarrow>
      send (conns (handlePublish free_ops demo_env 1 (demo_msg ''publish'') demo_world) 2) =
        send (conns demo_world 2) @ [event_frame (msg_Channel (demo_msg ''publish'')) (msg_Data (demo_msg ''publish'')) (fresh_ulid demo_env)]"
    unfolding Let_def by blast
  then show ?thesis using demo_facts by (simp add: sendChanSize_def)
qed

subsection \<open>Refusals\<close>

text \<open>
  C26: A refused publish costs nobody else anything. When the channel is reserved, the publisher is not
  subscribed, or its own or its key's budget is empty, no other connection, no channel, no counter, no
  queue of the fanout and no token is touched: the publisher gets the error (if its buffer has room)
  and nothing more. And the shared budget of the key is charged only when the connection's own
  budget allowed the publish.
\<close>

theorem publish_refused:
  assumes "channelReserved (msg_Channel msg) \<or> gm_get (subs (conns w c)) (msg_Channel msg) = None \<or>
      \<not> conn_budget ops e c w \<or> \<not> key_budget ops e c w"
  shows "let w' = handlePublish ops e c msg w in
    (\<forall>d. d \<noteq> c \<longrightarrow> conns w' d = conns w d) \<and>
    reg w' = reg w \<and> chans w' = chans w \<and> mets w' = mets w \<and> fan w' = fan w \<and> cache w' = cache w \<and>
    subs (conns w' c) = subs (conns w c) \<and>
    (\<exists>message. send (conns w' c) = fst (try_send sendChanSize (send (conns w c)) (marshal_errorFrame (op_error_frame msg
       (if channelReserved (msg_Channel msg) then ''RESERVED_CHANNEL''
        else if gm_get (subs (conns w c)) (msg_Channel msg) = None then ''NOT_SUBSCRIBED''
        else if \<not> conn_budget ops e c w then ''RATE_LIMITED_CONN'' else ''RATE_LIMITED'') message)))) \<and>
    (channelReserved (msg_Channel msg) \<or> gm_get (subs (conns w c)) (msg_Channel msg) = None \<or> \<not> conn_budget ops e c w
      \<longrightarrow> rlim w' = rlim w)"
proof (cases "channelReserved (msg_Channel msg) \<or> gm_get (subs (conns w c)) (msg_Channel msg) = None")
  case True
  then show ?thesis
    by (cases "channelReserved (msg_Channel msg)")
       (simp_all add: handlePublish_def Let_def reply_ops reply_def, blast+)
next
  case False
  then obtain ch where ch: "gm_get (subs (conns w c)) (msg_Channel msg) = Some ch" by blast
  obtain ok b where b: "rate_Allow ops (now_publish e) (connRate (conns w c)) = (ok, b)" by fastforce
  let ?w1 = "upd_conn c (\<lambda>k. k\<lparr>connRate := b\<rparr>) w"
  obtain ok' w2 where k: "allowKey ops e c ?w1 = (ok', w2)" by fastforce
  have k1: "ok' = key_budget ops e c w" "conns w2 = conns ?w1" "reg w2 = reg w" "chans w2 = chans w" "mets w2 = mets w"
    "fan w2 = fan w" "cache w2 = cache w"
    using k by (auto simp: allowKey_def key_budget_def split: prod.splits)
  have ok: "ok = conn_budget ops e c w" by (simp add: conn_budget_def b)
  show ?thesis
    using False ch b k k1 ok assms
    by (cases "conn_budget ops e c w") (simp_all add: handlePublish_def Let_def reply_ops reply_def, blast+)
qed

theorem publish_refused_witness:
  "let w' = handlePublish free_ops demo_env 3 (demo_msg ''publish'') demo_world in
     conns w' 2 = conns demo_world 2 \<and> mets w' = mets demo_world \<and> rlim w' = rlim demo_world"
proof -
  have n: "gm_get (subs (conns demo_world 3)) (msg_Channel (demo_msg ''publish'')) = None"
    by (simp add: demo_world_def dead_conn_def new_conn_def)
  from publish_refused [of "demo_msg ''publish''" demo_world 3 free_ops demo_env] n show ?thesis
    by (simp add: Let_def)
qed

subsection \<open>Joining\<close>

lemma checkToken_passes:
  assumes "checkToken e c msg w = (True, w')" "ChannelRequiresAuth (msg_Channel msg)"
  shows "fst (VerifyTokenAgainst (now_token e) (signingSecret w) (socketID (conns w c)) (msg_Channel msg) (msg_Token msg) (cache w)) = None"
  using assms by (auto simp: checkToken_def Let_def split: option.splits prod.splits)

lemma joinChannel_subs:
  "gm_get (subs (conns (joinChannel itf c msg w) d)) n \<noteq> None \<Longrightarrow>
   gm_get (subs (conns w d)) n \<noteq> None \<or> (d = c \<and> n = msg_Channel msg)"
  by (auto simp: joinChannel_def Let_def reply_ops reply_def split: if_splits prod.splits option.splits sub_error.splits)

lemma allowControl_cache: "cache (snd (allowControl ops e c msg w)) = cache w"
proof -
  obtain ok b where r: "rate_Allow ops (now_control e) (controlRate (conns w c)) = (ok, b)" by fastforce
  obtain ok' w2 where k: "allowKey ops e c (upd_conn c (\<lambda>k. k\<lparr>controlRate := b\<rparr>) w) = (ok', w2)" by fastforce
  have "cache w2 = cache w" using k allowKey_conns(5) [of ops e c "upd_conn c (\<lambda>k. k\<lparr>controlRate := b\<rparr>) w"] by simp
  with r k show ?thesis by (simp add: allowControl_def Let_def reply_ops)
qed

lemma handleSubscribe_subs:
  assumes "gm_get (subs (conns (handleSubscribe ops itf e c msg w) d)) n \<noteq> None" "gm_get (subs (conns w d)) n = None"
  shows "d = c \<and> n = msg_Channel msg \<and>
    \<not> (channelReserved n \<and> \<not> reservedSubscribeAllowed n) \<and>
    (ChannelRequiresAuth n \<longrightarrow>
      fst (VerifyTokenAgainst (now_token e) (signingSecret w) (socketID (conns w c)) n (msg_Token msg) (cache w)) = None)"
proof -
  obtain ok w1 where a: "allowControl ops e c msg w = (ok, w1)" by fastforce
  have f1: "frame w w1" using frame_allowControl [of w ops e c msg] a by simp
  have c1: "cache w1 = cache w" using allowControl_cache [of ops e c msg w] a by simp
  obtain ok2 w2 where t: "checkToken e c msg w1 = (ok2, w2)" by fastforce
  have f2: "frame w w2" using frame_trans [OF f1] frame_checkToken [of w1 e c msg] t by simp
  have fr: "frame w w' \<Longrightarrow> gm_get (subs (conns w' d)) n = None" for w' :: "'a world"
    using assms(2) frame_keeps(1) by metis
  have res: "\<not> (channelReserved (msg_Channel msg) \<and> \<not> reservedSubscribeAllowed (msg_Channel msg))"
  proof
    assume "channelReserved (msg_Channel msg) \<and> \<not> reservedSubscribeAllowed (msg_Channel msg)"
    then have "handleSubscribe ops itf e c msg w = sendOpError c msg ''RESERVED_CHANNEL'' ''channel name reserved for server use'' w"
      by (simp add: handleSubscribe_def)
    then show False using assms(1) fr [OF frame_replies(3)] by simp
  qed
  have "ok" using assms(1) fr [OF f1] a res by (cases ok) (auto simp: handleSubscribe_def)
  have hit: "gm_get (subs (conns w1 c)) (msg_Channel msg) = None"
  proof (rule ccontr)
    assume "\<not> ?thesis"
    then have "handleSubscribe ops itf e c msg w = sendAck c ''subscribed'' (msg_Channel msg) w1"
      using a \<open>ok\<close> res by (auto simp: handleSubscribe_def)
    then show False using assms(1) fr [OF frame_trans [OF f1 frame_replies(1)]] by simp
  qed
  have "ok2" using assms(1) fr [OF f2] a res hit \<open>ok\<close> t by (cases ok2) (auto simp: handleSubscribe_def)
  then have "handleSubscribe ops itf e c msg w = joinChannel itf c msg w2"
    using a t res hit \<open>ok\<close> by (auto simp: handleSubscribe_def)
  then have "d = c \<and> n = msg_Channel msg" using joinChannel_subs [of itf c msg w2 d n] assms(1) fr [OF f2] by auto
  moreover have "ChannelRequiresAuth (msg_Channel msg) \<Longrightarrow>
      fst (VerifyTokenAgainst (now_token e) (signingSecret w) (socketID (conns w c)) (msg_Channel msg) (msg_Token msg) (cache w)) = None"
    using checkToken_passes [of e c msg w1 w2] t \<open>ok2\<close> frame_keeps(3,4) [OF f1] c1 by simp
  ultimately show ?thesis using res by simp
qed

lemma handleUnsubscribe_subs:
  assumes "gm_get (subs (conns (handleUnsubscribe ops e c msg w) d)) n \<noteq> None"
  shows "gm_get (subs (conns w d)) n \<noteq> None"
proof -
  obtain ok w1 where a: "allowControl ops e c msg w = (ok, w1)" by fastforce
  have keep: "subs (conns w1 d) = subs (conns w d)"
    using frame_allowControl [of w ops e c msg] a frame_keeps(1) [of w w1] by simp
  have "gm_get (subs (conns w1 d)) n \<noteq> None"
    using assms a by (cases ok; cases "gm_get (subs (conns w1 c)) (msg_Channel msg)"; cases "d = c")
      (auto simp: handleUnsubscribe_def Let_def reply_ops reply_def split: if_splits)
  then show ?thesis by (simp add: keep)
qed

text \<open>The branches of \<open>handle\<close>.\<close>

lemma handle_cases:
  obtains (error) code m where "handle ops itf e c raw w = sendError c code m w" "plain_key code" "plain_key m" "length code + length m \<le> 60"
  | (bad_channel) msg m where "handle ops itf e c raw w = sendOpError c msg ''BAD_CHANNEL'' m w"
      "ValidateChannelName (msg_Channel msg) = Some m" "msg_Type msg \<in> {''subscribe'', ''unsubscribe'', ''publish''}"
  | (subscribe) msg where "handle ops itf e c raw w = handleSubscribe ops itf e c msg w" "Unmarshal_incoming raw = Some msg"
      "msg_Type msg = ''subscribe''" "ValidateChannelName (msg_Channel msg) = None"
  | (unsubscribe) msg where "handle ops itf e c raw w = handleUnsubscribe ops e c msg w" "Unmarshal_incoming raw = Some msg"
      "msg_Type msg = ''unsubscribe''" "ValidateChannelName (msg_Channel msg) = None"
  | (publish) msg where "handle ops itf e c raw w = handlePublish ops e c msg w" "Unmarshal_incoming raw = Some msg"
      "msg_Type msg = ''publish''" "ValidateChannelName (msg_Channel msg) = None"
proof (cases "utf8_Valid raw \<and> Unmarshal_incoming raw \<noteq> None")
  case False
  then have "handle ops itf e c raw w = sendError c ''BAD_JSON'' ''message is not valid UTF-8'' w \<or>
      handle ops itf e c raw w = sendError c ''BAD_JSON'' ''malformed message'' w"
    by (cases "utf8_Valid raw") (auto simp: handle_def)
  then show thesis using error by (auto simp: plain_key_def)
next
  case True
  then obtain msg where v: "utf8_Valid raw" and m: "Unmarshal_incoming raw = Some msg" by blast
  let ?ops = "{''subscribe'', ''unsubscribe'', ''publish''}"
  show thesis
  proof (cases "msg_Type msg \<in> ?ops")
    case False
    then have "handle ops itf e c raw w = sendError c ''BAD_TYPE'' ''unknown message type'' w"
      using v m by (simp add: handle_def)
    then show thesis by (rule error) (simp_all add: plain_key_def)
  next
    case True
    show thesis
    proof (cases "ValidateChannelName (msg_Channel msg)")
      case (Some x)
      then have "handle ops itf e c raw w = sendOpError c msg ''BAD_CHANNEL'' x w"
        using v m True by (simp add: handle_def)
      then show thesis using bad_channel Some True by blast
    next
      case None
      consider "msg_Type msg = ''subscribe''" | "msg_Type msg = ''unsubscribe''" | "msg_Type msg = ''publish''"
        using True by blast
      then show thesis
      proof cases
        case 1
        with v m None have "handle ops itf e c raw w = handleSubscribe ops itf e c msg w" by (simp add: handle_def)
        with m 1 None show thesis by (intro subscribe)
      next
        case 2
        with v m None have "handle ops itf e c raw w = handleUnsubscribe ops e c msg w" by (simp add: handle_def)
        with m 2 None show thesis by (intro unsubscribe)
      next
        case 3
        with v m None have "handle ops itf e c raw w = handlePublish ops e c msg w" by (simp add: handle_def)
        with m 3 None show thesis by (intro publish)
      qed
    qed
  qed
qed

text \<open>
  C24: Nobody joins a private channel without a token. If handling any bytes from a connection makes
  any connection a member of a channel it was not in, then it is this connection, the bytes were a
  \<open>subscribe\<close> for that channel, the name is not reserved (the stats channel aside), and, for a
  \<open>private-\<close> or \<open>presence-\<close> name, the token in the message was accepted for exactly this socket and
  this channel.
\<close>

theorem join_needs_token:
  assumes "gm_get (subs (conns (handle ops itf e c raw w) d)) n \<noteq> None" "gm_get (subs (conns w d)) n = None"
  shows "d = c \<and> (\<exists>msg. Unmarshal_incoming raw = Some msg \<and> msg_Type msg = ''subscribe'' \<and> msg_Channel msg = n \<and>
    ValidateChannelName n = None \<and> \<not> (channelReserved n \<and> n \<noteq> statsChannel) \<and>
    (ChannelRequiresAuth n \<longrightarrow>
      fst (VerifyTokenAgainst (now_token e) (signingSecret w) (socketID (conns w c)) n (msg_Token msg) (cache w)) = None))"
proof -
  have fr: "frame w w' \<Longrightarrow> gm_get (subs (conns w' d)) n = None" for w' :: "'a world"
    using assms(2) frame_keeps(1) by metis
  show ?thesis
  proof (cases rule: handle_cases [of ops itf e c raw w])
    case (subscribe msg)
    then show ?thesis
      using handleSubscribe_subs [of ops itf e c msg w d n] assms by (auto simp: reservedSubscribeAllowed_def)
  next
    case (unsubscribe msg)
    then show ?thesis using handleUnsubscribe_subs [of ops e c msg w d n] assms by simp
  qed (use assms(1) fr [OF frame_replies(2)] fr [OF frame_replies(3)] fr [OF frame_handlePublish] in simp_all)
qed

definition demo_raw :: "string \<Rightarrow> string \<Rightarrow> bytes" where
  "demo_raw t n = json_object (map (\<lambda>(k, v). (k, json_string False v)) [(''type'', t), (''channel'', n)])"

lemma demo_raw_parse:
  assumes "plain_key t" "plain_key n"
  shows "Unmarshal_incoming (demo_raw t n) = Some \<lparr>msg_Type = t, msg_Channel = n, msg_Token = [], msg_Data = []\<rparr>"
proof -
  have "json_parse (demo_raw t n) = Some (JObj (map (\<lambda>(k, v). (k, JStr v, json_string False v)) [(''type'', t), (''channel'', n)]))"
    unfolding demo_raw_def
    by (rule parse_string_object) (use assms plain_utf8 in \<open>auto simp: plain_key_def [of "''type''"] plain_key_def [of "''channel''"]\<close>)
  then show ?thesis
    by (simp add: Unmarshal_incoming_def json_Unmarshal_def decode_struct_def field_of_def incoming_fields_def str_field_def)
qed

lemma demo_raw_utf8: "plain_key t \<Longrightarrow> plain_key n \<Longrightarrow> utf8_Valid (demo_raw t n)"
proof -
  assume a: "plain_key t" "plain_key n"
  have app: "utf8_Valid (a @ b) = utf8_Valid b" if "\<forall>x \<in> set a. byte_val x < 0x80" for a b
    using that by (induction a) auto
  have asc: "\<forall>x \<in> set k. byte_val x < 0x80" if "plain_key k" for k using that by (simp add: plain_key_def)
  show ?thesis using app asc a
    by (simp add: demo_raw_def json_object_def json_string_def plain_escape)
qed

lemma demo_subscribe:
  "gm_get (subs (conns (handle free_ops (\<lambda>_ st. st) demo_env 1 (demo_raw ''subscribe'' ''lobby'') demo_world) 1)) ''lobby'' \<noteq> None"
proof -
  have p: "plain_key ''subscribe''" "plain_key ''lobby''" by (simp_all add: plain_key_def)
  have v: "ValidateChannelName ''lobby'' = None" by (simp add: ValidateChannelName_def maxChannelNameLen_def ctl_rune_def)
  have r: "\<not> channelReserved ''lobby''" "\<not> ChannelRequiresAuth ''lobby''"
    by (simp_all add: channelReserved_def reservedChannelPrefix_def ChannelRequiresAuth_def authRequiredPrefixes_def HasPrefix_def)
  let ?m = "\<lparr>msg_Type = ''subscribe'', msg_Channel = ''lobby'', msg_Token = [], msg_Data = []\<rparr>"
  have h: "handle free_ops (\<lambda>_ st. st) demo_env 1 (demo_raw ''subscribe'' ''lobby'') demo_world =
    handleSubscribe free_ops (\<lambda>_ st. st) demo_env 1 ?m demo_world"
    using demo_raw_parse [OF p] demo_raw_utf8 [OF p] v by (simp add: handle_def)
  show ?thesis unfolding h
    by (simp add: handleSubscribe_def allowControl_def allowKey_def checkToken_def joinChannel_def r Let_def
        Limiter_Allow_def free_ops_def demo_world_def world_init_def demo_conn_def new_conn_def reply_ops reply_def
        maxSubscribeRetries_def numeral_3_eq_3 syncMap_GetOrCreate_def syncMap_slow_def newChannel_def Map_LoadOrStore_def
        hub_Subscribe_def defaultMaxSubsPerChannel_def defaultMaxChannelsPerConn_def)
qed

theorem join_needs_token_witness:
  "\<exists>msg. Unmarshal_incoming (demo_raw ''subscribe'' ''lobby'') = Some msg \<and> msg_Type msg = ''subscribe'' \<and> msg_Channel msg = ''lobby''"
proof -
  have "gm_get (subs (conns demo_world 1)) ''lobby'' = None"
    by (simp add: demo_world_def demo_conn_def)
  from join_needs_token [OF demo_subscribe this] show ?thesis by blast
qed

end
