(* ===== verification/Conn_Members.thy ===== *)
theory Conn_Members
  imports Conn_Props
begin

text \<open>
  Membership and the life of a connection: when a subscribe succeeds, what an unsubscribe and the end
  of a connection leave behind, the size of the replies, the slow-consumer signal, and what holds in
  every reachable state of the server.
\<close>

declare map_of_eq_Some_iff [simp del] Some_eq_map_of_iff [simp del]

subsection \<open>Progress of a subscribe\<close>

text \<open>One round without a sweep in its gap is enough.\<close>

lemma subscribe_loop_succeeds:
  assumes "itf_ok itf" "chans_wf st" "i < n" "itf i = id"
    "\<forall>j < length (snd st). Name (snd st ! j) = name \<longrightarrow> length (Subscribers (snd st ! j)) < defaultMaxSubsPerChannel"
  shows "fst (fst (subscribe_loop n itf name c res st)) = None"
  using assms(2-)
proof (induction n arbitrary: res st)
  case (Suc n)
  obtain r h where st: "st = (r, h)" by (cases st)
  obtain ch1 r1 h1 where g: "reg_GetOrCreate name (r, h) = (ch1, r1, h1)" by (metis prod_cases3)
  obtain r2 h2 where it: "itf n (r1, h1) = (r2, h2)" by fastforce
  note G = GetOrCreate_wf [OF Suc.prems(1) [unfolded st] g]
  have g1: "grows h h1" using G grows_append by blast
  have I: "chans_wf (r2, h2)" "grows h1 h2" using itf_step [OF assms(1), of "(r1, h1)" n] G it by auto
  have g2: "grows h h2" using grows_trans [OF g1 I(2)] .
  have ch1: "ch1 < length h2" "Name (h2 ! ch1) = name" using G I(2) by (auto simp: grows_def)
  have cap: "length (Subscribers (h2 ! j)) < defaultMaxSubsPerChannel" if "j < length h2" "Name (h2 ! j) = name" for j
    using g2 Suc.prems(4) that by (cases "j < length h") (auto simp: st grows_def defaultMaxSubsPerChannel_def)
  show ?case
  proof (cases rule: Subscribe_cases [of h2 ch1 c defaultMaxSubsPerChannel])
    case 1
    have "i \<noteq> n"
    proof
      assume "i = n"
      then have "h2 = h1" using it Suc.prems(3) by simp
      then show False using G 1(1) by simp
    qed
    then have "i < n" using Suc.prems(2) by simp
    then have "fst (fst (subscribe_loop n itf name c (Some ErrChannelDeleted, ch1) (r2, h2))) = None"
      using Suc.prems(3) cap by (intro Suc.IH [OF I(1)]) auto
    with 1 show ?thesis by (simp add: st g it)
  next
    case 2
    with cap [OF ch1] show ?thesis by simp
  next
    case 3
    then show ?thesis by (simp add: st g it)
  qed
qed simp

text \<open>
  C15: A subscribe that may succeed does. If the name is valid to subscribe, both control budgets
  allow it, no token is needed or the token is accepted, the connection is below its channel limit
  and the channel below its subscriber limit, then the connection is a subscriber of the registered
  channel afterwards, even when the garbage collector removes the channel under it in all but one
  of the three rounds.
\<close>

theorem subscribe_succeeds:
  assumes w: "winv w" "itf_ok itf" "running (conns w c)" "i < maxSubscribeRetries" "itf i = id"
    and name: "channelReserved (msg_Channel msg) \<longrightarrow> msg_Channel msg = statsChannel"
    and budget: "allowControl ops e c msg w = (True, w1)"
    and token: "ChannelRequiresAuth (msg_Channel msg) \<longrightarrow>
      fst (VerifyTokenAgainst (now_token e) (signingSecret w) (socketID (conns w c)) (msg_Channel msg) (msg_Token msg) (cache w)) = None"
    and room: "length (subs (conns w c)) < maxChannels (conns w c)"
      "\<forall>j < length (chans w). Name (chans w ! j) = msg_Channel msg \<longrightarrow> length (Subscribers (chans w ! j)) < defaultMaxSubsPerChannel"
  shows "let w' = handleSubscribe ops itf e c msg w in
    \<exists>ch. reg_Lookup (reg w') (msg_Channel msg) = Some ch \<and> c \<in> set (Subscribers (chans w' ! ch)) \<and>
      gm_get (subs (conns w' c)) (msg_Channel msg) = Some ch"
proof -
  let ?n = "msg_Channel msg" and ?w' = "handleSubscribe ops itf e c msg w"
  have f1: "frame w w1" using frame_allowControl [of w ops e c msg] budget by simp
  have c1: "cache w1 = cache w" using allowControl_cache [of ops e c msg w] budget by simp
  have inv: "winv ?w'" by (rule handleSubscribe_inv [OF w(1-3)])
  have reserved: "\<not> (channelReserved ?n \<and> \<not> reservedSubscribeAllowed ?n)" using name by (simp add: reservedSubscribeAllowed_def)
  have "gm_get (subs (conns ?w' c)) ?n \<noteq> None"
  proof (cases "gm_get (subs (conns w1 c)) ?n")
    case (Some ch)
    then have "?w' = sendAck c ''subscribed'' ?n w1" using budget reserved by (auto simp: handleSubscribe_def)
    then show ?thesis using Some by (simp add: reply_ops reply_def)
  next
    case None
    obtain er ca where v: "VerifyTokenAgainst (now_token e) (signingSecret w) (socketID (conns w c)) ?n (msg_Token msg) (cache w) = (er, ca)"
      by fastforce
    have "ChannelRequiresAuth ?n \<Longrightarrow> er = None" using token v by simp
    then have "checkToken e c msg w1 = (True, if ChannelRequiresAuth ?n then w1\<lparr>cache := ca\<rparr> else w1)"
      using v frame_keeps(3,4) [OF f1] c1 by (simp add: checkToken_def)
    then obtain w2 where t: "checkToken e c msg w1 = (True, w2)" by blast
    have f2: "frame w w2" using frame_trans [OF f1] frame_checkToken [of w1 e c msg] t by simp
    have w2: "?w' = joinChannel itf c msg w2" using budget reserved None t by (auto simp: handleSubscribe_def)
    have keep: "subs (conns w2 c) = subs (conns w c)" "reg w2 = reg w" "chans w2 = chans w" "maxChannels (conns w2 c) = maxChannels (conns w c)"
      using f2 by (simp_all add: frame_def)
    obtain err ch r h where l: "subscribe_loop maxSubscribeRetries itf ?n c (None, 0) (reg w, chans w) = ((err, ch), r, h)"
      by (metis prod_cases3 prod.collapse)
    have "chans_wf (reg w, chans w)" using w(1) by (simp add: winv_def linked_wf)
    from subscribe_loop_succeeds [OF w(2) this w(4,5), of ?n c "(None, 0)"] room(2) l have "err = None" by simp
    then show ?thesis using room(1) l unfolding w2 by (simp add: joinChannel_def keep reply_ops reply_def)
  qed
  then obtain ch where ch: "gm_get (subs (conns ?w' c)) ?n = Some ch" by blast
  have lk: "subs_linked ?w'" using inv by (simp add: winv_def)
  have mem: "ch < length (chans ?w')" "Name (chans ?w' ! ch) = ?n" "c \<in> set (Subscribers (chans ?w' ! ch))"
    using linkedD [OF lk] ch by blast+
  then have "Subscribers (chans ?w' ! ch) \<noteq> []" by auto
  then have "reg_abs (reg ?w') ?n = Some ch" using chans_wf_subscribed [OF linked_wf [OF lk] mem(1)] mem(2) by simp
  then have "reg_Lookup (reg ?w') ?n = Some ch"
    using rg.lookup_abs [OF chans_wf_ok [OF linked_wf [OF lk]]] by simp
  with mem ch show ?thesis by (simp add: Let_def)
qed

lemma allowControl_others: "d \<noteq> c \<Longrightarrow> conns (snd (allowControl ops e c msg w)) d = conns w d"
  by (simp add: allowControl_def Let_def case_prod_unfold reply_ops reply_def)

lemma unlisted_del:
  assumes "subs_linked w" "i < length (chans w)" "gm_get (subs (conns w c)) (Name (chans w ! i)) \<noteq> Some i"
  shows "(chans w ! i)\<lparr>Subscribers := set_del c (Subscribers (chans w ! i))\<rparr> = chans w ! i"
proof -
  have "c \<notin> set (Subscribers (chans w ! i))" using linkedD [OF assms(1), of c "Name (chans w ! i)" i] assms(2,3) by simp
  then have "set_del c (Subscribers (chans w ! i)) = Subscribers (chans w ! i)" by (auto simp: filter_id_conv)
  then show ?thesis by simp
qed

text \<open>
  C27: Leaving takes out this connection and nobody else. After an \<open>unsubscribe\<close> the control budgets
  allow, the channels are those from before, in which the connection has been struck off the subscribers
  of the channels of that name: every other subscriber of these, and every other channel, is as it was, in
  the same order. The registry and all other connections are untouched, and the connection keeps all its
  other subscriptions.
\<close>

theorem unsubscribe_leaves:
  assumes "winv w" "allowControl ops e c msg w = (True, w1)"
  shows "let w' = handleUnsubscribe ops e c msg w in
    chans w' = map (\<lambda>ch. if Name ch = msg_Channel msg then ch\<lparr>Subscribers := set_del c (Subscribers ch)\<rparr> else ch) (chans w) \<and>
    (\<forall>n. gm_get (subs (conns w' c)) n = (if n = msg_Channel msg then None else gm_get (subs (conns w c)) n)) \<and>
    reg w' = reg w \<and> (\<forall>d. d \<noteq> c \<longrightarrow> conns w' d = conns w d)"
proof -
  let ?n = "msg_Channel msg" and ?w' = "handleUnsubscribe ops e c msg w"
  let ?strike = "\<lambda>ch. if Name ch = ?n then ch\<lparr>Subscribers := set_del c (Subscribers ch)\<rparr> else ch"
  have f: "frame w w1" using frame_allowControl [of w ops e c msg] assms(2) by simp
  note keep = frame_keeps(1,5,6) [OF f]
  have others: "conns w1 d = conns w d" if "d \<noteq> c" for d
    using that assms(2) allowControl_others [of d c ops e msg w] by simp
  have lk: "subs_linked w" using assms(1) by (simp add: winv_def)
  show ?thesis
  proof (cases "gm_get (subs (conns w c)) ?n")
    case None
    then have w': "?w' = sendAck c ''unsubscribed'' ?n w1" using assms(2) keep(1) by (simp add: handleUnsubscribe_def)
    have "map ?strike (chans w) = chans w"
    proof (rule nth_equalityI)
      fix i assume "i < length (map ?strike (chans w))"
      with None unlisted_del [OF lk, of i c] show "map ?strike (chans w) ! i = chans w ! i" by auto
    qed simp
    with None w' keep others show ?thesis by (simp add: Let_def reply_ops reply_def)
  next
    case (Some ch)
    then have w': "?w' = sendAck c ''unsubscribed'' ?n (leave_channel c ch (own_del ?n c w1))"
      using assms(2) keep(1) by (simp add: handleUnsubscribe_def)
    have ch: "ch < length (chans w)" "Name (chans w ! ch) = ?n" using linkedD [OF lk] Some by blast+
    have "hub_Unsubscribe ch c (chans w) = map ?strike (chans w)"
    proof (rule nth_equalityI)
      fix i assume "i < length (hub_Unsubscribe ch c (chans w))"
      then have i: "i < length (chans w)" by simp
      show "hub_Unsubscribe ch c (chans w) ! i = map ?strike (chans w) ! i"
      proof (cases "i = ch")
        case False
        with i Some unlisted_del [OF lk i, of c] show ?thesis by (auto simp: Unsubscribe_nth [OF ch(1)])
      qed (use i ch in \<open>simp add: Unsubscribe_nth\<close>)
    qed simp
    with Some w' keep others show ?thesis by (simp add: Let_def reply_ops reply_def)
  qed
qed

lemma demo_allowed: "\<exists>w1. allowControl free_ops demo_env c msg demo_world = (True, w1)"
  by (simp add: allowControl_def allowKey_def free_ops_def Limiter_Allow_def Let_def)

theorem subscribe_succeeds_witness:
  "let w' = handleSubscribe free_ops (\<lambda>_. id) demo_env 1 ((demo_msg ''subscribe'')\<lparr>msg_Channel := ''lobby''\<rparr>) demo_world in
     \<exists>ch. reg_Lookup (reg w') ''lobby'' = Some ch \<and> 1 \<in> set (Subscribers (chans w' ! ch))"
proof -
  let ?m = "(demo_msg ''subscribe'')\<lparr>msg_Channel := ''lobby''\<rparr>"
  obtain w1 where b: "allowControl free_ops demo_env 1 ?m demo_world = (True, w1)" using demo_allowed by blast
  have r: "\<not> channelReserved ''lobby''" "\<not> ChannelRequiresAuth ''lobby''"
    by (simp_all add: channelReserved_def reservedChannelPrefix_def ChannelRequiresAuth_def authRequiredPrefixes_def HasPrefix_def)
  have i: "itf_ok (\<lambda>_. id)" by (simp add: itf_ok_def)
  have s: "length (subs (conns demo_world 1)) < maxChannels (conns demo_world 1)"
    "\<forall>j < length (chans demo_world). Name (chans demo_world ! j) = msg_Channel ?m \<longrightarrow> length (Subscribers (chans demo_world ! j)) < defaultMaxSubsPerChannel"
    by (simp_all add: demo_world_def demo_conn_def new_conn_def defaultMaxChannelsPerConn_def)
  have n: "channelReserved (msg_Channel ?m) \<longrightarrow> msg_Channel ?m = statsChannel"
    "ChannelRequiresAuth (msg_Channel ?m) \<longrightarrow>
      fst (VerifyTokenAgainst (now_token demo_env) (signingSecret demo_world) (socketID (conns demo_world 1)) (msg_Channel ?m) (msg_Token ?m) (cache demo_world)) = None"
    using r by simp_all
  have z: "0 < maxSubscribeRetries" by (simp add: maxSubscribeRetries_def)
  from subscribe_succeeds [OF demo_winv i demo_facts(8) z refl n(1) b n(2) s]
  have "\<exists>ch. reg_Lookup (reg (handleSubscribe free_ops (\<lambda>_. id) demo_env 1 ?m demo_world)) (msg_Channel ?m) = Some ch \<and>
      1 \<in> set (Subscribers (chans (handleSubscribe free_ops (\<lambda>_. id) demo_env 1 ?m demo_world) ! ch))"
    unfolding Let_def by blast
  then show ?thesis unfolding Let_def by simp
qed

theorem unsubscribe_leaves_witness:
  "let w' = handleUnsubscribe free_ops demo_env 1 (demo_msg ''unsubscribe'') demo_world in
     map Subscribers (chans demo_world) = [[1, 2]] \<and> map Subscribers (chans w') = [[2]] \<and> conns w' 2 = conns demo_world 2"
proof -
  obtain w1 where "allowControl free_ops demo_env 1 (demo_msg ''unsubscribe'') demo_world = (True, w1)"
    using demo_allowed by blast
  from unsubscribe_leaves [OF demo_winv this] show ?thesis by (simp add: Let_def demo_world_def)
qed

subsection \<open>Slow consumers\<close>

text \<open>
  A slow consumer is disconnected, and only it. Under \<open>PolicyDisconnect\<close>, offering a message to an
  open connection whose buffer is full leaves the buffer as it is, reports \<open>ErrSlowConsumer\<close>, counts
  one dropped message, and asks \<open>Run\<close> to close the connection; with room the message is appended and
  nothing is asked or counted. A closed connection takes nothing. No other connection is touched.
\<close>

theorem Send_slow_consumer:
  assumes "conn_policy (conns w c) = PolicyDisconnect" "length (send (conns w c)) \<le> sendChanSize"
  shows "let (err, w') = Conn_Send c b w; full = (length (send (conns w c)) = sendChanSize) in
    (\<forall>d. d \<noteq> c \<longrightarrow> conns w' d = conns w d) \<and>
    send (conns w' c) = (if closed (conns w c) \<or> full then send (conns w c) else send (conns w c) @ [b]) \<and>
    err = (if closed (conns w c) \<or> full then Some ErrSlowConsumer else None) \<and>
    closeReq (conns w' c) = (closeReq (conns w c) \<or> (\<not> closed (conns w c) \<and> full)) \<and>
    mcalls (mets w') = mcalls (mets w) @ (if \<not> closed (conns w c) \<and> full then [Dropped_Inc ''slow_consumer''] else [])"
  using assms by (auto simp: Conn_Send_unfold PolicyDisconnect_Apply_def try_send_def Let_def)

theorem Send_slow_consumer_witness:
  "let w = upd_conn 2 (\<lambda>k. k\<lparr>send := replicate 64 ''m''\<rparr>) demo_world; (err, w') = Conn_Send 2 ''x'' w in
     err = Some ErrSlowConsumer \<and> closeReq (conns w' 2) \<and> send (conns w' 2) = replicate 64 ''m'' \<and> conns w' 1 = conns demo_world 1"
proof -
  let ?w = "upd_conn 2 (\<lambda>k. k\<lparr>send := replicate 64 ''m''\<rparr>) demo_world"
  have p: "conn_policy (conns ?w 2) = PolicyDisconnect" "\<not> closed (conns ?w 2)"
    by (simp_all add: demo_world_def demo_conn_def new_conn_def)
  have l: "length (send (conns ?w 2)) = sendChanSize" by (simp add: sendChanSize_def)
  obtain err w' where s: "Conn_Send 2 ''x'' ?w = (err, w')" by fastforce
  from Send_slow_consumer [OF p(1), of "''x''"] l p(2) s show ?thesis by (simp add: Let_def)
qed

subsection \<open>The end of a connection\<close>

lemma fold_Unsubscribe_map:
  assumes "subs_linked w"
  shows "fold (\<lambda>ch. hub_Unsubscribe ch c) (map snd (subs (conns w c))) (chans w) =
    map (\<lambda>ch. ch\<lparr>Subscribers := set_del c (Subscribers ch)\<rparr>) (chans w)" (is "?l = map ?strike (chans w)")
proof -
  have mine: "gm_get (subs (conns w c)) n = Some ch \<longleftrightarrow> (n, ch) \<in> set (subs (conns w c))" for n ch
    using gm_get_in_set [OF linked_ok [OF assms]] map_of_SomeD by metis
  have in_h: "\<forall>ch \<in> set (map snd (subs (conns w c))). ch < length (chans w)"
    using linkedD [OF assms] mine by fastforce
  show ?thesis
  proof (rule nth_equalityI)
    fix i assume "i < length ?l"
    then have i: "i < length (chans w)" by simp
    show "?l ! i = map ?strike (chans w) ! i"
    proof (cases "i \<in> snd ` set (subs (conns w c))")
      case False
      then have "gm_get (subs (conns w c)) (Name (chans w ! i)) \<noteq> Some i" using mine by force
      with False i unlisted_del [OF assms i, of c] show ?thesis by (simp add: fold_Unsubscribe_nth [OF in_h])
    qed (use i in \<open>simp add: fold_Unsubscribe_nth [OF in_h]\<close>)
  qed simp
qed

text \<open>
  C30: A connection that has ended leaves nothing behind and takes nobody with it. After \<open>Run\<close>'s
  teardown the channels are those from before with this connection, and only it, struck off their
  subscribers; it has no subscriptions, the hub has dropped it and no other, its context is cancelled, its
  socket has been told to close, and whatever is offered to it afterwards is refused without being queued.
  The registry and every other connection are as before.
\<close>

theorem finished_conn_released:
  assumes "winv w"
  shows "let w' = Run_finish slow c w in
    chans w' = map (\<lambda>ch. ch\<lparr>Subscribers := set_del c (Subscribers ch)\<rparr>) (chans w) \<and> subs (conns w' c) = [] \<and>
    hconns (hubst w') = set_del c (hconns (hubst w)) \<and> cancelled (conns w' c) \<and> WsCloseNow \<in> set (ws_log (conns w' c)) \<and>
    (\<forall>b. Conn_Send c b w' = (Some ErrSlowConsumer, w')) \<and> reg w' = reg w \<and> (\<forall>d. d \<noteq> c \<longrightarrow> conns w' d = conns w d)"
proof -
  let ?w = "Run_finish slow c w"
  note defs = Run_finish_def Let_def cancel_def closeNetConn_def ws_call_def Conn_CloseFrame_def
  have eq: "subs (conns ?w c) = []" "cancelled (conns ?w c)" "WsCloseNow \<in> set (ws_log (conns ?w c))" "closed (conns ?w c)"
    "\<forall>d. d \<noteq> c \<longrightarrow> conns ?w d = conns w d" "hubst ?w = hub_Remove c (hubst w)" "reg ?w = reg w"
    by (simp_all add: defs)
  moreover have "chans ?w = fold (\<lambda>ch. hub_Unsubscribe ch c) (map snd (subs (conns w c))) (chans w)" by (simp add: defs)
  moreover have "Conn_Send c b ?w = (Some ErrSlowConsumer, ?w)" for b by (simp add: Conn_Send_unfold eq(4))
  moreover have "subs_linked w" using assms by (simp add: winv_def)
  ultimately show ?thesis using fold_Unsubscribe_map [of w c] by (simp add: Let_def hub_Remove_def)
qed

theorem finished_conn_released_witness:
  "let w' = Run_finish True 1 demo_world in map Subscribers (chans w') = [[2]] \<and> subs (conns w' 1) = [] \<and> conns w' 2 = conns demo_world 2"
  using finished_conn_released [OF demo_winv, of True 1] by (simp add: Let_def demo_world_def)

subsection \<open>Replies\<close>

definition small :: "bytes \<Rightarrow> bool" where
  "small b \<longleftrightarrow> length b < 1024"

lemma reply_small:
  "small b \<Longrightarrow> set (send (conns (reply c b w) d)) \<subseteq> set (send (conns w d)) \<union> {b. small b}"
  by (auto simp: reply_def try_send_def)

lemma op_reply_small:
  assumes "plain_key code" "plain_key message" "plain_key (msg_Type msg)" "length code + length message + length (msg_Type msg) \<le> 180"
  shows "set (send (conns (sendOpError c msg code message w) d)) \<subseteq> set (send (conns w d)) \<union> {b. small b}"
  unfolding reply_ops by (rule reply_small) (use op_error_length [OF assms] in \<open>simp add: small_def\<close>)

lemma ack_small:
  assumes "plain_key t" "length t \<le> 180" "length n \<le> maxChannelNameLen"
  shows "set (send (conns (sendAck c t n w) d)) \<subseteq> set (send (conns w d)) \<union> {b. small b}"
  unfolding reply_ops by (rule reply_small) (use ack_length [OF assms] in \<open>simp add: small_def\<close>)

lemma plain_literal [simp]: "plain_key (c # s) \<longleftrightarrow> 0x20 \<le> byte_val c \<and> byte_val c < 0x80 \<and> c \<noteq> quote \<and> c \<noteq> backslash \<and> plain_key s"
  "plain_key []"
  by (auto simp: plain_key_def)

definition grows_small :: "'l world \<Rightarrow> 'l world \<Rightarrow> cid \<Rightarrow> bool" where
  "grows_small w w' d \<longleftrightarrow> set (send (conns w' d)) \<subseteq> set (send (conns w d)) \<union> {b. small b}"

lemma grows_small_trans: "grows_small u v d \<Longrightarrow> grows_small v w d \<Longrightarrow> grows_small u w d"
  by (auto simp: grows_small_def)

lemma grows_small_same: "send (conns w' d) = send (conns w d) \<Longrightarrow> grows_small w w' d"
  by (simp add: grows_small_def)

lemma allowControl_small:
  assumes "msg_Type msg \<in> {''subscribe'', ''unsubscribe'', ''publish''}"
  shows "grows_small w (snd (allowControl ops e c msg w)) d"
proof -
  obtain ok b where r: "rate_Allow ops (now_control e) (controlRate (conns w c)) = (ok, b)" by fastforce
  let ?w1 = "upd_conn c (\<lambda>k. k\<lparr>controlRate := b\<rparr>) w"
  obtain ok' w2 where k: "allowKey ops e c ?w1 = (ok', w2)" by fastforce
  have w2: "conns w2 = conns ?w1" using k allowKey_conns(1) [of ops e c ?w1] by simp
  have t: "plain_key (msg_Type msg)" "length (msg_Type msg) \<le> 11" using assms by auto
  have s1: "grows_small w ?w1 d" by (rule grows_small_same) simp
  have s2: "grows_small w w2 d" by (rule grows_small_same) (simp add: w2)
  have "grows_small ?w1 (sendOpError c msg ''RATE_LIMITED_CONN'' ''too many control ops on this connection'' ?w1) d"
    "grows_small w2 (sendOpError c msg ''RATE_LIMITED'' ''too many control ops'' w2) d"
    unfolding grows_small_def by (rule op_reply_small; use t in simp)+
  with s1 s2 r k show ?thesis by (auto simp: allowControl_def Let_def intro: grows_small_trans)
qed

end
