(* ===== verification/System_Props.thy ===== *)
theory System_Props
  imports Conn_Members
begin

text \<open>
  What holds in every state a server can reach, whatever its connections, its garbage collector, its
  workers and its administrator do (\<open>sys_reach\<close> of \<open>System\<close>).
\<close>

declare map_of_eq_Some_iff [simp del] Some_eq_map_of_iff [simp del]

subsection \<open>A run\<close>

definition run_world :: "unit world" where
  "run_world = world_init free_ops (ShardedReg NewSharded) PerConn ''secret'' (Limiter_New 100 200 60)"

lemma run_world_reach: "sys_reach free_ops run_world"
  using sys_reach.init [of "ShardedReg NewSharded" "mets run_world" PerConn free_ops "''secret''" "Limiter_New 100 200 60"]
  by (simp add: run_world_def world_init_def)

text \<open>Connection 1 starts, and its first message is read.\<close>

definition run_start :: "unit world" where
  "run_start = snd (Run_start free_ops PolicyDisconnect False 1 ''s1'' ''k'' run_world)"

definition run_subscribed :: "unit world" where
  "run_subscribed = snd (readPump_step free_ops (\<lambda>_. id) demo_env (Some (demo_raw ''subscribe'' ''room'')) 1 run_start)"

lemma run_start_running: "running (conns run_start 1)"
  by code_simp

lemma run_start_reach: "sys_reach free_ops run_start"
  unfolding run_start_def
  by (rule sys_reach.step [OF run_world_reach sys_step.start]) (simp add: run_world_def world_init_def dead_conn_def new_conn_def)

lemma run_subscribed_reach: "sys_reach free_ops run_subscribed"
  unfolding run_subscribed_def
  by (rule sys_reach.step [OF run_start_reach sys_step.reading [OF run_start_running]]) (simp add: itf_ok_def)

lemma run_subscribed_eq: "run_subscribed = handleSubscribe free_ops (\<lambda>_. id) demo_env 1
    \<lparr>msg_Type = ''subscribe'', msg_Channel = ''room'', msg_Token = [], msg_Data = []\<rparr> run_start"
proof -
  have p: "plain_key ''subscribe''" "plain_key ''room''" by simp_all
  have v: "ValidateChannelName ''room'' = None" by code_simp
  show ?thesis unfolding run_subscribed_def readPump_step_def handle_def
    by (simp add: demo_raw_utf8 [OF p] demo_raw_parse [OF p] v)
qed

lemma run_subscribed_member: "gm_get (subs (conns run_subscribed 1)) ''room'' = Some 0"
  unfolding run_subscribed_eq by code_simp

subsection \<open>What a message can queue\<close>

lemma joinChannel_small:
  assumes "msg_Type msg \<in> {''subscribe'', ''unsubscribe'', ''publish''}" "length (msg_Channel msg) \<le> maxChannelNameLen"
  shows "grows_small w (joinChannel itf c msg w) d"
proof -
  have t: "plain_key (msg_Type msg)" "length (msg_Type msg) \<le> 11" using assms by auto
  obtain err ch r h where l: "subscribe_loop maxSubscribeRetries itf (msg_Channel msg) c (None, 0) (reg w, chans w) = ((err, ch), r, h)"
    by (metis prod_cases3 prod.collapse)
  let ?w1 = "w\<lparr>reg := r, chans := h\<rparr>"
  have s1: "grows_small w ?w1 d" "grows_small w (upd_conn c (\<lambda>k. k\<lparr>subs := s k\<rparr>) ?w1) d" for s
    by (rule grows_small_same; simp)+
  have e: "grows_small v (sendOpError c msg ''LIMIT_CHANNELS'' ''max channels per conn'' v) d"
    "grows_small v (sendOpError c msg ''LIMIT_SUBSCRIBERS'' ''max subscribers per channel'' v) d"
    "grows_small v (sendOpError c msg ''SUBSCRIBE_FAILED'' (sub_error_text ErrChannelDeleted) v) d"
    "grows_small v (sendAck c ''subscribed'' (msg_Channel msg) v) d" for v :: "'a world"
    unfolding grows_small_def by (rule op_reply_small ack_small; use t assms in simp)+
  note e1 = grows_small_trans [OF s1(1) e(2)] grows_small_trans [OF s1(1) e(3)] grows_small_trans [OF s1(2) e(4)]
  show ?thesis
  proof (cases err)
    case None
    then show ?thesis using l e(1) e1(3) by (simp add: joinChannel_def)
  next
    case (Some er)
    then show ?thesis using l e(1) e1(1,2) by (cases er) (simp_all add: joinChannel_def)
  qed
qed

lemma checkToken_small:
  assumes "msg_Type msg \<in> {''subscribe'', ''unsubscribe'', ''publish''}"
  shows "grows_small w (snd (checkToken e c msg w)) d"
proof -
  have t: "plain_key (msg_Type msg)" "length (msg_Type msg) \<le> 11" using assms by auto
  have s: "grows_small w (count AuthFails_Inc (w\<lparr>cache := x\<rparr>)) d" "grows_small w (w\<lparr>cache := x\<rparr>) d" for x
    by (rule grows_small_same; simp)+
  have "grows_small v (sendOpError c msg ''AUTH_REPLAYED'' ''token already used'' v) d"
    "grows_small v (sendOpError c msg ''AUTH_FAILED'' ''invalid token'' v) d" for v :: "'a world"
    unfolding grows_small_def by (rule op_reply_small; use t in simp)+
  then have "grows_small w (sendOpError c msg ''AUTH_REPLAYED'' ''token already used'' (count AuthFails_Inc (w\<lparr>cache := x\<rparr>))) d"
    "grows_small w (sendOpError c msg ''AUTH_FAILED'' ''invalid token'' (count AuthFails_Inc (w\<lparr>cache := x\<rparr>))) d" for x
    using grows_small_trans [OF s(1)] by blast+
  with s(2) show ?thesis
    by (auto simp: checkToken_def Let_def grows_small_same split: option.split prod.split)
qed

lemma handleSubscribe_small:
  assumes "msg_Type msg = ''subscribe''" "length (msg_Channel msg) \<le> maxChannelNameLen"
  shows "grows_small w (handleSubscribe ops itf e c msg w) d"
proof -
  have t: "msg_Type msg \<in> {''subscribe'', ''unsubscribe'', ''publish''}" using assms by simp
  obtain ok w1 where a: "allowControl ops e c msg w = (ok, w1)" by fastforce
  have s1: "grows_small w w1 d" using allowControl_small [OF t, of w ops e c d] a by simp
  obtain ok2 w2 where k: "checkToken e c msg w1 = (ok2, w2)" by fastforce
  have s2: "grows_small w w2 d" using grows_small_trans [OF s1] checkToken_small [OF t, of w1 e c d] k by simp
  have r: "grows_small w (sendOpError c msg ''RESERVED_CHANNEL'' ''channel name reserved for server use'' w) d"
    "grows_small v (sendAck c ''subscribed'' (msg_Channel msg) v) d" for v :: "'a world"
    unfolding grows_small_def by (rule op_reply_small ack_small; use assms in simp)+
  show ?thesis
    using a k r(1) s1 s2 grows_small_trans [OF s1 r(2)] grows_small_trans [OF s2 joinChannel_small [OF t assms(2)]]
    by (cases ok; cases ok2) (simp_all add: handleSubscribe_def)
qed

lemma handleUnsubscribe_small:
  assumes "msg_Type msg = ''unsubscribe''" "length (msg_Channel msg) \<le> maxChannelNameLen"
  shows "grows_small w (handleUnsubscribe ops e c msg w) d"
proof -
  have t: "msg_Type msg \<in> {''subscribe'', ''unsubscribe'', ''publish''}" using assms by simp
  obtain ok w1 where a: "allowControl ops e c msg w = (ok, w1)" by fastforce
  have s1: "grows_small w w1 d" using allowControl_small [OF t, of w ops e c d] a by simp
  have r: "grows_small v (sendAck c ''unsubscribed'' (msg_Channel msg) v) d" for v :: "'a world"
    unfolding grows_small_def by (rule ack_small; use assms in simp)
  have s2: "grows_small w1 ((upd_conn c (\<lambda>k. k\<lparr>subs := s k\<rparr>) w1)\<lparr>chans := h\<rparr>) d" for s h
    by (rule grows_small_same) simp
  show ?thesis
    using a s1 grows_small_trans [OF s1 r] grows_small_trans [OF grows_small_trans [OF s1 s2] r]
    by (cases ok) (simp_all add: handleUnsubscribe_def Let_def split: option.split)
qed

lemma Send_queues: "set (send (conns (deliver c b w) d)) \<subseteq> insert b (set (send (conns w d)))"
proof (cases "closed (conns w c)")
  case False
  obtain err q where a: "policy_Apply (conn_policy (conns w c)) sendChanSize id id (send (conns w c)) b = (err, q)"
    by fastforce
  have tl: "x \<in> set (tl xs) \<Longrightarrow> x \<in> set xs" for x and xs :: "bytes list" by (cases xs) auto
  have "set q \<subseteq> insert b (set (send (conns w c)))"
    using a by (cases "conn_policy (conns w c)") (auto simp: policy_defs try_send_def Let_def split: if_splits dest: tl)
  with a False show ?thesis by (auto simp: Conn_Send_unfold Let_def split: if_splits)
qed (simp add: Conn_Send_unfold subset_insertI)

lemma Broadcast_queues: "set (send (conns (hub_Broadcast deliver h ch b w) d)) \<subseteq> insert b (set (send (conns w d)))"
proof -
  have "set (send (conns (fold (\<lambda>s. deliver s b) xs w) d)) \<subseteq> insert b (set (send (conns w d)))" for xs
  proof (induction xs arbitrary: w)
    case (Cons x xs)
    from Cons.IH [of "deliver x b w"] Send_queues [of x b w d] show ?case by (simp add: comp_def) blast
  qed auto
  then show ?thesis by (simp add: hub_Broadcast_def)
qed

lemma handlePublish_small:
  assumes "fan w = PerConn" "msg_Type msg = ''publish''"
  shows "set (send (conns (handlePublish ops e c msg w) d)) \<subseteq>
    set (send (conns w d)) \<union> {b. small b} \<union> {event_frame (msg_Channel msg) (msg_Data msg) (fresh_ulid e)}"
proof -
  obtain ok b where r: "rate_Allow ops (now_publish e) (connRate (conns w c)) = (ok, b)" by fastforce
  let ?w1 = "upd_conn c (\<lambda>k. k\<lparr>connRate := b\<rparr>) w"
  obtain ok' w2 where k: "allowKey ops e c ?w1 = (ok', w2)" by fastforce
  have w2: "conns w2 = conns ?w1" "fan w2 = PerConn" using k allowKey_conns [of ops e c ?w1] assms(1)
    by (auto simp: allowKey_def split: prod.splits)
  have s: "grows_small w ?w1 d" "grows_small w w2 d" by (rule grows_small_same; simp add: w2)+
  have q: "grows_small v (sendOpError c msg ''RESERVED_CHANNEL'' ''channel name reserved for server use'' v) d"
    "grows_small v (sendOpError c msg ''NOT_SUBSCRIBED'' ''must subscribe before publish'' v) d"
    "grows_small v (sendOpError c msg ''RATE_LIMITED_CONN'' ''too many publishes on this connection'' v) d"
    "grows_small v (sendOpError c msg ''RATE_LIMITED'' ''too many publishes for this API key'' v) d" for v :: "'a world"
    unfolding grows_small_def by (rule op_reply_small; use assms(2) in simp)+
  have p: "set (send (conns (count l (world_Broadcast ch out (count Published_Inc w2))) d)) \<subseteq> insert out (set (send (conns w d)))" for l ch out
    using Broadcast_queues [of "chans w2" ch out "count Published_Inc w2" d] w2 by (cases "d = c") (auto simp: world_Broadcast_def)
  note q' = q(1,2) [of w] grows_small_trans [OF s(1) q(3)] grows_small_trans [OF s(2) q(4)]
  show ?thesis
  proof (cases "gm_get (subs (conns w c)) (msg_Channel msg)")
    case None
    then show ?thesis using q' by (auto simp: handlePublish_def grows_small_def)
  next
    case (Some ch)
    then show ?thesis using q' r k p [of "Latency_Observe (now_end e - now_start e)" ch "event_frame (msg_Channel msg) (msg_Data msg) (fresh_ulid e)"]
      by (cases ok; cases ok') (auto simp: handlePublish_def grows_small_def)
  qed
qed

lemma name_error_short:
  assumes "ValidateChannelName n = Some err"
  shows "plain_key err \<and> length err \<le> 50"
proof -
  have "plain_key (''channel name exceeds '' @ utoa maxChannelNameLen @ '' bytes'')"
    "length (''channel name exceeds '' @ utoa maxChannelNameLen @ '' bytes'') \<le> 50"
    by code_simp+
  with assms show ?thesis by (auto simp: ValidateChannelName_def split: if_splits)
qed

lemma handle_small:
  assumes "\<And>msg. utf8_Valid raw \<Longrightarrow> Unmarshal_incoming raw = Some msg \<Longrightarrow> \<not> (msg_Type msg = ''publish'' \<and> ValidateChannelName (msg_Channel msg) = None)"
  shows "grows_small w (handle ops itf e c raw w) d"
proof -
  have j: "grows_small w (sendError c ''BAD_JSON'' ''message is not valid UTF-8'' w) d"
    "grows_small w (sendError c ''BAD_JSON'' ''malformed message'' w) d"
    "grows_small w (sendError c ''BAD_TYPE'' ''unknown message type'' w) d"
    unfolding grows_small_def reply_ops
    by (rule reply_small, unfold small_def, rule error_length; simp)+
  show ?thesis
  proof (cases "if utf8_Valid raw then Unmarshal_incoming raw else None")
    case None
    then show ?thesis using j by (auto simp: handle_def split: if_splits)
  next
    case (Some msg)
    then have dec: "utf8_Valid raw" "Unmarshal_incoming raw = Some msg" by (simp_all split: if_splits)
    consider (other) "msg_Type msg \<notin> {''subscribe'', ''unsubscribe'', ''publish''}"
      | (bad) err where "msg_Type msg \<in> {''subscribe'', ''unsubscribe'', ''publish''}" "ValidateChannelName (msg_Channel msg) = Some err"
      | (sub) "msg_Type msg \<in> {''subscribe'', ''unsubscribe''}" "ValidateChannelName (msg_Channel msg) = None"
      using assms [OF dec] by fastforce
    then show ?thesis
    proof cases
      case other
      then show ?thesis using j(3) dec by (simp add: handle_def)
    next
      case bad
      then have "grows_small w (sendOpError c msg ''BAD_CHANNEL'' err w) d" unfolding grows_small_def
        using name_error_short [OF bad(2)] by (intro op_reply_small) auto
      then show ?thesis using bad dec by (simp add: handle_def)
    next
      case sub
      then show ?thesis using dec valid_name [OF sub(2)]
        by (auto simp: handle_def handleSubscribe_small handleUnsubscribe_small)
    qed
  qed
qed

text \<open>
  C11: No client can make the server queue large replies. Whatever bytes arrive, under the
  per-connection fanout every frame they put on any connection's queue is shorter than 1 KiB, unless it
  is the event frame of the accepted publish the bytes encode. In particular an over-long channel name
  is never echoed.
\<close>

theorem replies_under_1KiB:
  assumes "fan w = PerConn" "b \<in> set (send (conns (handle ops itf e c raw w) d))" "b \<notin> set (send (conns w d))"
  shows "length b < 1024 \<or> (\<exists>msg. Unmarshal_incoming raw = Some msg \<and> msg_Type msg = ''publish'' \<and>
    ValidateChannelName (msg_Channel msg) = None \<and> b = event_frame (msg_Channel msg) (msg_Data msg) (fresh_ulid e))"
proof (cases "utf8_Valid raw \<and> (\<exists>msg. Unmarshal_incoming raw = Some msg \<and> msg_Type msg = ''publish'' \<and> ValidateChannelName (msg_Channel msg) = None)")
  case True
  then obtain msg where msg: "utf8_Valid raw" "Unmarshal_incoming raw = Some msg" "msg_Type msg = ''publish''" "ValidateChannelName (msg_Channel msg) = None"
    by blast
  then have "handle ops itf e c raw w = handlePublish ops e c msg w" by (simp add: handle_def)
  with handlePublish_small [OF assms(1) msg(3), of ops e c d] assms(2,3) msg show ?thesis
    by (auto simp: small_def)
next
  case False
  have "grows_small w (handle ops itf e c raw w) d" by (rule handle_small) (use False in blast)
  with assms(2,3) show ?thesis by (auto simp: grows_small_def small_def)
qed

theorem replies_under_1KiB_witness:
  "list_all (\<lambda>b. b \<in> set (send (conns run_start 1)) \<or> length b < 1024)
     (send (conns (handle free_ops (\<lambda>_. id) demo_env 1 (demo_raw ''subscribe'' ''room'') run_start) 1))"
  unfolding list_all_iff
proof
  fix b assume b: "b \<in> set (send (conns (handle free_ops (\<lambda>_. id) demo_env 1 (demo_raw ''subscribe'' ''room'') run_start) 1))"
  have f: "fan run_start = PerConn" by code_simp
  have p: "plain_key ''subscribe''" "plain_key ''room''" by simp_all
  show "b \<in> set (send (conns run_start 1)) \<or> length b < 1024"
    using replies_under_1KiB [OF f b] by (auto simp: demo_raw_parse [OF p])
qed

end
