(* ===== verification/Json_Compact.thy ===== *)
theory Json_Compact
  imports Json
begin

text \<open>
  What compaction does to a JSON text. A publisher's \<open>data\<close> is copied into the event frame with its white
  space removed; here it is shown that the copy parses, in any place where a value can stand, to the value
  that was sent. Only the raw bytes an object keeps of its members differ, by their white space.
\<close>

fun plain_json :: "json \<Rightarrow> json" where
  "plain_json (JArr vs) = JArr (map plain_json vs)"
| "plain_json (JObj ms) = JObj (map (\<lambda>(k, v, raw). (k, plain_json v, [])) ms)"
| "plain_json v = v"

fun compact_json :: "json \<Rightarrow> json" where
  "compact_json (JArr vs) = JArr (map compact_json vs)"
| "compact_json (JObj ms) = JObj (map (\<lambda>(k, v, raw). (k, compact_json v, compact False raw)) ms)"
| "compact_json v = v"

lemma plain_compact [simp]: "plain_json (compact_json v) = plain_json v"
  by (induction v) auto

subsection \<open>More fuel\<close>

lemma parse_mono:
  "(parse_val n d s = Some x \<longrightarrow> parse_val (Suc n) d s = Some x) \<and>
   (parse_elems n d s = Some y \<longrightarrow> parse_elems (Suc n) d s = Some y) \<and>
   (parse_members n d s = Some z \<longrightarrow> parse_members (Suc n) d s = Some z)"
proof (induction n arbitrary: d s x y z)
  case (Suc n)
  have val: "parse_val n d s = Some x \<Longrightarrow> parse_val (Suc n) d s = Some x"
    and elems: "parse_elems n d s = Some y \<Longrightarrow> parse_elems (Suc n) d s = Some y"
    and members: "parse_members n d s = Some z \<Longrightarrow> parse_members (Suc n) d s = Some z" for d s x y z
    using Suc by blast+
  have "parse_val (Suc (Suc n)) d s = Some x" if "parse_val (Suc n) d s = Some x"
    using that unfolding parse_val.simps(2) [of "Suc n"] parse_val.simps(2) [of n]
    by (auto simp del: parse_elems.simps parse_members.simps dest: elems members split: option.splits if_splits)
  moreover have "parse_elems (Suc (Suc n)) d s = Some y" if y: "parse_elems (Suc n) d s = Some y"
  proof -
    obtain v r where v: "parse_val n d s = Some (v, r)" using y by (auto simp: bind_eq_Some_conv simp del: parse_val.simps)
    note v' = val [OF v]
    show ?thesis
    proof (cases "tok (CHR '']'') r")
      case None
      then obtain r' vs where "tok (CHR '','') r = Some r'" "parse_elems n d r' = Some vs" "y = map_prod (Cons v) id vs"
        using y v by (auto simp: bind_eq_Some_conv simp del: parse_val.simps)
      with None v' elems show ?thesis by (simp add: parse_elems.simps(2) [of "Suc n"] del: parse_elems.simps parse_val.simps)
    next
      case (Some r')
      then show ?thesis using y v v' by (simp add: parse_elems.simps(2) [of "Suc n"] del: parse_val.simps)
    qed
  qed
  moreover have "parse_members (Suc (Suc n)) d s = Some z" if z: "parse_members (Suc n) d s = Some z"
  proof -
    obtain k r1 r2 v r3 where v: "tok_quote s = Some (k, r1)" "tok (CHR '':'') r1 = Some r2" "parse_val n d r2 = Some (v, r3)"
      using z by (auto simp: bind_eq_Some_conv Let_def simp del: parse_val.simps)
    note v' = val [OF v(3)]
    show ?thesis
    proof (cases "tok (CHR ''}'') r3")
      case None
      then obtain r' ms where "tok (CHR '','') r3 = Some r'" "parse_members n d r' = Some ms"
        "z = map_prod (Cons (unquote k, v, consumed (skip_ws r2) r3)) id ms"
        using z v by (auto simp: bind_eq_Some_conv Let_def simp del: parse_val.simps)
      with None v v' members show ?thesis
        by (simp add: parse_members.simps(2) [of "Suc n"] Let_def del: parse_members.simps parse_val.simps)
    next
      case (Some r')
      then show ?thesis using z v v' by (simp add: parse_members.simps(2) [of "Suc n"] Let_def del: parse_val.simps)
    qed
  qed
  ultimately show ?case by blast
qed simp

lemma parse_val_mono: "parse_val n d s = Some x \<Longrightarrow> n \<le> m \<Longrightarrow> parse_val m d s = Some x"
proof (induction m)
  case (Suc m)
  then show ?case using parse_mono [of m d s x] by (cases "n = Suc m") (auto simp del: parse_val.simps)
qed simp

lemma parse_val_stable: "2 * length s < n \<Longrightarrow> n \<le> m \<Longrightarrow> parse_val m d s = parse_val n d s"
proof (induction m)
  case (Suc m)
  then show ?case using parse_fuel [of s m d] by (cases "n = Suc m") (auto simp del: parse_val.simps)
qed simp

lemma parse_val_enough:
  assumes "parse_val n0 d s = Some x" "2 * length s < n"
  shows "parse_val n d s = Some x"
proof -
  have "parse_val (max n n0) d s = Some x" by (rule parse_val_mono [OF assms(1)]) simp
  moreover have "parse_val (max n n0) d s = parse_val n d s" by (rule parse_val_stable [OF assms(2)]) simp
  ultimately show ?thesis by simp
qed

subsection \<open>Compaction, piece by piece\<close>

text \<open>A piece \<open>u\<close> of a text is compacted to \<open>w\<close>, whatever follows it.\<close>

definition cpt :: "string \<Rightarrow> string \<Rightarrow> bool" where
  "cpt u w \<longleftrightarrow> (\<forall>x. compact False (u @ x) = w @ compact False x)"

lemma cpt_append: "cpt u w \<Longrightarrow> cpt u' w' \<Longrightarrow> cpt (u @ u') (w @ w')"
  by (simp add: cpt_def)

lemma cpt_compact: "cpt u w \<Longrightarrow> compact False u = w"
  using cpt_def [of u w] by (metis append_Nil2 compact.simps(1))

lemma cpt_ws: "\<forall>c \<in> set ws. is_ws c \<Longrightarrow> cpt ws []"
  by (induction ws) (auto simp: cpt_def)

lemma cpt_plain: "\<forall>c \<in> set u. \<not> is_ws c \<and> c \<noteq> quote \<Longrightarrow> cpt u u"
  by (induction u) (auto simp: cpt_def)

lemma skip_ws_split: "\<exists>ws. s = ws @ skip_ws s \<and> (\<forall>c \<in> set ws. is_ws c)"
proof (induction s)
  case (Cons c cs)
  then obtain ws where "cs = ws @ skip_ws cs" "\<forall>c \<in> set ws. is_ws c" by blast
  then show ?case by (intro exI [of _ "if is_ws c then c # ws else []"]) auto
qed simp

lemma skip_ws_all: "\<forall>c \<in> set ws. is_ws c \<Longrightarrow> skip_ws (ws @ t) = skip_ws t"
  by (induction ws) auto

lemma compact_skip_ws: "compact False (skip_ws u) = compact False u"
  by (induction u) auto

lemma skip_ws_append: "compact False u \<noteq> [] \<Longrightarrow> skip_ws (u @ r) = skip_ws u @ r"
  by (induction u) auto

lemma tok_split:
  assumes "tok c s = Some r" "c \<noteq> quote"
  obtains u where "s = u @ r" "cpt u [c]" "\<And>t. tok c (u @ t) = Some t"
proof -
  obtain ws where ws: "s = ws @ skip_ws s" "\<forall>c \<in> set ws. is_ws c" using skip_ws_split by blast
  have sk: "skip_ws s = c # r" using assms(1) by (auto simp: tok_def split: list.splits if_splits)
  have "\<not> is_ws c" using sk by (induction s) (auto split: if_splits)
  with assms(2) have "cpt (ws @ [c]) ([] @ [c])" using cpt_append [OF cpt_ws [OF ws(2)] cpt_plain [of "[c]"]] by simp
  moreover have "tok c ((ws @ [c]) @ t) = Some t" for t
    using ws(2) \<open>\<not> is_ws c\<close> by (simp add: tok_def skip_ws_all)
  ultimately show thesis using ws(1) sk by (intro that [of "ws @ [c]"]) auto
qed

lemma compact_in_string: "\<forall>h \<in> set hs. h \<noteq> quote \<and> h \<noteq> backslash \<Longrightarrow> compact True (hs @ y) = hs @ compact True y"
  by (induction hs) auto

lemma esc_size_pieces:
  assumes "esc_size cs = Some k"
  obtains e hs where "take k cs = e # hs" "\<forall>h \<in> set hs. h \<noteq> quote \<and> h \<noteq> backslash" "k = Suc (length hs)"
    "\<And>y. esc_size (e # hs @ y) = Some k"
proof -
  obtain e es where cs: "cs = e # es" using assms by (cases cs) auto
  have hex: "is_hex h \<Longrightarrow> h \<noteq> quote \<and> h \<noteq> backslash" for h by (auto simp: is_hex_def hex_val_def Let_def)
  show thesis
  proof (cases "simple_escape e")
    case None
    then have u: "e = CHR ''u''" "4 \<le> length es" "list_all is_hex (take 4 es)" "k = 5" using assms cs by (auto split: if_splits)
    then have "\<forall>h \<in> set (take 4 es). h \<noteq> quote \<and> h \<noteq> backslash" using hex by (auto simp: list_all_iff)
    with u None cs show ?thesis by (intro that [of e "take 4 es"]) (simp_all add: min_def)
  next
    case (Some v)
    then show ?thesis using assms cs by (intro that [of e "[]"]) auto
  qed
qed

lemma scan_string_any:
  "scan_string s = Some (b, r) \<Longrightarrow>
    s = b @ quote # r \<and> scan_string (b @ quote # t) = Some (b, t) \<and> compact True (b @ quote # x) = b @ quote # compact False x"
proof (induction s arbitrary: b r rule: scan_string.induct)
  case (2 c cs)
  show ?case
  proof (cases "c = backslash")
    case False
    then show ?thesis using 2 by (auto simp: prepend_def split: if_splits)
  next
    case True
    then obtain k where k: "esc_size cs = Some k" using 2(3) by (auto split: option.splits)
    obtain b' where b': "scan_string (drop k cs) = Some (b', r)" "b = c # take k cs @ b'"
      using 2(3) True k by (auto simp: prepend_def)
    obtain e hs where p: "take k cs = e # hs" "\<forall>h \<in> set hs. h \<noteq> quote \<and> h \<noteq> backslash" "k = Suc (length hs)"
      "\<And>y. esc_size (e # hs @ y) = Some k" using esc_size_pieces [OF k] by blast
    have IH: "drop k cs = b' @ quote # r" "scan_string (b' @ quote # t) = Some (b', t)"
      "compact True (b' @ quote # x) = b' @ quote # compact False x"
      using "2.IH"(1) [OF _ True k b'(1)] True by simp_all
    have "c # cs = b @ quote # r" using append_take_drop_id [of k cs] IH(1) b'(2) by simp
    moreover have "scan_string (b @ quote # t) = Some (b, t)"
      using True p IH(2) b'(2) by (simp add: prepend_def)
    moreover have "compact True (b @ quote # x) = b @ quote # compact False x"
      using True p compact_in_string [OF p(2)] IH(3) b'(2) by simp
    ultimately show ?thesis by blast
  qed
qed simp

subsection \<open>Numbers and literals\<close>

definition delim :: "string \<Rightarrow> bool" where
  "delim t \<longleftrightarrow> skip_ws t = [] \<or> hd (skip_ws t) \<in> {CHR '','', CHR ''}'', CHR '']''}"

definition num_char :: "char \<Rightarrow> bool" where
  "num_char c \<longleftrightarrow> is_digit c \<or> c \<in> {CHR ''.'', CHR ''e'', CHR ''E'', CHR ''+'', CHR ''-''}"

lemma num_char_plain: "num_char c \<Longrightarrow> \<not> is_ws c \<and> c \<noteq> quote"
  by (auto simp: num_char_def is_ws_def is_digit_def digit_val_def)

definition no_digit :: "string \<Rightarrow> bool" where
  "no_digit t \<longleftrightarrow> t = [] \<or> \<not> is_digit (hd t)"

lemma span_digits_any:
  "span_digits s = (a, r) \<Longrightarrow> s = a @ r \<and> list_all is_digit a \<and> (no_digit t \<longrightarrow> span_digits (a @ t) = (a, t))"
proof (induction s arbitrary: a r)
  case Nil
  then show ?case by (cases t) (auto simp: no_digit_def)
next
  case (Cons c cs)
  show ?case
  proof (cases "is_digit c")
    case True
    then show ?thesis using Cons by (auto split: prod.splits)
  next
    case False
    then show ?thesis using Cons.prems by (cases t) (auto simp: no_digit_def)
  qed
qed

lemma scan_digits1_any:
  assumes "scan_digits1 s = Some r"
  obtains a where "s = a @ r" "a \<noteq> []" "list_all is_digit a" "\<And>t. no_digit t \<Longrightarrow> scan_digits1 (a @ t) = Some t"
proof -
  obtain a where a: "span_digits s = (a, r)" "a \<noteq> []" using assms by (auto simp: scan_digits1_def split: prod.splits if_splits)
  note A = span_digits_any [OF a(1)]
  show thesis by (rule that [of a]) (use A a(2) in \<open>auto simp: scan_digits1_def\<close>)
qed

lemma scan_int_any:
  assumes "scan_int s = Some r"
  obtains a where "s = a @ r" "list_all is_digit a" "a \<noteq> []" "\<And>t. no_digit t \<Longrightarrow> scan_int (a @ t) = Some t"
proof -
  obtain c cs where s: "s = c # cs" using assms by (cases s) (auto simp: scan_int_def)
  show thesis
  proof (cases "c = CHR ''0''")
    case True
    with assms s show ?thesis by (intro that [of "[c]"]) (auto simp: scan_int_def is_digit_def digit_val_def)
  next
    case False
    then have c: "is_digit c" "r = snd (span_digits cs)" using assms s by (auto simp: scan_int_def split: if_splits)
    obtain a where a: "span_digits cs = (a, r)" using c(2) by (cases "span_digits cs") auto
    note A = span_digits_any [OF a]
    show ?thesis by (rule that [of "c # a"]) (use A c s False in \<open>auto simp: scan_int_def\<close>)
  qed
qed

lemma not_num_char:
  "\<not> num_char (CHR ''}'')" "\<not> num_char (CHR '']'')" "\<not> num_char (CHR '','')" "\<not> num_char (CHR '':'')"
  "\<not> num_char (CHR ''{'')" "\<not> num_char (CHR ''['')"
  by (simp_all add: num_char_def is_digit_def digit_val_def)

definition num_end :: "string \<Rightarrow> bool" where
  "num_end t \<longleftrightarrow> t = [] \<or> \<not> num_char (hd t)"

lemma delim_num_end: "delim t \<Longrightarrow> num_end t"
  using not_num_char num_char_plain by (cases t) (auto simp: delim_def num_end_def split: if_splits)

lemma num_end_no_digit: "num_end t \<Longrightarrow> no_digit t"
  by (auto simp: num_end_def no_digit_def num_char_def)

lemma digits_num: "list_all is_digit a \<Longrightarrow> list_all num_char a"
  by (auto simp: list_all_iff num_char_def)

lemma scan_exp_any:
  assumes "scan_exp s = Some r"
  obtains x where "s = x @ r" "list_all num_char x" "x = [] \<or> hd x \<in> {CHR ''e'', CHR ''E''}"
    "\<And>t. num_end t \<Longrightarrow> scan_exp (x @ t) = Some t"
proof -
  have none: "scan_exp t = Some t" if "num_end t" for t
    using that by (cases t) (auto simp: num_end_def num_char_def scan_exp_def)
  show thesis
  proof (cases "s = [] \<or> hd s \<notin> {CHR ''e'', CHR ''E''}")
    case True
    with assms none show ?thesis by (intro that [of "[]"]) (auto simp: scan_exp_def split: list.splits)
  next
    case False
    then obtain c d ds where s: "s = c # d # ds" "c \<in> {CHR ''e'', CHR ''E''}"
      using assms by (cases s; cases "tl s") (auto simp: scan_exp_def)
    define sg where "sg = (if d = CHR ''+'' \<or> d = CHR ''-'' then [d] else [])"
    have "scan_digits1 (drop (length sg) (d # ds)) = Some r" using assms s by (auto simp: scan_exp_def sg_def split: if_splits)
    then obtain a where a: "drop (length sg) (d # ds) = a @ r" "a \<noteq> []" "list_all is_digit a"
      "\<And>t. no_digit t \<Longrightarrow> scan_digits1 (a @ t) = Some t" by (rule scan_digits1_any) blast
    have split: "s = (c # sg @ a) @ r" using s a(1) by (auto simp: sg_def split: if_splits)
    have hd: "hd a \<noteq> CHR ''+'' \<and> hd a \<noteq> CHR ''-''" using a(2,3) by (cases a) (auto simp: is_digit_def digit_val_def)
    have "scan_exp ((c # sg @ a) @ t) = Some t" if "num_end t" for t
    proof -
      have "scan_digits1 (a @ t) = Some t" using a(4) num_end_no_digit [OF that] by blast
      then show ?thesis using s(2) hd a(2) by (cases a) (auto simp: scan_exp_def sg_def)
    qed
    with split s(2) digits_num [OF a(3)] show ?thesis
      by (intro that [of "c # sg @ a"]) (auto simp: sg_def num_char_def)
  qed
qed

lemma scan_frac_any:
  assumes "scan_frac s = Some r"
  obtains f where "s = f @ r" "list_all num_char f" "f = [] \<or> hd f = CHR ''.''"
    "\<And>t. no_digit t \<Longrightarrow> t = [] \<or> hd t \<noteq> CHR ''.'' \<Longrightarrow> scan_frac (f @ t) = Some t"
proof (cases "s = [] \<or> hd s \<noteq> CHR ''.''")
  case True
  with assms show ?thesis by (intro that [of "[]"]) (auto simp: scan_frac_def split: list.splits)
next
  case False
  then obtain ds where s: "s = CHR ''.'' # ds" "scan_digits1 ds = Some r" using assms by (cases s) (auto simp: scan_frac_def)
  obtain a where "ds = a @ r" "a \<noteq> []" "list_all is_digit a" "\<And>t. no_digit t \<Longrightarrow> scan_digits1 (a @ t) = Some t"
    using s(2) by (rule scan_digits1_any) blast
  with s digits_num show ?thesis by (intro that [of "CHR ''.'' # a"]) (auto simp: scan_frac_def num_char_def)
qed

lemma scan_number_any:
  assumes "scan_number s = Some r"
  obtains u where "s = u @ r" "list_all num_char u" "u \<noteq> []" "\<And>t. num_end t \<Longrightarrow> scan_number (u @ t) = Some t"
proof -
  define sg where "sg = (if HasPrefix s ''-'' then ''-'' else [])"
  have s: "s = sg @ TrimPrefix s ''-''" by (auto simp: sg_def TrimPrefix_def HasPrefix_iff)
  obtain r1 r2 where st: "scan_int (TrimPrefix s ''-'') = Some r1" "scan_frac r1 = Some r2" "scan_exp r2 = Some r"
    using assms by (auto simp: scan_number_def bind_eq_Some_conv)
  obtain a where a: "TrimPrefix s ''-'' = a @ r1" "list_all is_digit a" "a \<noteq> []" "\<And>t. no_digit t \<Longrightarrow> scan_int (a @ t) = Some t"
    using st(1) by (rule scan_int_any) blast
  obtain f where f: "r1 = f @ r2" "list_all num_char f" "f = [] \<or> hd f = CHR ''.''"
    "\<And>t. no_digit t \<Longrightarrow> t = [] \<or> hd t \<noteq> CHR ''.'' \<Longrightarrow> scan_frac (f @ t) = Some t"
    using st(2) by (rule scan_frac_any) blast
  obtain x where x: "r2 = x @ r" "list_all num_char x" "x = [] \<or> hd x \<in> {CHR ''e'', CHR ''E''}"
    "\<And>t. num_end t \<Longrightarrow> scan_exp (x @ t) = Some t" using st(3) by (rule scan_exp_any) blast
  have "scan_number ((sg @ a @ f @ x) @ t) = Some t" if t: "num_end t" for t
  proof -
    have xt: "no_digit (x @ t)" "x @ t = [] \<or> hd (x @ t) \<noteq> CHR ''.''"
      using t x(3) by (cases x; force simp: no_digit_def num_end_def num_char_def is_digit_def digit_val_def)+
    have ft: "no_digit (f @ x @ t)" using f(3) xt(1) by (cases f) (auto simp: no_digit_def is_digit_def digit_val_def)
    have "TrimPrefix (sg @ a @ f @ x @ t) ''-'' = a @ f @ x @ t"
      using a(2,3) by (cases a) (auto simp: sg_def TrimPrefix_def HasPrefix_def is_digit_def digit_val_def)
    then show ?thesis using a(4) [OF ft] f(4) [OF xt] x(4) [OF t] by (simp add: scan_number_def)
  qed
  moreover have "s = (sg @ a @ f @ x) @ r" using s a(1) f(1) x(1) by simp
  moreover have "list_all num_char (sg @ a @ f @ x)" using digits_num [OF a(2)] f(2) x(2) by (auto simp: sg_def num_char_def)
  ultimately show thesis using a(3) by (intro that [of "sg @ a @ f @ x"]) auto
qed

lemma scan_lit_any: "scan_lit l s = Some r \<Longrightarrow> s = l @ r \<and> scan_lit l (l @ t) = Some t"
  by (auto simp: scan_lit_def HasPrefix_iff split: if_splits)

subsection \<open>Values\<close>

text \<open>A character that can start a value: no white space, and nothing that closes or separates.\<close>

definition starts :: "string \<Rightarrow> bool" where
  "starts w \<longleftrightarrow> w \<noteq> [] \<and> \<not> is_ws (hd w) \<and> hd w \<notin> {CHR ''}'', CHR '']'', CHR '','', CHR '':''}"

lemma consumed_append [simp]: "consumed (a @ t) t = a"
  by (simp add: consumed_def)

lemma cpt_string:
  assumes "scan_string cs = Some (b, r)"
  shows "cpt (quote # b @ [quote]) (quote # b @ [quote])"
  using scan_string_any [OF assms] by (auto simp: cpt_def)

lemma cpt_nums: "list_all num_char u \<Longrightarrow> cpt u u"
  using num_char_plain by (intro cpt_plain) (auto simp: list_all_iff)

lemma num_char_starts:
  assumes "num_char c"
  shows "\<not> is_ws c" "c \<noteq> CHR ''}''" "c \<noteq> CHR '']''" "c \<noteq> CHR '',''" "c \<noteq> CHR '':''" "c \<noteq> CHR ''{''" "c \<noteq> CHR ''[''"
  using assms num_char_plain not_num_char by blast+

lemma parse_scalar_any:
  assumes "parse_scalar s = Some (v, r)"
  obtains w where "s = w @ r" "cpt w w" "starts w" "hd w \<noteq> CHR ''{''" "hd w \<noteq> CHR ''[''"
    "\<And>t. delim t \<Longrightarrow> parse_scalar (w @ t) = Some (v, t)" "compact_json v = v"
proof -
  obtain c cs where s: "s = c # cs" using assms by (cases s) (auto simp: parse_scalar_def)
  consider (str) b where "c = quote" "scan_string cs = Some (b, r)" "v = JStr (unquote b)"
    | (lit) l where "(l, v) \<in> {(''true'', JBool True), (''false'', JBool False), (''null'', JNull)}" "scan_lit l s = Some r"
    | (num) "c \<notin> {quote, CHR ''t'', CHR ''f'', CHR ''n''}" "scan_number s = Some r" "v = JNum (consumed s r)"
  proof -
    assume str: "\<And>b. c = quote \<Longrightarrow> scan_string cs = Some (b, r) \<Longrightarrow> v = JStr (unquote b) \<Longrightarrow> thesis"
      and lit: "\<And>l. (l, v) \<in> {(''true'', JBool True), (''false'', JBool False), (''null'', JNull)} \<Longrightarrow> scan_lit l s = Some r \<Longrightarrow> thesis"
      and num: "c \<notin> {quote, CHR ''t'', CHR ''f'', CHR ''n''} \<Longrightarrow> scan_number s = Some r \<Longrightarrow> v = JNum (consumed s r) \<Longrightarrow> thesis"
    have a: "parse_scalar (c # cs) = Some (v, r)" using assms s by simp
    show thesis
    proof (cases "c = quote")
      case True
      with a str show ?thesis by (auto simp: parse_scalar_def)
    next
      case False
      show ?thesis
      proof (cases "c \<in> {CHR ''t'', CHR ''f'', CHR ''n''}")
        case True
        with a s show ?thesis
          using lit [of "''true''"] lit [of "''false''"] lit [of "''null''"] by (auto simp: parse_scalar_def)
      next
        case c: False
        with False a s have "map_option (\<lambda>r. (JNum (consumed s r), r)) (scan_number s) = Some (v, r)" by (simp add: parse_scalar_def)
        with c False num show ?thesis by auto
      qed
    qed
  qed
  then show thesis
  proof cases
    case str
    note A = scan_string_any [OF str(2)]
    show ?thesis
      by (rule that [of "quote # b @ [quote]"])
        (use A s str(1,3) cpt_string [OF str(2)] in \<open>auto simp: starts_def parse_scalar_def\<close>)
  next
    case lit
    note A = scan_lit_any [OF lit(2)]
    have "cpt l l" using lit(1) by (intro cpt_plain) (auto simp: is_ws_def)
    with A lit(1) show ?thesis by (intro that [of l]) (auto simp: starts_def is_ws_def parse_scalar_def)
  next
    case num
    obtain u where u: "s = u @ r" "list_all num_char u" "u \<noteq> []" "\<And>t. num_end t \<Longrightarrow> scan_number (u @ t) = Some t"
      using num(2) by (rule scan_number_any) blast
    have hd: "num_char (hd u)" "hd u = c" using u(1-3) s by (cases u; simp)+
    then have "starts u" "hd u \<noteq> CHR ''{''" "hd u \<noteq> CHR ''[''"
      using u(3) num_char_starts [OF hd(1)] by (simp_all add: starts_def)
    moreover have "parse_scalar (u @ t) = Some (v, t)" if "delim t" for t
    proof -
      have "scan_number (u @ t) = Some t" using u(4) delim_num_end [OF that] by blast
      moreover have "v = JNum (consumed (u @ t) t)" using num(3) u(1) by simp
      moreover obtain us where "u = c # us" using u(3) hd(2) by (cases u) auto
      ultimately show ?thesis using num(1) by (simp add: parse_scalar_def)
    qed
    ultimately show ?thesis using u(1) cpt_nums [OF u(2)] num(3) by (intro that [of u]) auto
  qed
qed

lemma starts_tok: "starts w \<Longrightarrow> tok c (w @ t) = (if hd w = c then Some (tl w @ t) else None)"
  by (cases w) (auto simp: starts_def tok_def)

lemma starts_skip: "starts w \<Longrightarrow> skip_ws (w @ t) = w @ t"
  by (cases w) (auto simp: starts_def)

lemma tok_cpt: "cpt u w \<Longrightarrow> starts w \<Longrightarrow> tok c (u @ t) = (if hd w = c then Some (tl (skip_ws u) @ t) else None)"
proof -
  assume u: "cpt u w" and w: "starts w"
  have c: "compact False u = w" by (rule cpt_compact [OF u])
  then have "compact False u \<noteq> []" using w by (simp add: starts_def)
  from skip_ws_append [OF this] have sk: "skip_ws (u @ t) = skip_ws u @ t" .
  have "\<exists>x. skip_ws u = hd w # x" using c w by (induction u) (auto simp: starts_def split: if_splits)
  with sk show ?thesis by (auto simp: tok_def)
qed

lemma tok_punct: "\<not> is_ws c \<Longrightarrow> tok e (c # t) = (if c = e then Some t else None)"
  by (simp add: tok_def)

lemma delim_punct [simp]: "delim (CHR '','' # t)" "delim (CHR ''}'' # t)" "delim (CHR '']'' # t)"
  by (simp_all add: delim_def is_ws_def)

lemma delim_tok: "tok c x = Some y \<Longrightarrow> c \<in> {CHR '','', CHR ''}'', CHR '']''} \<Longrightarrow> delim x"
  by (auto simp: tok_def delim_def split: list.splits if_splits)

lemma punct_ws [simp]: "\<not> is_ws (CHR ''['')" "\<not> is_ws (CHR '']'')"
  by (simp_all add: is_ws_def)

definition val_ok :: "nat \<Rightarrow> nat \<Rightarrow> string \<Rightarrow> json \<Rightarrow> string \<Rightarrow> bool" where
  "val_ok n d s v r \<longleftrightarrow> (\<exists>u w. s = u @ r \<and> cpt u w \<and> starts w \<and>
    (\<forall>t. delim t \<longrightarrow> parse_val n d (w @ t) = Some (compact_json v, t)) \<and>
    (\<forall>t e. delim t \<longrightarrow> e \<le> d \<longrightarrow> parse_val n e (u @ t) = Some (v, t)))"

definition elems_ok :: "nat \<Rightarrow> nat \<Rightarrow> string \<Rightarrow> json list \<Rightarrow> string \<Rightarrow> bool" where
  "elems_ok n d s vs r \<longleftrightarrow> (\<exists>u w. s = u @ r \<and> cpt u w \<and> starts w \<and>
    (\<forall>t. parse_elems n d (w @ t) = Some (map compact_json vs, t)) \<and>
    (\<forall>t e. e \<le> d \<longrightarrow> parse_elems n e (u @ t) = Some (vs, t)))"

definition compact_member :: "string \<times> json \<times> bytes \<Rightarrow> string \<times> json \<times> bytes" where
  "compact_member = (\<lambda>(k, v, raw). (k, compact_json v, compact False raw))"

definition members_ok :: "nat \<Rightarrow> nat \<Rightarrow> string \<Rightarrow> (string \<times> json \<times> bytes) list \<Rightarrow> string \<Rightarrow> bool" where
  "members_ok n d s ms r \<longleftrightarrow> (\<exists>u w. s = u @ r \<and> cpt u w \<and> starts w \<and>
    (\<forall>t. parse_members n d (w @ t) = Some (map compact_member ms, t)) \<and>
    (\<forall>t e. e \<le> d \<longrightarrow> parse_members n e (u @ t) = Some (ms, t)))"

lemma compact_json_Obj: "compact_json (JObj ms) = JObj (map compact_member ms)"
  by (simp add: compact_member_def)

lemma val_ok_obj:
  assumes "parse_val (Suc n) d s = Some (v, r)" "tok (CHR ''{'') s = Some r0"
    and members: "\<And>d s ms r. parse_members n d s = Some (ms, r) \<Longrightarrow> members_ok n d s ms r"
  shows "val_ok (Suc n) d s v r"
proof -
  have d: "d < maxNestingDepth" using assms(1,2) by (auto split: if_splits)
  obtain u0 where u0: "s = u0 @ r0" "cpt u0 ''{''" "\<And>t. tok (CHR ''{'') (u0 @ t) = Some t" by (rule tok_split [OF assms(2)]) auto
  show ?thesis
  proof (cases "tok (CHR ''}'') r0")
    case (Some r')
    then have v: "v = JObj []" "r' = r" using assms(1,2) d by auto
    obtain u1 where u1: "r0 = u1 @ r" "cpt u1 ''}''" "\<And>t. tok (CHR ''}'') (u1 @ t) = Some t" by (rule tok_split [OF Some]) (auto simp: v)
    have "parse_val (Suc n) d (''{}'' @ t) = Some (compact_json v, t)" for t
      using d by (simp add: tok_punct v)
    moreover have "parse_val (Suc n) e ((u0 @ u1) @ t) = Some (v, t)" if "e \<le> d" for t e
      using d that by (simp add: u0(3) u1(3) v)
    ultimately show ?thesis using u0 u1 cpt_append [OF u0(2) u1(2)] unfolding val_ok_def
      by (intro exI [of _ "u0 @ u1"] exI [of _ "''{}''"]) (simp add: starts_def is_ws_def)
  next
    case None
    then obtain ms where ms: "parse_members n (Suc d) r0 = Some (ms, r)" "v = JObj ms" using assms(1,2) d by auto
    obtain u1 w1 where w1: "r0 = u1 @ r" "cpt u1 w1" "starts w1" "\<And>t. parse_members n (Suc d) (w1 @ t) = Some (map compact_member ms, t)"
      "\<And>t e. e \<le> Suc d \<Longrightarrow> parse_members n e (u1 @ t) = Some (ms, t)"
      using members [OF ms(1)] by (auto simp: members_ok_def)
    have hd: "hd w1 \<noteq> CHR ''}''" using w1(3) by (auto simp: starts_def)
    then have "parse_val (Suc n) d ((''{'' @ w1) @ t) = Some (compact_json v, t)" for t
      using d w1(4) starts_tok [OF w1(3), of "CHR ''}''" t]
      by (simp add: tok_punct ms(2) compact_json_Obj del: compact_json.simps)
    moreover have "parse_val (Suc n) e ((u0 @ u1) @ t) = Some (v, t)" if "e \<le> d" for t e
      using d that w1(5) [of "Suc e"] hd tok_cpt [OF w1(2,3), of "CHR ''}''" t] by (simp add: u0(3) ms(2))
    ultimately show ?thesis using u0 w1 cpt_append [OF u0(2) w1(2)] unfolding val_ok_def
      by (intro exI [of _ "u0 @ u1"] exI [of _ "''{'' @ w1"]) (simp add: starts_def)
  qed
qed

lemma val_ok_arr:
  assumes "parse_val (Suc n) d s = Some (v, r)" "tok (CHR ''{'') s = None" "tok (CHR ''['') s = Some r0"
    and elems: "\<And>d s vs r. parse_elems n d s = Some (vs, r) \<Longrightarrow> elems_ok n d s vs r"
  shows "val_ok (Suc n) d s v r"
proof -
  have d: "d < maxNestingDepth" using assms(1-3) by (auto split: if_splits)
  obtain u0 where u0: "s = u0 @ r0" "cpt u0 ''[''" "\<And>t. tok (CHR ''['') (u0 @ t) = Some t" by (rule tok_split [OF assms(3)]) auto
  have no_obj: "tok (CHR ''{'') (u0 @ t) = None" for t
    using tok_cpt [OF u0(2), of "CHR ''{''" t] by (simp add: starts_def)
  show ?thesis
  proof (cases "tok (CHR '']'') r0")
    case (Some r')
    then have v: "v = JArr []" "r' = r" using assms(1-3) d by auto
    obtain u1 where u1: "r0 = u1 @ r" "cpt u1 '']''" "\<And>t. tok (CHR '']'') (u1 @ t) = Some t" by (rule tok_split [OF Some]) (auto simp: v)
    have "parse_val (Suc n) d (''[]'' @ t) = Some (compact_json v, t)" for t
      using d by (simp add: tok_punct v)
    moreover have "parse_val (Suc n) e ((u0 @ u1) @ t) = Some (v, t)" if "e \<le> d" for t e
      using d that by (simp add: no_obj u0(3) u1(3) v)
    ultimately show ?thesis using u0 u1 cpt_append [OF u0(2) u1(2)] unfolding val_ok_def
      by (intro exI [of _ "u0 @ u1"] exI [of _ "''[]''"]) (simp add: starts_def is_ws_def)
  next
    case None
    then obtain vs where vs: "parse_elems n (Suc d) r0 = Some (vs, r)" "v = JArr vs" using assms(1-3) d by auto
    obtain u1 w1 where w1: "r0 = u1 @ r" "cpt u1 w1" "starts w1" "\<And>t. parse_elems n (Suc d) (w1 @ t) = Some (map compact_json vs, t)"
      "\<And>t e. e \<le> Suc d \<Longrightarrow> parse_elems n e (u1 @ t) = Some (vs, t)"
      using elems [OF vs(1)] by (auto simp: elems_ok_def)
    have hd: "hd w1 \<noteq> CHR '']''" using w1(3) by (auto simp: starts_def)
    then have "parse_val (Suc n) d ((''['' @ w1) @ t) = Some (compact_json v, t)" for t
      using d w1(4) starts_tok [OF w1(3), of "CHR '']''" t] by (simp add: tok_punct vs(2))
    moreover have "parse_val (Suc n) e ((u0 @ u1) @ t) = Some (v, t)" if "e \<le> d" for t e
      using d that w1(5) [of "Suc e"] hd tok_cpt [OF w1(2,3), of "CHR '']''" t] by (simp add: no_obj u0(3) vs(2))
    ultimately show ?thesis using u0 w1 cpt_append [OF u0(2) w1(2)] unfolding val_ok_def
      by (intro exI [of _ "u0 @ u1"] exI [of _ "''['' @ w1"]) (simp add: starts_def)
  qed
qed

lemma val_ok_scalar:
  assumes "parse_val (Suc n) d s = Some (v, r)" "tok (CHR ''{'') s = None" "tok (CHR ''['') s = None"
  shows "val_ok (Suc n) d s v r"
proof -
  have "parse_scalar (skip_ws s) = Some (v, r)" using assms by simp
  then obtain w where w: "skip_ws s = w @ r" "cpt w w" "starts w" "hd w \<noteq> CHR ''{''" "hd w \<noteq> CHR ''[''"
    "\<And>t. delim t \<Longrightarrow> parse_scalar (w @ t) = Some (v, t)" "compact_json v = v"
    by (rule parse_scalar_any) blast
  obtain ws where ws: "s = ws @ skip_ws s" "\<forall>c \<in> set ws. is_ws c" using skip_ws_split by blast
  have "parse_val (Suc n) d (w @ t) = Some (compact_json v, t)" if "delim t" for t
    using w(4-7) that by (simp add: starts_tok [OF w(3)] starts_skip [OF w(3)])
  moreover have "parse_val (Suc n) e ((ws @ w) @ t) = Some (v, t)" if "delim t" for t e
  proof -
    have "skip_ws (ws @ w @ t) = w @ t" by (simp add: skip_ws_all [OF ws(2)] starts_skip [OF w(3)])
    moreover from this have "tok c (ws @ w @ t) = (if hd w = c then Some (tl w @ t) else None)" for c
      using starts_tok [OF w(3), of c t] starts_skip [OF w(3), of t] by (simp add: tok_def)
    ultimately show ?thesis using w(4-6) that by simp
  qed
  moreover have "s = (ws @ w) @ r" using ws(1) w(1) by simp
  ultimately show ?thesis using w(3) cpt_append [OF cpt_ws [OF ws(2)] w(2)] unfolding val_ok_def
    by (intro exI [of _ "ws @ w"] exI [of _ w]) simp
qed

lemma elems_ok_step:
  assumes e: "parse_elems (Suc n) d s = Some (vs, r)"
    and val: "\<And>d s v r. parse_val n d s = Some (v, r) \<Longrightarrow> val_ok n d s v r"
    and elems: "\<And>d s vs r. parse_elems n d s = Some (vs, r) \<Longrightarrow> elems_ok n d s vs r"
  shows "elems_ok (Suc n) d s vs r"
proof -
  obtain v r1 where v: "parse_val n d s = Some (v, r1)" using e by (auto simp: bind_eq_Some_conv simp del: parse_val.simps)
  obtain u w where w: "s = u @ r1" "cpt u w" "starts w" "\<And>t. delim t \<Longrightarrow> parse_val n d (w @ t) = Some (compact_json v, t)"
    "\<And>t e. delim t \<Longrightarrow> e \<le> d \<Longrightarrow> parse_val n e (u @ t) = Some (v, t)"
    using val [OF v] by (auto simp: val_ok_def)
  show ?thesis
  proof (cases "tok (CHR '']'') r1")
    case (Some r')
    then have vs: "vs = [v]" "r' = r" using e v by (auto simp del: parse_val.simps)
    obtain u1 where u1: "r1 = u1 @ r" "cpt u1 '']''" "\<And>t. tok (CHR '']'') (u1 @ t) = Some t" by (rule tok_split [OF Some]) (auto simp: vs)
    have "parse_elems (Suc n) d ((w @ '']'') @ t) = Some (map compact_json vs, t)" for t
      by (simp add: w(4) tok_punct vs del: parse_val.simps)
    moreover have "parse_elems (Suc n) e ((u @ u1) @ t) = Some (vs, t)" if "e \<le> d" for t e
      using w(5) [OF delim_tok [OF u1(3) [of t]] that] by (simp add: u1(3) vs del: parse_val.simps)
    ultimately show ?thesis using w u1 cpt_append [OF w(2) u1(2)] unfolding elems_ok_def
      by (intro exI [of _ "u @ u1"] exI [of _ "w @ '']''"]) (auto simp: starts_def)
  next
    case None
    then obtain r' vs' where vs: "tok (CHR '','') r1 = Some r'" "parse_elems n d r' = Some (vs', r)" "vs = v # vs'"
      using e v by (auto simp: bind_eq_Some_conv simp del: parse_val.simps)
    obtain u1 where u1: "r1 = u1 @ r'" "cpt u1 '',''" "\<And>t. tok (CHR '','') (u1 @ t) = Some t" by (rule tok_split [OF vs(1)]) auto
    obtain u2 w2 where w2: "r' = u2 @ r" "cpt u2 w2" "\<And>t. parse_elems n d (w2 @ t) = Some (map compact_json vs', t)"
      "\<And>t e. e \<le> d \<Longrightarrow> parse_elems n e (u2 @ t) = Some (vs', t)"
      using elems [OF vs(2)] by (auto simp: elems_ok_def)
    have "parse_elems (Suc n) d ((w @ '','' @ w2) @ t) = Some (map compact_json vs, t)" for t
      by (simp add: w(4) tok_punct vs(3) w2(3) del: parse_val.simps)
    moreover have "parse_elems (Suc n) e ((u @ u1 @ u2) @ t) = Some (vs, t)" if "e \<le> d" for t e
    proof -
      have "tok (CHR '']'') (u1 @ u2 @ t) = None" using u1(3) [of "u2 @ t"] by (auto simp: tok_def split: list.splits if_splits)
      with w(5) [OF delim_tok [OF u1(3) [of "u2 @ t"]] that] show ?thesis
        by (simp add: u1(3) vs(3) w2(4) [OF that] del: parse_val.simps parse_elems.simps(1))
    qed
    ultimately show ?thesis using w(1,3) u1(1) w2(1) cpt_append [OF w(2) cpt_append [OF u1(2) w2(2)]] unfolding elems_ok_def
      by (intro exI [of _ "u @ u1 @ u2"] exI [of _ "w @ '','' @ w2"]) (auto simp: starts_def)
  qed
qed

lemma tok_quote_split:
  assumes "tok_quote s = Some (k, r)"
  obtains u where "s = u @ r" "cpt u (quote # k @ [quote])" "\<And>t. tok_quote (quote # k @ quote # t) = Some (k, t)" "\<And>t. tok_quote (u @ t) = Some (k, t)"
proof -
  obtain r0 where r0: "tok quote s = Some r0" "scan_string r0 = Some (k, r)" using assms by (auto simp: tok_quote_def bind_eq_Some_conv)
  note A = scan_string_any [OF r0(2)]
  obtain ws where ws: "s = ws @ skip_ws s" "\<forall>c \<in> set ws. is_ws c" using skip_ws_split by blast
  have "skip_ws s = quote # r0" using r0(1) by (auto simp: tok_def split: list.splits if_splits)
  then have "s = (ws @ quote # k @ [quote]) @ r" using ws(1) A by simp
  then show thesis
    by (rule that) (use cpt_append [OF cpt_ws [OF ws(2)] cpt_string [OF r0(2)]] A in
      \<open>simp_all add: tok_quote_def tok_hit tok_def skip_ws_all [OF ws(2)]\<close>)
qed

lemma member_raw:
  assumes "cpt u w" "starts w"
  shows "compact False (consumed (skip_ws (u @ r)) r) = w" "consumed (skip_ws (w @ t)) t = w"
proof -
  have "w \<noteq> []" using assms(2) by (simp add: starts_def)
  then have "skip_ws (u @ r) = skip_ws u @ r" using cpt_compact [OF assms(1)] by (intro skip_ws_append) simp
  then show "compact False (consumed (skip_ws (u @ r)) r) = w" using cpt_compact [OF assms(1)] by (simp add: compact_skip_ws)
  show "consumed (skip_ws (w @ t)) t = w" using starts_skip [OF assms(2)] by simp
qed

lemma members_ok_step:
  assumes e: "parse_members (Suc n) d s = Some (ms, r)"
    and val: "\<And>d s v r. parse_val n d s = Some (v, r) \<Longrightarrow> val_ok n d s v r"
    and members: "\<And>d s ms r. parse_members n d s = Some (ms, r) \<Longrightarrow> members_ok n d s ms r"
  shows "members_ok (Suc n) d s ms r"
proof -
  obtain k r1 r2 v r3 where p: "tok_quote s = Some (k, r1)" "tok (CHR '':'') r1 = Some r2" "parse_val n d r2 = Some (v, r3)"
    using e by (auto simp: bind_eq_Some_conv Let_def simp del: parse_val.simps)
  obtain u0 where u0: "s = u0 @ r1" "cpt u0 (quote # k @ [quote])" "\<And>t. tok_quote (quote # k @ quote # t) = Some (k, t)" "\<And>t. tok_quote (u0 @ t) = Some (k, t)"
    using tok_quote_split [OF p(1)] by blast
  obtain u1 where u1: "r1 = u1 @ r2" "cpt u1 '':''" "\<And>t. tok (CHR '':'') (u1 @ t) = Some t" by (rule tok_split [OF p(2)]) auto
  obtain u w where w: "r2 = u @ r3" "cpt u w" "starts w" "\<And>t. delim t \<Longrightarrow> parse_val n d (w @ t) = Some (compact_json v, t)"
    "\<And>t e. delim t \<Longrightarrow> e \<le> d \<Longrightarrow> parse_val n e (u @ t) = Some (v, t)"
    using val [OF p(3)] by (auto simp: val_ok_def)
  let ?m = "(unquote k, v, consumed (skip_ws r2) r3)" and ?w = "(quote # k @ [quote]) @ '':'' @ w"
  have m: "compact_member ?m = (unquote k, compact_json v, w)" using member_raw(1) [OF w(2,3)] by (simp add: compact_member_def w(1))
  have pre: "cpt (u0 @ u1 @ u) ?w" by (intro cpt_append u0(2) u1(2) w(2))
  have s: "s = (u0 @ u1 @ u) @ r3" using u0(1) u1(1) w(1) by simp
  have st: "starts (?w @ x)" for x by (simp add: starts_def)
  have step: "parse_members (Suc n) d (?w @ x) =
      (case tok (CHR ''}'') x of
        Some r' \<Rightarrow> Some ([compact_member ?m], r')
      | None \<Rightarrow> Option.bind (tok (CHR '','') x) (\<lambda>r'. map_option (map_prod (Cons (compact_member ?m)) id) (parse_members n d r')))"
    if "delim x" for x
    using w(4) [OF that] member_raw(2) [OF w(2,3), of x] unfolding m
    by (simp add: u0(3) tok_punct Let_def del: parse_val.simps cong del: option.case_cong_weak)
  have raw: "consumed (skip_ws (u @ x)) x = consumed (skip_ws r2) r3" for x
  proof -
    have "compact False u \<noteq> []" using cpt_compact [OF w(2)] w(3) by (simp add: starts_def)
    from skip_ws_append [OF this] show ?thesis by (simp add: w(1))
  qed
  have step': "parse_members (Suc n) e ((u0 @ u1 @ u) @ x) =
      (case tok (CHR ''}'') x of
        Some r' \<Rightarrow> Some ([?m], r')
      | None \<Rightarrow> Option.bind (tok (CHR '','') x) (\<lambda>r'. map_option (map_prod (Cons ?m) id) (parse_members n e r')))"
    if "delim x" "e \<le> d" for x e
    using w(5) [OF that] raw [of x] by (simp add: u0(4) u1(3) Let_def del: parse_val.simps cong del: option.case_cong_weak)
  show ?thesis
  proof (cases "tok (CHR ''}'') r3")
    case (Some r')
    then have ms: "ms = [?m]" "r' = r" using e p by (auto simp: Let_def simp del: parse_val.simps)
    obtain u2 where u2: "r3 = u2 @ r" "cpt u2 ''}''" "\<And>t. tok (CHR ''}'') (u2 @ t) = Some t" by (rule tok_split [OF Some]) (auto simp: ms)
    have "parse_members (Suc n) d ((?w @ ''}'') @ t) = Some (map compact_member ms, t)" for t
      using step [of "CHR ''}'' # t"] by (simp add: tok_punct ms del: parse_members.simps)
    moreover have "parse_members (Suc n) e (((u0 @ u1 @ u) @ u2) @ t) = Some (ms, t)" if "e \<le> d" for t e
      using step' [OF delim_tok [OF u2(3) [of t]] that] by (simp add: u2(3) ms del: parse_members.simps)
    ultimately show ?thesis using s u2(1) cpt_append [OF pre u2(2)] st unfolding members_ok_def
      by - (rule exI [of _ "(u0 @ u1 @ u) @ u2"], rule exI [of _ "?w @ ''}''"], simp del: parse_members.simps)
  next
    case None
    then obtain r' ms' where ms: "tok (CHR '','') r3 = Some r'" "parse_members n d r' = Some (ms', r)" "ms = ?m # ms'"
      using e p by (auto simp: bind_eq_Some_conv Let_def simp del: parse_val.simps)
    obtain u2 where u2: "r3 = u2 @ r'" "cpt u2 '',''" "\<And>t. tok (CHR '','') (u2 @ t) = Some t" by (rule tok_split [OF ms(1)]) auto
    obtain u3 w3 where w3: "r' = u3 @ r" "cpt u3 w3" "\<And>t. parse_members n d (w3 @ t) = Some (map compact_member ms', t)"
      "\<And>t e. e \<le> d \<Longrightarrow> parse_members n e (u3 @ t) = Some (ms', t)"
      using members [OF ms(2)] by (auto simp: members_ok_def)
    have "parse_members (Suc n) d ((?w @ '','' @ w3) @ t) = Some (map compact_member ms, t)" for t
      using step [of "CHR '','' # w3 @ t"] by (simp add: tok_punct ms(3) w3(3) del: parse_members.simps)
    moreover have "parse_members (Suc n) e (((u0 @ u1 @ u) @ u2 @ u3) @ t) = Some (ms, t)" if "e \<le> d" for t e
    proof -
      have "tok (CHR ''}'') (u2 @ u3 @ t) = None" using u2(3) [of "u3 @ t"] by (auto simp: tok_def split: list.splits if_splits)
      with step' [OF delim_tok [OF u2(3) [of "u3 @ t"]] that] show ?thesis
        by (simp add: u2(3) ms(3) w3(4) [OF that] del: parse_members.simps)
    qed
    ultimately show ?thesis using s u2(1) w3(1) cpt_append [OF pre cpt_append [OF u2(2) w3(2)]] st unfolding members_ok_def
      by - (rule exI [of _ "(u0 @ u1 @ u) @ u2 @ u3"], rule exI [of _ "?w @ '','' @ w3"], simp del: parse_members.simps)
  qed
qed

lemma parse_all_ok:
  "(parse_val n d s = Some (v, r) \<longrightarrow> val_ok n d s v r) \<and>
   (parse_elems n d s = Some (vs, r) \<longrightarrow> elems_ok n d s vs r) \<and>
   (parse_members n d s = Some (ms, r) \<longrightarrow> members_ok n d s ms r)"
proof (induction n arbitrary: d s v vs ms r)
  case (Suc n)
  have IH: "parse_val n d s = Some (v, r) \<Longrightarrow> val_ok n d s v r"
    "parse_elems n d s = Some (vs, r) \<Longrightarrow> elems_ok n d s vs r"
    "parse_members n d s = Some (ms, r) \<Longrightarrow> members_ok n d s ms r" for d s v vs ms r
    using Suc by blast+
  have "val_ok (Suc n) d s v r" if "parse_val (Suc n) d s = Some (v, r)"
    using val_ok_obj [OF that _ IH(3)] val_ok_arr [OF that _ _ IH(2)] val_ok_scalar [OF that]
    by (cases "tok (CHR ''{'') s"; cases "tok (CHR ''['') s") auto
  moreover have "elems_ok (Suc n) d s vs r" if "parse_elems (Suc n) d s = Some (vs, r)"
    by (rule elems_ok_step [OF that IH(1,2)])
  moreover have "members_ok (Suc n) d s ms r" if "parse_members (Suc n) d s = Some (ms, r)"
    by (rule members_ok_step [OF that IH(1,3)])
  ultimately show ?case by blast
qed simp

lemma parse_val_skip_ws: "parse_val n d (skip_ws s) = parse_val n d s"
proof -
  have "skip_ws (skip_ws s) = skip_ws s" by (induction s) auto
  then have "tok c (skip_ws s) = tok c s" for c by (simp add: tok_def)
  with \<open>skip_ws (skip_ws s) = skip_ws s\<close> show ?thesis by (cases n) (simp_all cong del: option.case_cong_weak)
qed

text \<open>A value cut out of a text parses on its own, and compacted also where it is put, to the value it was.\<close>

lemma parse_compact:
  assumes "parse_val n d s = Some (v, r)"
  shows "starts (compact False (consumed (skip_ws s) r))"
    "delim t \<Longrightarrow> parse_val n d (compact False (consumed (skip_ws s) r) @ t) = Some (compact_json v, t)"
    "json_parse (consumed (skip_ws s) r) = Some v"
proof -
  obtain u w where w: "s = u @ r" "cpt u w" "starts w" "\<And>t. delim t \<Longrightarrow> parse_val n d (w @ t) = Some (compact_json v, t)"
    "\<And>t e. delim t \<Longrightarrow> e \<le> d \<Longrightarrow> parse_val n e (u @ t) = Some (v, t)"
    using parse_all_ok assms unfolding val_ok_def by blast
  have w': "compact False (consumed (skip_ws s) r) = w" using member_raw(1) [OF w(2,3)] by (simp add: w(1))
  have "compact False u \<noteq> []" using cpt_compact [OF w(2)] w(3) by (simp add: starts_def)
  from skip_ws_append [OF this] have c: "consumed (skip_ws s) r = skip_ws u" by (simp add: w(1))
  have "parse_val n 0 (skip_ws u) = Some (v, [])" using w(5) [of "[]" 0] by (simp add: parse_val_skip_ws delim_def)
  then have "json_parse (skip_ws u) = Some v"
    using parse_val_enough [of n 0 "skip_ws u" "(v, [])" "2 * length (skip_ws u) + 1"] by (simp add: json_parse_def del: parse_val.simps)
  with w(3,4) w' c show "starts (compact False (consumed (skip_ws s) r))"
    "delim t \<Longrightarrow> parse_val n d (compact False (consumed (skip_ws s) r) @ t) = Some (compact_json v, t)"
    "json_parse (consumed (skip_ws s) r) = Some v" by simp_all
qed

subsection \<open>Encoded values\<close>

text \<open>An encoding of a value, with enough fuel for it; the fuel does not depend on what follows.\<close>

definition enc_val :: "nat \<Rightarrow> string \<Rightarrow> json \<Rightarrow> bool" where
  "enc_val d e v \<longleftrightarrow> starts e \<and> (\<exists>n. \<forall>t. delim t \<longrightarrow> parse_val n d (e @ t) = Some (v, t))"

lemma enc_valI: "starts e \<Longrightarrow> (\<And>t. delim t \<Longrightarrow> parse_val n d (e @ t) = Some (v, t)) \<Longrightarrow> enc_val d e v"
  unfolding enc_val_def by blast

lemma enc_val_string: "enc_val d (json_string h s) (JStr (unquote (escape_body h s)))"
proof -
  have "parse_val (Suc 0) d (json_string h s @ t) = Some (JStr (unquote (escape_body h s)), t)" for t
    by (simp add: json_string_def tok_miss parse_scalar_def scan_json_string)
  then show ?thesis by (intro enc_valI [of _ "Suc 0"]) (simp_all add: starts_def json_string_def del: parse_val.simps)
qed

lemma enc_val_null: "enc_val d ''null'' JNull"
proof -
  have "parse_val (Suc 0) d (''null'' @ t) = Some (JNull, t)" for t
    by (simp add: tok_def is_ws_def parse_scalar_def scan_lit_def HasPrefix_def)
  then show ?thesis by (intro enc_valI [of _ "Suc 0"]) (simp_all add: starts_def is_ws_def del: parse_val.simps)
qed

lemma enc_val_compact: "parse_val n d s = Some (v, r) \<Longrightarrow> enc_val d (compact False (consumed (skip_ws s) r)) (compact_json v)"
  unfolding enc_val_def using parse_compact by blast

definition enc_members :: "(string \<times> string \<times> json) list \<Rightarrow> string" where
  "enc_members kvs = Join (map (\<lambda>(k, e, v). [quote] @ k @ [quote] @ '':'' @ e) kvs) '',''"

lemma parse_enc_members:
  assumes "kvs \<noteq> []" "\<forall>(k, e, v) \<in> set kvs. plain_key k \<and> enc_val d e v"
  shows "\<exists>n. \<forall>t. parse_members n d (enc_members kvs @ CHR ''}'' # t) = Some (map (\<lambda>(k, e, v). (k, v, e)) kvs, t)"
  using assms
proof (induction kvs)
  case (Cons kv kvs)
  obtain k e v where kv: "kv = (k, e, v)" by (cases kv)
  have k: "plain_key k" and "enc_val d e v" using Cons.prems(2) kv by auto
  then obtain n where e: "starts e" "\<And>t. delim t \<Longrightarrow> parse_val n d (e @ t) = Some (v, t)" by (auto simp: enc_val_def)
  have tq: "tok_quote (quote # k @ quote # u) = Some (k, u)" for u
    using scan_plain [OF k] by (simp add: tok_quote_def tok_hit)
  have con: "consumed (skip_ws (e @ u)) u = e" for u by (simp add: starts_skip [OF e(1)])
  show ?case
  proof (cases kvs)
    case Nil
    have "parse_members (Suc n) d (enc_members (kv # kvs) @ CHR ''}'' # t) = Some (map (\<lambda>(k, e, v). (k, v, e)) (kv # kvs), t)" for t
      using e(2) [of "CHR ''}'' # t"] by (simp add: enc_members_def kv Nil tq tok_punct con unquote_plain [OF k] Let_def del: parse_val.simps)
    then show ?thesis by blast
  next
    case c: (Cons kv' kvs')
    obtain m where m: "\<And>t. parse_members m d (enc_members kvs @ CHR ''}'' # t) = Some (map (\<lambda>(k, e, v). (k, v, e)) kvs, t)"
      using Cons.IH Cons.prems c by auto
    let ?n = "max n m"
    have lift: "parse_members (m + j) d s = Some x" if "parse_members m d s = Some x" for s x j
      by (induction j) (use that parse_mono in \<open>auto simp del: parse_members.simps\<close>)
    have "parse_members ?n d (enc_members kvs @ CHR ''}'' # t) = Some (map (\<lambda>(k, e, v). (k, v, e)) kvs, t)" for t
      using lift [OF m, of "?n - m"] by (simp del: parse_members.simps)
    moreover have "parse_val ?n d (e @ CHR '','' # u) = Some (v, CHR '','' # u)" for u
      by (rule parse_val_mono [OF e(2)]) simp_all
    moreover have "enc_members (kv # kvs) @ u = quote # k @ quote # CHR '':'' # e @ CHR '','' # (enc_members kvs @ u)" for u
      by (simp add: enc_members_def kv c)
    ultimately have "parse_members (Suc ?n) d (enc_members (kv # kvs) @ CHR ''}'' # t) = Some (map (\<lambda>(k, e, v). (k, v, e)) (kv # kvs), t)" for t
      by (simp add: tq tok_punct con unquote_plain [OF k] kv Let_def del: parse_val.simps)
    then show ?thesis by blast
  qed
qed simp

lemma enc_val_object:
  assumes "kvs \<noteq> []" "\<forall>(k, e, v) \<in> set kvs. plain_key k \<and> enc_val (Suc d) e v" "d < maxNestingDepth"
  shows "enc_val d (json_object (map (\<lambda>(k, e, v). (k, e)) kvs)) (JObj (map (\<lambda>(k, e, v). (k, v, e)) kvs))"
proof -
  obtain n where n: "\<And>t. parse_members n (Suc d) (enc_members kvs @ CHR ''}'' # t) = Some (map (\<lambda>(k, e, v). (k, v, e)) kvs, t)"
    using parse_enc_members [OF assms(1,2)] by blast
  have obj: "json_object (map (\<lambda>(k, e, v). (k, e)) kvs) = CHR ''{'' # enc_members kvs @ ''}''"
    by (simp add: json_object_def enc_members_def case_prod_unfold comp_def)
  have "\<exists>x. enc_members kvs = quote # x"
    using assms(1) by (cases kvs; cases "tl kvs") (auto simp: enc_members_def case_prod_unfold)
  then have "tok (CHR ''}'') (enc_members kvs @ u) = None" for u by (auto simp: tok_def)
  then have "parse_val (Suc n) d (json_object (map (\<lambda>(k, e, v). (k, e)) kvs) @ t) = Some (JObj (map (\<lambda>(k, e, v). (k, v, e)) kvs), t)" for t
    using n assms(3) by (simp add: obj tok_hit)
  then show ?thesis by (intro enc_valI [of _ "Suc n"]) (simp_all add: starts_def obj del: parse_val.simps)
qed

lemma enc_val_parse: "enc_val 0 e v \<Longrightarrow> json_parse e = Some v"
  using parse_val_enough [of _ 0 e "(v, [])" "2 * length e + 1"]
  by (auto simp: enc_val_def json_parse_def delim_def dest: spec [of _ "[]"] simp del: parse_val.simps)

subsection \<open>Integers\<close>

lemma utoa_head: "n \<noteq> 0 \<Longrightarrow> hd (utoa n) \<noteq> CHR ''0''"
proof (induction n rule: utoa.induct)
  case (1 n)
  have "digit_char n \<noteq> CHR ''0''" if "n < 10"
    using digit_val_char [OF that] 1(2) by (auto simp: digit_val_def)
  with 1 show ?case by (subst utoa.simps) simp
qed

lemma scan_utoa:
  assumes "num_end t"
  shows "scan_int (utoa n @ t) = Some t"
proof (cases "n = 0")
  case True
  moreover have "digit_char 0 = CHR ''0''" by code_simp
  ultimately show ?thesis by (simp add: utoa.simps [of 0] scan_int_def)
next
  case False
  have d: "list_all is_digit (utoa n)" using utoa_digits by (auto simp: list_all_iff)
  obtain c cs where u: "utoa n = c # cs" "c \<noteq> CHR ''0''" using utoa_head [OF False] by (cases "utoa n") auto
  have "span_digits (cs @ t) = (cs, t)" if "list_all is_digit cs" for cs
    using that num_end_no_digit [OF assms] by (induction cs) (cases t; auto simp: no_digit_def)+
  with u d show ?thesis by (simp add: scan_int_def)
qed

lemma enc_val_int: "enc_val d (FormatInt i) (JNum (FormatInt i))"
proof -
  obtain c cs where c: "FormatInt i = c # cs" "num_char c"
  proof (cases "FormatInt i")
    case Nil
    then show ?thesis by (simp add: FormatInt_def split: if_splits)
  next
    case (Cons c cs)
    then have "c = CHR ''-'' \<or> c \<in> set (utoa (nat i))" by (auto simp: FormatInt_def split: if_splits)
    then have "num_char c" using utoa_digits by (auto simp: num_char_def)
    with Cons that show ?thesis by blast
  qed
  have st: "starts (FormatInt i)" using num_char_starts [OF c(2)] by (simp add: starts_def c(1))
  have q: "c \<notin> {quote, CHR ''t'', CHR ''f'', CHR ''n''}"
    using c(2) by (auto simp: num_char_def is_digit_def digit_val_def)
  have "scan_number (FormatInt i @ t) = Some t" if "num_end t" for t
  proof -
    have "scan_frac t = Some t" "scan_exp t = Some t"
      using that by (cases t; simp add: num_end_def num_char_def scan_frac_def scan_exp_def)+
    moreover have "TrimPrefix (FormatInt i @ t) ''-'' = utoa (nat (if i < 0 then - i else i)) @ t"
      using utoa_digits [of "hd (utoa (nat i))" "nat i"]
      by (cases "utoa (nat i)") (auto simp: FormatInt_def TrimPrefix_def HasPrefix_def is_digit_def digit_val_def)
    ultimately show ?thesis using scan_utoa [OF that] by (simp add: scan_number_def)
  qed
  then have "parse_scalar (FormatInt i @ t) = Some (JNum (FormatInt i), t)" if "delim t" for t
    using q delim_num_end [OF that] consumed_append [of "FormatInt i" t] unfolding c(1) by (simp add: parse_scalar_def)
  moreover have "parse_val (Suc 0) d (FormatInt i @ t) = parse_scalar (FormatInt i @ t)" for t
    using num_char_starts [OF c(2)] starts_tok [OF st] starts_skip [OF st] by (simp add: c(1))
  ultimately show ?thesis by (intro enc_valI [OF st, of "Suc 0"]) (simp del: parse_val.simps)
qed

end
