(* ===== verification/Frame_Parse.thy ===== *)
theory Frame_Parse
  imports Frames Json_Compact
begin

text \<open>
  The event frame as its receivers read it: the publisher's \<open>data\<close> is a piece of the message it sent,
  compacted into the frame, and parses there to the same value.
\<close>

declare parse_val.simps(2) [simp del] parse_members.simps(2) [simp del]

subsection \<open>Decoded strings are valid UTF-8\<close>

lemma byte_char_of [simp]: "n < 256 \<Longrightarrow> byte_val (char_of n) = n"
  by simp

lemma base64:
  fixes r :: nat
  shows "r = r div 4096 * 4096 + r div 64 mod 64 * 64 + r mod 64"
    and "r = r div 262144 * 262144 + r div 4096 mod 64 * 4096 + r div 64 mod 64 * 64 + r mod 64"
proof -
  have d: "r div 4096 = r div 64 div 64" "r div 262144 = r div 4096 div 64" by (simp_all add: div_mult2_eq [symmetric])
  have a: "r = r div 64 * 64 + r mod 64" "r div 64 = r div 4096 * 64 + r div 64 mod 64"
    "r div 4096 = r div 262144 * 64 + r div 4096 mod 64"
    unfolding d(2) d(1) by simp_all
  then show "r = r div 4096 * 4096 + r div 64 mod 64 * 64 + r mod 64"
    "r = r div 262144 * 262144 + r div 4096 mod 64 * 4096 + r div 64 mod 64 * 64 + r mod 64" by linarith+
qed

lemma utf8_encode_rune: "utf8_Valid (encode_rune r @ t) = utf8_Valid t"
proof -
  have m: "x mod 64 < 64" for x :: nat by simp
  consider (1) "r < 0x80" | (2) "0x80 \<le> r" "r < 0x800" | (err) "0x800 \<le> r" "(0xD800 \<le> r \<and> r \<le> 0xDFFF) \<or> 0x10FFFF < r"
    | (3) "0x800 \<le> r" "\<not> ((0xD800 \<le> r \<and> r \<le> 0xDFFF) \<or> 0x10FFFF < r)" "r < 0x10000"
    | (4) "\<not> ((0xD800 \<le> r \<and> r \<le> 0xDFFF) \<or> 0x10FFFF < r)" "0x10000 \<le> r" by linarith
  then show ?thesis
  proof cases
    case 1
    then show ?thesis by (simp add: encode_rune_def)
  next
    case 2
    define x y where "x = r div 64" and "y = r mod 64"
    have "2 \<le> x" "x < 32" "y < 64" using 2 by (auto simp: x_def y_def)
    then show ?thesis using 2
      by (simp add: encode_rune_def x_def [symmetric] y_def [symmetric] utf8_Valid.simps(2) decode_rune.simps(2) in_range_def Let_def)
  next
    case err
    then show ?thesis
      by (simp add: encode_rune_def utf8_Valid.simps(2) decode_rune.simps(2) in_range_def second_lo_def second_hi_def Let_def)
  next
    case 3
    define x y z where "x = r div 4096" and "y = r div 64 mod 64" and "z = r mod 64"
    have r: "r = x * 4096 + y * 64 + z" using base64(1) [of r] by (simp add: x_def y_def z_def)
    have "x < 16" "y < 64" "z < 64" using 3 by (auto simp: x_def y_def z_def)
    moreover have "x = 0 \<Longrightarrow> 32 \<le> y" "x = 13 \<Longrightarrow> y < 32" using 3 \<open>y < 64\<close> \<open>z < 64\<close> by (auto simp: r)
    ultimately show ?thesis using 3
      by (auto simp: encode_rune_def x_def [symmetric] y_def [symmetric] z_def [symmetric] utf8_Valid.simps(2)
          decode_rune.simps(2) in_range_def second_lo_def second_hi_def Let_def)
  next
    case 4
    define x y z u where "x = r div 262144" and "y = r div 4096 mod 64" and "z = r div 64 mod 64" and "u = r mod 64"
    have r: "r = x * 262144 + y * 4096 + z * 64 + u" using base64(2) [of r] by (simp add: x_def y_def z_def u_def)
    have "x \<le> 4" "y < 64" "z < 64" "u < 64" using 4 by (auto simp: x_def y_def z_def u_def)
    moreover have "x = 0 \<Longrightarrow> 16 \<le> y" "x = 4 \<Longrightarrow> y < 16" using 4 \<open>z < 64\<close> \<open>u < 64\<close> by (auto simp: r)
    ultimately show ?thesis using 4
      by (auto simp: encode_rune_def x_def [symmetric] y_def [symmetric] z_def [symmetric] u_def [symmetric] utf8_Valid.simps(2)
          decode_rune.simps(2) in_range_def second_lo_def second_hi_def Let_def)
  qed
qed

lemma simple_escape_ascii: "simple_escape c = Some v \<Longrightarrow> byte_val v < 0x80"
  by (auto simp: simple_escape_def split: if_splits)

lemma utf8_unquote: "utf8_Valid (unquote s)"
proof (induction s rule: unquote.induct)
  case (2 c cs)
  show ?case
  proof (cases "c = backslash \<and> cs \<noteq> [] \<and> simple_escape (hd cs) = None \<and> getu4 (c # cs) \<noteq> None")
    case False
    with 2 show ?thesis
      by (auto simp: utf8_encode_rune Let_def simple_escape_ascii split: list.split option.split prod.split)
  next
    case True
    then obtain e r rr where u: "c = backslash" "cs = e # r" "simple_escape e = None" "getu4 (backslash # e # r) = Some rr"
      by (cases cs) auto
    show ?thesis
    proof (cases "is_surrogate rr")
      case True
      note IH = 2(1-3) [OF u(1,2,3), unfolded u(1,2), OF u(4) True]
      then show ?thesis using u True utf8_encode_rune by (cases "getu4 (drop 4 r)") (auto simp: u)
    next
      case False
      then show ?thesis using u 2 by (simp add: utf8_encode_rune)
    qed
  qed
qed simp

subsection \<open>The data of a message\<close>

text \<open>A member's bytes are a value the parser read, cut out of the text it stands in.\<close>

lemma members_raw:
  assumes "parse_members n d s = Some (ms, r)" "(k, v, raw) \<in> set ms"
  shows "\<exists>m t u. parse_val m d t = Some (v, u) \<and> raw = consumed (skip_ws t) u"
  using assms
proof (induction n arbitrary: s ms r)
  case (Suc n)
  obtain k0 r1 r2 v0 r3 where p: "tok_quote s = Some (k0, r1)" "tok (CHR '':'') r1 = Some r2" "parse_val n d r2 = Some (v0, r3)"
    using Suc.prems(1) by (auto simp: bind_eq_Some_conv Let_def parse_members.simps(2))
  consider (last) "ms = [(unquote k0, v0, consumed (skip_ws r2) r3)]"
    | (more) r' ms' where "parse_members n d r' = Some (ms', r)" "ms = (unquote k0, v0, consumed (skip_ws r2) r3) # ms'"
    using Suc.prems(1) p by (auto simp: bind_eq_Some_conv Let_def parse_members.simps(2) split: option.splits)
  then show ?case
  proof cases
    case last
    with Suc.prems(2) p(3) show ?thesis by auto
  next
    case more
    with Suc.prems(2) p(3) Suc.IH [OF more(1)] show ?thesis by auto
  qed
qed simp

lemma object_members:
  assumes "json_parse s = Some (JObj ms)" "(k, v, raw) \<in> set ms"
  shows "\<exists>m t u. parse_val m 1 t = Some (v, u) \<and> raw = consumed (skip_ws t) u"
proof -
  obtain r where "parse_val (2 * length s + 1) 0 s = Some (JObj ms, r)"
    using assms(1) by (auto simp: json_parse_def split: option.splits if_splits)
  then have "ms = [] \<or> (\<exists>r'. parse_members (2 * length s) 1 r' = Some (ms, r))"
    by (auto simp: parse_val.simps(2) parse_scalar_def split: option.splits if_splits list.splits)
  then show ?thesis using assms(2) members_raw by fastforce
qed

lemma store_members_origin:
  assumes "gm_get (fst (fold (store_member fs strict) ms (st, ok))) f = Some x" "gm_get st f = None"
  shows "\<exists>k v raw h. (k, v, raw) \<in> set ms \<and> field_of fs k = Some (f, h) \<and> (h = FRaw \<and> x = raw \<or> h = FString \<and> v = JStr x)"
  using assms
proof (induction ms rule: rev_induct)
  case (snoc m ms)
  obtain k v raw where m: "m = (k, v, raw)" by (cases m)
  obtain st' ok' where f: "fold (store_member fs strict) ms (st, ok) = (st', ok')" by fastforce
  show ?case
  proof (cases "gm_get st' f = Some x")
    case True
    with snoc f show ?thesis by fastforce
  next
    case False
    with snoc.prems(1) f show ?thesis
      by (auto simp: m split: option.splits fkind.splits json.splits prod.splits if_splits)
  qed
qed simp

text \<open>A field of a decoded message that is not empty was a member of the message's object.\<close>

lemma field_member:
  assumes "json_Unmarshal fs raw = Some st" "str_field f st \<noteq> []"
  shows "\<exists>ms k v c h m t u. json_parse raw = Some (JObj ms) \<and> (k, v, c) \<in> set ms \<and> parse_val m 1 t = Some (v, u) \<and> c = consumed (skip_ws t) u \<and> field_of fs k = Some (f, h) \<and>
    (h = FRaw \<and> str_field f st = c \<or> h = FString \<and> v = JStr (str_field f st))"
proof -
  obtain j where j: "json_parse raw = Some j" "decode_struct fs False j = Some st"
    using assms(1) by (auto simp: json_Unmarshal_def bind_eq_Some_conv)
  obtain x where x: "gm_get st f = Some x" "str_field f st = x"
    using assms(2) by (auto simp: str_field_def split: option.splits)
  then obtain ms where ms: "j = JObj ms" "fst (fold (store_member fs False) ms ([], True)) = st"
    using j(2) by (auto simp: decode_struct_def split: json.splits if_splits prod.splits)
  obtain k v c h where o: "(k, v, c) \<in> set ms" "field_of fs k = Some (f, h)" "h = FRaw \<and> x = c \<or> h = FString \<and> v = JStr x"
    using store_members_origin [of fs False ms "[]" True f x] x(1) ms(2) by auto
  from object_members [OF j(1) [unfolded ms(1)] o(1)] obtain m t u where "parse_val m 1 t = Some (v, u)" "c = consumed (skip_ws t) u"
    by blast
  with j(1) ms(1) o x(2) show ?thesis by fastforce
qed

lemma data_piece:
  assumes "Unmarshal_incoming raw = Some msg" "msg_Data msg \<noteq> []"
  shows "\<exists>ms k v m t u. json_parse raw = Some (JObj ms) \<and> (k, v, msg_Data msg) \<in> set ms \<and>
    field_of incoming_fields k = Some (''data'', FRaw) \<and> parse_val m 1 t = Some (v, u) \<and> msg_Data msg = consumed (skip_ws t) u"
proof -
  obtain st where st: "json_Unmarshal incoming_fields raw = Some st" "msg_Data msg = str_field ''data'' st"
    using assms(1) by (auto simp: Unmarshal_incoming_def)
  have "h = FRaw" if "field_of incoming_fields k = Some (''data'', h)" for k h
    using that by (auto simp: field_of_def incoming_fields_def split: if_splits)
  with field_member [OF st(1), of "''data''"] assms(2) st(2) show ?thesis by fastforce
qed

lemma string_parsed: "parse_val n d s = Some (JStr x, r) \<Longrightarrow> utf8_Valid x"
  by (cases n) (auto simp: parse_val.simps(2) parse_scalar_def utf8_unquote split: option.splits if_splits list.splits)

lemma msg_fields_utf8:
  assumes "Unmarshal_incoming raw = Some msg"
  shows "utf8_Valid (msg_Channel msg) \<and> utf8_Valid (msg_Type msg)"
proof -
  obtain st where st: "json_Unmarshal incoming_fields raw = Some st"
    "msg_Channel msg = str_field ''channel'' st" "msg_Type msg = str_field ''type'' st"
    using assms by (auto simp: Unmarshal_incoming_def)
  have "utf8_Valid (str_field f st)" if "f \<in> {''channel'', ''type''}" for f
  proof (cases "str_field f st = []")
    case False
    have "h = FString" if "field_of incoming_fields k = Some (f, h)" for k h
      using that \<open>f \<in> _\<close> by (auto simp: field_of_def incoming_fields_def split: if_splits)
    with field_member [OF st(1) False] show ?thesis using string_parsed by fastforce
  qed simp
  with st(2,3) show ?thesis by simp
qed

subsection \<open>The event frame\<close>

lemma enc_val_str: "utf8_Valid s \<Longrightarrow> enc_val d (json_string h s) (JStr s)"
  using enc_val_string [of d h s] by (simp add: unquote_escape)

lemma data_enc:
  assumes "data = [] \<and> e = ''null'' \<and> v = JNull \<or> (\<exists>m w t u. parse_val m 1 t = Some (w, u) \<and> data = consumed (skip_ws t) u \<and>
      v = compact_json w \<and> e = compact False data)"
  shows "enc_val (Suc 0) e v" "fval_ok (VRaw data)" "enc_fval (VRaw data) = e"
  using assms enc_val_null enc_val_compact parse_compact(1,3) by (fastforce simp: starts_def)+

lemma parse_event:
  assumes "utf8_Valid channel" "utf8_Valid ident"
    and d: "data = [] \<and> e = ''null'' \<and> v = JNull \<or> (\<exists>m w t u. parse_val m 1 t = Some (w, u) \<and> data = consumed (skip_ws t) u \<and>
      v = compact_json w \<and> e = compact False data)"
  shows "json_parse (event_frame channel data ident) = Some (JObj [(''channel'', JStr channel, json_string False channel),
    (''data'', v, e), (''id'', JStr ident, json_string False ident), (''type'', JStr ''event'', json_string False ''event'')])"
proof -
  let ?ms = "[(''channel'', json_string False channel, JStr channel), (''data'', e, v),
    (''id'', json_string False ident, JStr ident), (''type'', json_string False ''event'', JStr ''event'')]"
  have k: "\<forall>(k, e, v) \<in> set ?ms. plain_key k \<and> enc_val (Suc 0) e v"
    using data_enc(1) [OF d] assms(1,2) by (simp add: enc_val_str plain_utf8 plain_key_def)
  have "event_frame channel data ident = json_object (map (\<lambda>(k, e, v). (k, e)) ?ms)"
    using data_enc(2,3) [OF d] by (simp add: event_frame_def marshalFrame_def)
  with enc_val_parse [OF enc_val_object [OF _ k]] show ?thesis by (simp add: maxNestingDepth_def)
qed

text \<open>
  C9: A subscriber receives the data the publisher sent. The event frame of an accepted publish is a
  JSON object with exactly the members \<open>channel\<close>, \<open>data\<close>, \<open>id\<close> and \<open>type\<close>, in this order; the channel
  is the one of the message, and \<open>data\<close> is the value of the \<open>data\<close> member of the message as it was
  received, white space apart, or \<open>null\<close> when the message had none. That holds for every message,
  however its strings are escaped, its white space placed and its values nested.
\<close>

theorem event_carries_data:
  assumes "Unmarshal_incoming raw = Some msg" "utf8_Valid ident"
  shows "\<exists>v e. json_parse (event_frame (msg_Channel msg) (msg_Data msg) ident) =
      Some (JObj [(''channel'', JStr (msg_Channel msg), json_string False (msg_Channel msg)), (''data'', v, e),
        (''id'', JStr ident, json_string False ident), (''type'', JStr ''event'', json_string False ''event'')]) \<and>
    (if msg_Data msg = [] then v = JNull
     else \<exists>ms k u. json_parse raw = Some (JObj ms) \<and> (k, u, msg_Data msg) \<in> set ms \<and>
       field_of incoming_fields k = Some (''data'', FRaw) \<and> plain_json v = plain_json u)"
proof (cases "msg_Data msg = []")
  case True
  with parse_event [OF conjunct1 [OF msg_fields_utf8 [OF assms(1)]] assms(2), of "[]" "''null''" JNull] show ?thesis by simp
next
  case False
  from data_piece [OF assms(1) False] obtain ms k u m t r where
    u: "json_parse raw = Some (JObj ms)" "(k, u, msg_Data msg) \<in> set ms" "field_of incoming_fields k = Some (''data'', FRaw)"
    and c: "parse_val m 1 t = Some (u, r)" "msg_Data msg = consumed (skip_ws t) r" by blast
  have "json_parse (event_frame (msg_Channel msg) (msg_Data msg) ident) =
      Some (JObj [(''channel'', JStr (msg_Channel msg), json_string False (msg_Channel msg)),
        (''data'', compact_json u, compact False (msg_Data msg)),
        (''id'', JStr ident, json_string False ident), (''type'', JStr ''event'', json_string False ''event'')])"
    by (rule parse_event [OF conjunct1 [OF msg_fields_utf8 [OF assms(1)]] assms(2)]) (use c in blast)
  with u False plain_compact [of u] show ?thesis by auto
qed

theorem event_carries_data_witness:
  "let raw = ''{ \"type\":\"publish\", \"channel\" : \"a\", \"data\": [1, {\"x\" :null}] }'' in
   map_option msg_Data (Unmarshal_incoming raw) = Some ''[1, {\"x\" :null}]'' \<and>
   (\<exists>ms. json_parse (event_frame ''a'' ''[1, {\"x\" :null}]'' ''01'') = Some (JObj ms))"
proof -
  let ?raw = "''{ \"type\":\"publish\", \"channel\" : \"a\", \"data\": [1, {\"x\" :null}] }''"
  have u: "Unmarshal_incoming ?raw = Some \<lparr>msg_Type = ''publish'', msg_Channel = ''a'', msg_Token = [], msg_Data = ''[1, {\"x\" :null}]''\<rparr>"
    by code_simp
  have i: "utf8_Valid ''01''" by simp
  from event_carries_data [OF u i] u show ?thesis by (auto simp: Let_def)
qed

subsection \<open>Frames in general\<close>

text \<open>What every frame of the server is: a JSON object with one of the five types.\<close>

definition server_types :: "string list" where
  "server_types = [''connected'', ''event'', ''subscribed'', ''unsubscribed'', ''error'']"

definition frame_ok :: "bytes \<Rightarrow> bool" where
  "frame_ok b \<longleftrightarrow> (case json_parse b of
     Some (JObj ms) \<Rightarrow> list_ex (\<lambda>(k, v, _). k = ''type'' \<and> list_ex (\<lambda>t. v = JStr t) server_types) ms
   | _ \<Rightarrow> False)"

lemma object_ok:
  assumes "\<forall>(k, e, v) \<in> set kvs. plain_key k \<and> enc_val (Suc 0) e v" "(''type'', e, JStr t) \<in> set kvs" "t \<in> set server_types"
  shows "frame_ok (json_object (map (\<lambda>(k, e, v). (k, e)) kvs))"
proof -
  have "kvs \<noteq> []" using assms(2) by auto
  from enc_val_parse [OF enc_val_object [OF this assms(1)]]
  have "json_parse (json_object (map (\<lambda>(k, e, v). (k, e)) kvs)) = Some (JObj (map (\<lambda>(k, e, v). (k, v, e)) kvs))"
    by (simp add: maxNestingDepth_def)
  then show ?thesis using assms(2,3) by (force simp: frame_ok_def list_ex_iff)
qed

lemma strings_ok:
  assumes "\<forall>(k, v) \<in> set kvs. plain_key k" "(''type'', t) \<in> set kvs" "t \<in> set server_types"
  shows "frame_ok (json_object (map (\<lambda>(k, v). (k, json_string h v)) kvs))"
proof -
  let ?kvs = "map (\<lambda>(k, v). (k, json_string h v, JStr (unquote (escape_body h v)))) kvs"
  have "plain_key t" using assms(3) by (auto simp: server_types_def plain_key_def)
  then have t: "unquote (escape_body h t) = t" by (simp add: unquote_escape plain_utf8)
  have "frame_ok (json_object (map (\<lambda>(k, e, v). (k, e)) ?kvs))"
  proof (rule object_ok)
    show "\<forall>(k, e, v) \<in> set ?kvs. plain_key k \<and> enc_val (Suc 0) e v" using assms(1) enc_val_string by fastforce
    show "(''type'', json_string h t, JStr t) \<in> set ?kvs" using assms(2) t by force
  qed (rule assms(3))
  then show ?thesis by (simp add: case_prod_unfold comp_def)
qed

lemma ack_ok: "t \<in> {''subscribed'', ''unsubscribed''} \<Longrightarrow> frame_ok (ack_frame t n)"
  using strings_ok [of "[(''channel'', n), (''type'', t)]" t False] marshalFrame_strings [of "[(''channel'', n), (''type'', t)]"]
  by (auto simp: ack_frame_def plain_key_def server_types_def)

lemma hello_ok: "frame_ok (hello_frame sid)"
  unfolding hello_frame_def by (rule strings_ok [where t = "''connected''"]) (auto simp: plain_key_def server_types_def)

lemma error_ok: "ef_Type f = ''error'' \<Longrightarrow> frame_ok (marshal_errorFrame f)"
  unfolding marshal_errorFrame_object
  by (rule strings_ok [where t = "''error''"]) (auto simp: plain_key_def server_types_def error_members_def)

lemma event_ok:
  assumes "Unmarshal_incoming raw = Some msg"
  shows "frame_ok (event_frame n (msg_Data msg) ident)"
proof -
  have "\<exists>e v. msg_Data msg = [] \<and> e = ''null'' \<and> v = JNull \<or> (\<exists>m w t u. parse_val m 1 t = Some (w, u) \<and>
      msg_Data msg = consumed (skip_ws t) u \<and> v = compact_json w \<and> e = compact False (msg_Data msg))"
    using data_piece [OF assms] by (cases "msg_Data msg = []") blast+
  then obtain e v where d: "enc_val (Suc 0) e v" "fval_ok (VRaw (msg_Data msg))" "enc_fval (VRaw (msg_Data msg)) = e"
    using data_enc by metis
  let ?s = "\<lambda>k x. (k, json_string False x, JStr (unquote (escape_body False x)))"
  let ?kvs = "[?s ''channel'' n, (''data'', e, v), ?s ''id'' ident, (''type'', json_string False ''event'', JStr ''event'')]"
  have "event_frame n (msg_Data msg) ident = json_object (map (\<lambda>(k, e, v). (k, e)) ?kvs)"
    using d(2,3) by (simp add: event_frame_def marshalFrame_def)
  moreover have "frame_ok (json_object (map (\<lambda>(k, e, v). (k, e)) ?kvs))"
    by (rule object_ok [where t = "''event''"])
      (use d(1) in \<open>simp_all add: enc_val_string enc_val_str plain_utf8 plain_key_def server_types_def\<close>)
  ultimately show ?thesis by simp
qed

end
