(* ===== verification/System_Wire.thy ===== *)
theory System_Wire
  imports System_Props Frame_Parse "HOL-Library.Sublist"
begin

text \<open>
  What a client sees on its connection. The frames already handed to the WebSocket, followed by those
  still in the send queue, are the connection's stream. Every transition of the server extends the
  stream at its end, with frames the client can parse; the write turns of the pump move the boundary.
\<close>

declare map_of_eq_Some_iff [simp del] Some_eq_map_of_iff [simp del]

subsection \<open>Streams\<close>

fun ws_frames :: "ws_call list \<Rightarrow> bytes list" where
  "ws_frames [] = []"
| "ws_frames (WsWrite b # l) = b # ws_frames l"
| "ws_frames (_ # l) = ws_frames l"

lemma ws_frames_append [simp]: "ws_frames (a @ b) = ws_frames a @ ws_frames b"
  by (induction a rule: ws_frames.induct) simp_all

definition written :: "'l world \<Rightarrow> cid \<Rightarrow> bytes list" where
  "written w d = ws_frames (ws_log (conns w d))"

definition stream :: "'l world \<Rightarrow> cid \<Rightarrow> bytes list" where
  "stream w d = written w d @ send (conns w d)"

text \<open>
  How the connection \<open>d\<close> of a later state extends that of an earlier one. Only \<open>PolicyDropOldest\<close> takes
  frames back, and only from the queue.
\<close>

definition extends :: "cid \<Rightarrow> 'l world \<Rightarrow> 'l world \<Rightarrow> bool" where
  "extends d w w' \<longleftrightarrow> conn_policy (conns w' d) = conn_policy (conns w d) \<and> socketID (conns w' d) = socketID (conns w d) \<and>
    (running (conns w' d) \<longrightarrow> running (conns w d)) \<and>
    (\<forall>b \<in> set (stream w' d). b \<in> set (stream w d) \<or> frame_ok b) \<and> prefix (written w d) (written w' d) \<and>
    (conn_policy (conns w d) \<noteq> PolicyDropOldest \<longrightarrow> prefix (stream w d) (stream w' d))"

lemma extends_refl: "extends d w w"
  by (simp add: extends_def)

lemma extends_trans: "extends d u v \<Longrightarrow> extends d v w \<Longrightarrow> extends d u w"
  by (auto simp: extends_def intro: prefix_order.trans)

text \<open>What of a connection the stream depends on.\<close>

definition outgoing :: "'l conn \<Rightarrow> bytes list \<times> ws_call list \<times> policy \<times> string \<times> bool" where
  "outgoing k = (send k, ws_log k, conn_policy k, socketID k, running k)"

lemma extends_same: "outgoing (conns w' d) = outgoing (conns w d) \<Longrightarrow> extends d w w'"
  by (simp add: outgoing_def extends_def stream_def written_def)

lemma extends_queue:
  assumes "conns w' d = (conns w d)\<lparr>send := q\<rparr>" "set q \<subseteq> set (send (conns w d)) \<union> {b. frame_ok b}"
    and "conn_policy (conns w d) \<noteq> PolicyDropOldest \<Longrightarrow> prefix (send (conns w d)) q"
  shows "extends d w w'"
  using assms by (auto simp: extends_def stream_def written_def)

lemma extends_reply: "frame_ok b \<Longrightarrow> extends d w (reply c b w)"
proof (cases "d = c")
  case True
  assume "frame_ok b"
  then show ?thesis unfolding True
    by (intro extends_queue [where q = "fst (try_send sendChanSize (send (conns w c)) b)"])
      (auto simp: reply_def try_send_def)
qed (simp add: extends_same reply_def outgoing_def)

lemma extends_deliver:
  assumes "frame_ok b"
  shows "extends d w (deliver c b w)"
proof (cases "closed (conns w c) \<or> d \<noteq> c")
  case True
  then show ?thesis by (auto simp: Conn_Send_unfold Let_def extends_refl case_prod_unfold intro!: extends_same)
next
  case False
  obtain err q where a: "policy_Apply (conn_policy (conns w c)) sendChanSize id id (send (conns w c)) b = (err, q)"
    by fastforce
  let ?w1 = "upd_conn c (\<lambda>k. k\<lparr>send := q\<rparr>) w"
  have tl: "x \<in> set (tl xs) \<Longrightarrow> x \<in> set xs" for x and xs :: "bytes list" by (cases xs) auto
  have "set q \<subseteq> set (send (conns w c)) \<union> {b. frame_ok b} \<and> (conn_policy (conns w c) \<noteq> PolicyDropOldest \<longrightarrow> prefix (send (conns w c)) q)"
    using a assms by (cases "conn_policy (conns w c)") (auto simp: policy_defs try_send_def Let_def split: if_splits dest: tl)
  then have "extends c w ?w1" by (intro extends_queue [where q = q]) auto
  moreover have "extends c ?w1 (upd_conn c (\<lambda>k. k\<lparr>closeReq := True\<rparr>) (count m ?w1))" for m
    by (rule extends_same) (simp add: outgoing_def)
  ultimately show ?thesis using False a extends_trans [of c w ?w1] by (auto simp: Conn_Send_unfold Let_def)
qed

text \<open>The fanout's queues hold frames too; \<open>ok_step\<close> adds that they stay frames.\<close>

definition ok_step :: "cid \<Rightarrow> 'l world \<Rightarrow> 'l world \<Rightarrow> bool" where
  "ok_step d w w' \<longleftrightarrow> (fan_holds frame_ok (fan w) \<longrightarrow> fan_holds frame_ok (fan w') \<and> extends d w w')"

interpretation wire: checked_delivery deliver "extends d" frame_ok for d
  by unfold_locales (auto intro: extends_refl extends_trans extends_deliver)

interpretation delivery_fan: delivery deliver "\<lambda>w w'. fan w' = fan w"
  by unfold_locales (auto simp: Conn_Send_unfold Let_def case_prod_unfold)

lemma ok_refl: "ok_step d w w"
  by (simp add: ok_step_def extends_refl)

lemma ok_trans: "ok_step d u v \<Longrightarrow> ok_step d v w \<Longrightarrow> ok_step d u w"
  using extends_trans by (auto simp: ok_step_def)

lemma ok_same: "fan w' = fan w \<Longrightarrow> outgoing (conns w' d) = outgoing (conns w d) \<Longrightarrow> ok_step d w w'"
  by (simp add: ok_step_def extends_same)

lemma ok_reply: "frame_ok b \<Longrightarrow> ok_step d w (reply c b w)"
  by (simp add: ok_step_def extends_reply)

lemma ok_Broadcast:
  assumes "frame_ok b"
  shows "ok_step d w (world_Broadcast ch b w)"
proof -
  obtain f w' where b: "fan_Broadcast deliver (chans w) ch b (fan w, w) = (f, w')" by fastforce
  have "extends d w' (w'\<lparr>fan := f\<rparr>)" by (rule extends_same) simp
  then show ?thesis
    using wire.R_holding_Broadcast [of "fan w" b d w "chans w" ch] holds_fan_Broadcast [of frame_ok "fan w" b deliver "chans w" ch w]
      assms b extends_trans
    by (auto simp: ok_step_def world_Broadcast_def)
qed

subsection \<open>Handlers\<close>

text \<open>
  The guards of the handlers and the whole of a publish consist of replies, broadcasts, and steps on
  buckets, the replay cache and counters. A relation between worlds that these keep, they keep.
\<close>

locale plain_steps =
  fixes R :: "'l world \<Rightarrow> 'l world \<Rightarrow> bool"
  assumes refl: "R w w"
    and trans: "R u v \<Longrightarrow> R v w \<Longrightarrow> R u w"
    and reply: "frame_ok b \<Longrightarrow> R w (reply c b w)"
    and broadcast: "frame_ok b \<Longrightarrow> R w (world_Broadcast ch b w)"
    and control_rate: "R w (upd_conn c (\<lambda>k. k\<lparr>controlRate := x\<rparr>) w)"
    and publish_rate: "R w (upd_conn c (\<lambda>k. k\<lparr>connRate := x\<rparr>) w)"
    and limiter: "R w (w\<lparr>rlim := l\<rparr>)"
    and caching: "R w (w\<lparr>cache := seen\<rparr>)"
    and counting: "m \<notin> {Connections_Inc, Connections_Dec} \<Longrightarrow> R w (count m w)"
begin

lemma R_op_error: "R w (sendOpError c msg code m w)"
  unfolding reply_ops by (rule reply) (simp add: error_ok op_error_frame_def Let_def)

lemma R_error: "R w (sendError c code m w)"
  unfolding reply_ops by (rule reply) (simp add: error_ok error_frame_def)

lemma R_ack: "t \<in> {''subscribed'', ''unsubscribed''} \<Longrightarrow> R w (sendAck c t n w)"
  unfolding reply_ops by (rule reply) (rule ack_ok)

lemma R_allowKey: "R w (snd (allowKey ops e c w))"
  by (simp add: allowKey_def case_prod_unfold limiter)

lemma R_allowControl: "R w (snd (allowControl ops e c msg w))"
proof -
  obtain ok b where r: "rate_Allow ops (now_control e) (controlRate (conns w c)) = (ok, b)" by fastforce
  let ?w1 = "upd_conn c (\<lambda>k. k\<lparr>controlRate := b\<rparr>) w"
  obtain ok' w2 where k: "allowKey ops e c ?w1 = (ok', w2)" by fastforce
  have 1: "R w ?w1" by (rule control_rate)
  have 2: "R w w2" using trans [OF 1] R_allowKey [of ?w1 ops e c] k by simp
  show ?thesis using r k trans [OF 1 R_op_error] trans [OF 2 R_op_error] 2
    by (auto simp: allowControl_def Let_def)
qed

lemma R_checkToken: "R w (snd (checkToken e c msg w))"
proof -
  have 1: "R w (w\<lparr>cache := x\<rparr>)" "R w (count AuthFails_Inc (w\<lparr>cache := x\<rparr>))" for x
    using trans [OF caching counting] by (simp_all add: caching)
  show ?thesis using 1 trans [OF 1(2) R_op_error]
    by (auto simp: checkToken_def Let_def refl split: option.splits prod.splits)
qed

lemma R_handlePublish:
  assumes "Unmarshal_incoming raw = Some msg"
  shows "R w (handlePublish ops e c msg w)"
proof -
  obtain ok b where r: "rate_Allow ops (now_publish e) (connRate (conns w c)) = (ok, b)" by fastforce
  let ?w1 = "upd_conn c (\<lambda>k. k\<lparr>connRate := b\<rparr>) w"
  obtain ok' w2 where k: "allowKey ops e c ?w1 = (ok', w2)" by fastforce
  have 1: "R w ?w1" by (rule publish_rate)
  have 2: "R w w2" using trans [OF 1] R_allowKey [of ?w1 ops e c] k by simp
  have "R w (count (Latency_Observe m) (world_Broadcast ch (event_frame (msg_Channel msg) (msg_Data msg) (fresh_ulid e)) (count Published_Inc w2)))" for m ch
    by (rule trans [OF trans [OF trans [OF 2 counting] broadcast] counting]) (simp_all add: event_ok [OF assms])
  then show ?thesis
    using r k R_op_error trans [OF 1 R_op_error] trans [OF 2 R_op_error]
    by (simp add: handlePublish_def Let_def split: option.split)
qed

end

text \<open>
  The handlers as a whole also change memberships, which are steps that leave every connection's
  outgoing side alone.
\<close>

locale handler_steps = plain_steps R for R :: "'l world \<Rightarrow> 'l world \<Rightarrow> bool" +
  assumes quiet: "fan w' = fan w \<Longrightarrow> (\<And>d. outgoing (conns w' d) = outgoing (conns w d)) \<Longrightarrow> R w w'"
begin

lemma R_joinChannel: "R w (joinChannel itf c msg w)"
proof -
  obtain err ch r h where l: "subscribe_loop maxSubscribeRetries itf (msg_Channel msg) c (None, 0) (reg w, chans w) = ((err, ch), r, h)"
    by (metis prod_cases3 prod.collapse)
  have 1: "R w (w\<lparr>reg := r, chans := h\<rparr>)" by (rule quiet) simp_all
  have 2: "R w (upd_conn c (\<lambda>k. k\<lparr>subs := s k\<rparr>) (w\<lparr>reg := r, chans := h\<rparr>))" for s
    by (rule quiet) (simp_all add: outgoing_def)
  show ?thesis
    using l R_op_error trans [OF 1 R_op_error] trans [OF 2 R_ack]
    by (auto simp: joinChannel_def Let_def split: option.split sub_error.split)
qed

lemma R_handleSubscribe: "R w (handleSubscribe ops itf e c msg w)"
proof -
  obtain ok w1 where a: "allowControl ops e c msg w = (ok, w1)" by fastforce
  have 1: "R w w1" using R_allowControl [of w ops e c msg] a by simp
  obtain ok2 w2 where t: "checkToken e c msg w1 = (ok2, w2)" by fastforce
  have 2: "R w w2" using trans [OF 1] R_checkToken [of w1 e c msg] t by simp
  show ?thesis
    using a t 1 2 trans [OF 2 R_joinChannel] trans [OF 1 R_ack] R_op_error
    by (cases ok; cases ok2) (simp_all add: handleSubscribe_def)
qed

lemma R_handleUnsubscribe: "R w (handleUnsubscribe ops e c msg w)"
proof -
  obtain ok w1 where a: "allowControl ops e c msg w = (ok, w1)" by fastforce
  have 1: "R w w1" using R_allowControl [of w ops e c msg] a by simp
  have 2: "R w ((upd_conn c (\<lambda>k. k\<lparr>subs := s k\<rparr>) w1)\<lparr>chans := h\<rparr>)" for s h
    by (rule trans [OF 1 quiet]) (simp_all add: outgoing_def)
  show ?thesis
    using a 1 trans [OF 1 R_ack] trans [OF 2 R_ack]
    by (cases ok) (simp_all add: handleUnsubscribe_def Let_def split: option.split)
qed

lemma R_handle: "R w (handle ops itf e c raw w)"
  by (simp add: handle_def R_handleSubscribe R_handleUnsubscribe R_handlePublish R_op_error R_error split: option.split)

end

interpretation hs: handler_steps "ok_step d" for d
  by unfold_locales (auto intro: ok_refl ok_trans ok_same ok_reply ok_Broadcast simp: outgoing_def)

subsection \<open>Transitions\<close>

lemma extends_ws_call: "(\<And>b. a \<noteq> WsWrite b) \<Longrightarrow> extends d w (ws_call c a w)"
  by (cases a) (auto simp: extends_def stream_def written_def ws_call_def)

lemma ok_ws_call: "(\<And>b. a \<noteq> WsWrite b) \<Longrightarrow> ok_step d w (ws_call c a w)"
proof -
  have "fan (ws_call c a w) = fan w" by (simp add: ws_call_def)
  moreover assume "\<And>b. a \<noteq> WsWrite b"
  ultimately show ?thesis using extends_ws_call [of a d w c] by (simp add: ok_step_def)
qed

lemma ok_cancel: "ok_step d w (cancel c w)"
  unfolding cancel_def by (rule ok_same) (simp_all add: outgoing_def)

lemma ok_closes: "ok_step d w (Conn_CloseFrame c code reason w)" "ok_step d w (closeNetConn c w)"
  by (simp_all add: Conn_CloseFrame_def closeNetConn_def ok_ws_call ok_refl)

lemma ok_run_close: "ok_step d w (run_close cl w)"
proof (cases cl)
  case (CloseFrame c ce)
  then show ?thesis by (cases ce) (simp add: ok_closes)
next
  case (CloseNow c)
  then show ?thesis by (simp add: Conn_CloseNow_def ok_trans [OF ok_cancel ok_closes(2)])
qed

lemma ok_run_closes: "ok_step d w (fold run_close cs w)"
proof (induction cs arbitrary: w)
  case (Cons x cs)
  from ok_trans [OF ok_run_close Cons.IH] show ?case by simp
qed (simp add: ok_refl)

lemma ok_CloseKey: "ok_step d w (world_CloseKey keyID code reason w)"
proof -
  obtain n cs h where k: "hub_CloseKey (APIKeyID w) keyID code reason (hubst w) = (n, cs, h)" by (metis prod_cases3)
  have "ok_step d w (w\<lparr>hubst := h\<rparr>)" by (rule ok_same) simp_all
  from ok_trans [OF this ok_run_closes] show ?thesis by (simp add: world_CloseKey_def k)
qed

lemma ok_Run_finish: "ok_step d w (Run_finish slow c w)"
proof -
  define w1 where "w1 = cancel c (if slow then Conn_CloseFrame c StatusPolicyViolation ''slow consumer'' w else w)"
  define w2 where "w2 = closeNetConn c (ws_call c WsCloseNow w1)"
  have 1: "ok_step d w w1" using ok_trans [OF ok_closes(1) ok_cancel] ok_cancel by (auto simp: w1_def)
  have 2: "ok_step d w1 w2" unfolding w2_def by (rule ok_trans [OF ok_ws_call ok_closes(2)]) simp
  have 3: "ok_step d w2 (Run_finish slow c w)"
  proof -
    have "outgoing ((conns (Run_finish slow c w) d)\<lparr>running := running (conns w2 d)\<rparr>) = outgoing (conns w2 d)"
      "fan (Run_finish slow c w) = fan w2" "running (conns (Run_finish slow c w) d) \<Longrightarrow> running (conns w2 d)"
      unfolding Run_finish_def Let_def w1_def [symmetric] w2_def [symmetric]
      by (auto simp: outgoing_def cancel_def split: if_splits)
    then show ?thesis by (simp add: ok_step_def extends_def stream_def written_def outgoing_def)
  qed
  show ?thesis by (rule ok_trans [OF ok_trans [OF 1 2] 3])
qed

lemma ok_writing: "ok_step d w (snd (writePump_step ev c w))"
proof (cases ev)
  case (Message ok)
  have "ok_step d w (ws_call c (WsWrite m) (upd_conn c (\<lambda>k. k\<lparr>send := q\<rparr>) w))" if "send (conns w c) = m # q" for m q
    using that by (auto simp: ok_step_def extends_def stream_def written_def ws_call_def)
  then show ?thesis by (simp add: Message ok_refl split: list.split)
qed (simp_all add: ok_refl ok_ws_call)

lemma stats_ok: "frame_ok (stats_frame (SnapshotBasic rd r m) ident)"
proof -
  let ?snap = "sort_key fst (SnapshotBasic rd r m)"
  let ?s = "\<lambda>k x. (k, json_string True x, JStr (unquote (escape_body True x)))"
  let ?data = "map (\<lambda>(k, v). (k, FormatInt v, JNum (FormatInt v))) ?snap"
  have ne: "?data \<noteq> []" using arg_cong [of ?snap "[]" length] by (auto simp: SnapshotBasic_def Let_def)
  have "\<forall>(k, v) \<in> set (SnapshotBasic rd r m). plain_key k" by (auto simp: SnapshotBasic_def Let_def)
  then have "\<forall>(k, e, v) \<in> set ?data. plain_key k \<and> enc_val (Suc (Suc 0)) e v" using enc_val_int by fastforce
  from enc_val_object [OF ne this]
  have d: "enc_val (Suc 0) (json_object (map (\<lambda>(k, v). (k, FormatInt v)) ?snap)) (JObj (map (\<lambda>(k, v). (k, JNum (FormatInt v), FormatInt v)) ?snap))"
    by (simp add: maxNestingDepth_def case_prod_unfold comp_def)
  let ?kvs = "[?s ''channel'' statsChannel, (''data'', json_object (map (\<lambda>(k, v). (k, FormatInt v)) ?snap),
      JObj (map (\<lambda>(k, v). (k, JNum (FormatInt v), FormatInt v)) ?snap)), ?s ''id'' ident, (''type'', json_string True ''event'', JStr ''event'')]"
  have "frame_ok (json_object (map (\<lambda>(k, e, v). (k, e)) ?kvs))"
    by (rule object_ok [where t = "''event''"]) (use d in \<open>simp_all add: enc_val_string enc_val_str plain_utf8 server_types_def\<close>)
  then show ?thesis by (simp add: stats_frame_def)
qed

lemma ok_stats: "ok_step d w (PublishStats_tick (SnapshotBasic rd r m) ident w)"
proof -
  obtain ch r' h where g: "reg_GetOrCreate statsChannel (reg w, chans w) = (ch, r', h)" by (metis prod_cases3)
  let ?w1 = "w\<lparr>reg := r', chans := h\<rparr>" and ?b = "stats_frame (SnapshotBasic rd r m) ident"
  have "extends d ?w1 (hub_Broadcast deliver h ch ?b ?w1)" by (rule wire.R_Broadcast [OF stats_ok])
  moreover have "extends d w ?w1" by (rule extends_same) simp
  moreover have "fan (hub_Broadcast deliver h ch ?b ?w1) = fan w"
    using delivery_fan.R_Broadcast [where w = ?w1 and heap = h and c = ch and msg = ?b] by simp
  ultimately show ?thesis using extends_trans [of d w ?w1] by (simp add: PublishStats_tick_def g ok_step_def)
qed

definition starts_fresh :: "cid \<Rightarrow> 'l world \<Rightarrow> 'l world \<Rightarrow> bool" where
  "starts_fresh d w w' \<longleftrightarrow> \<not> running (conns w d) \<and> fan w' = fan w \<and> written w' d = [] \<and>
    stream w' d = (if running (conns w' d) then [hello_frame (socketID (conns w' d))] else [])"

lemma start_wire:
  assumes "w' = snd (Run_start ops p nc c sid key w)" "\<not> running (conns w c)"
  shows "if d = c then starts_fresh d w w' else ok_step d w w'"
proof -
  define w1 where "w1 = count Connections_Inc (w\<lparr>conns := (conns w)(c := new_conn ops p nc sid key)\<rparr>)"
  show ?thesis
  proof (cases rule: Run_start_cases [OF w1_def])
    case (1 ce)
    then show ?thesis using assms
      by (simp add: w1_def cancel_def Conn_CloseFrame_def ws_call_def stream_def written_def new_conn_def outgoing_def
          starts_fresh_def ok_same)
  next
    case 2
    then show ?thesis using assms
      by (simp add: w1_def stream_def written_def new_conn_def outgoing_def starts_fresh_def ok_same)
  qed
qed

lemma step_wire:
  assumes "sys_step ops w w'"
  shows "ok_step d w w' \<or> starts_fresh d w w'"
  using assms
proof (induction rule: sys_step.induct)
  case (start w c p nc sid key)
  then show ?case using start_wire [OF refl start] by metis
next
  case (reading w c itf e res)
  have "ok_step d w (snd (readPump_step ops itf e res c w))"
    by (cases res) (simp_all add: readPump_step_def ok_refl hs.R_handle)
  then show ?case ..
next
  case (worker w p i p' w')
  have "ok_step d w (w'\<lparr>fan := Pool p'\<rparr>)"
  proof -
    have "extends d w' (w'\<lparr>fan := Pool p'\<rparr>)" by (rule extends_same) simp
    moreover have "pool_holds frame_ok p \<Longrightarrow> extends d w w' \<and> pool_holds frame_ok p'"
      using wire.R_holding_run [of p i d w "chans w"] holds_run [of frame_ok p i deliver "chans w" w] worker(2,3) by simp
    ultimately show ?thesis using extends_trans [of d w w'] worker(1) by (simp add: ok_step_def)
  qed
  then show ?case ..
next
  case (sweep w k r h)
  show ?case by (rule disjI1, rule ok_same) simp_all
next
  case (cache_sweep w seen now)
  show ?case by (rule disjI1, rule ok_same) simp_all
next
  case (limiter_gc w now)
  show ?case by (rule disjI1, rule ok_same) simp_all
next
  case (drain_flag w)
  show ?case by (rule disjI1, rule ok_same) simp_all
qed (simp_all add: ok_writing ok_Run_finish ok_stats ok_CloseKey ok_run_close ok_closes)

subsection \<open>The invariant\<close>

definition wire_inv :: "'l world \<Rightarrow> bool" where
  "wire_inv w \<longleftrightarrow> fan_holds frame_ok (fan w) \<and> (\<forall>d. list_all frame_ok (stream w d) \<and>
     (running (conns w d) \<and> conn_policy (conns w d) \<noteq> PolicyDropOldest \<longrightarrow>
        prefix [hello_frame (socketID (conns w d))] (stream w d)))"

lemma wire_inv_step:
  assumes "wire_inv w" "sys_step ops w w'"
  shows "wire_inv w'"
proof -
  have f: "fan_holds frame_ok (fan w)" using assms(1) by (simp add: wire_inv_def)
  have "fan_holds frame_ok (fan w') \<and> list_all frame_ok (stream w' d) \<and>
     (running (conns w' d) \<and> conn_policy (conns w' d) \<noteq> PolicyDropOldest \<longrightarrow>
        prefix [hello_frame (socketID (conns w' d))] (stream w' d))" for d
    using step_wire [OF assms(2), of d]
  proof
    assume "ok_step d w w'"
    with f have "fan_holds frame_ok (fan w')" "extends d w w'" by (simp_all add: ok_step_def)
    with assms(1) show ?thesis
      by (auto simp: extends_def wire_inv_def list_all_iff intro: prefix_order.trans)
  next
    assume "starts_fresh d w w'"
    then show ?thesis using f by (simp add: starts_fresh_def hello_ok)
  qed
  then show ?thesis unfolding wire_inv_def by blast
qed

lemma wire_inv_reach: "sys_reach ops w \<Longrightarrow> wire_inv w"
proof (induction rule: sys_reach.induct)
  case (init r m f secret rl)
  have "stream (world_init ops r f secret rl\<lparr>mets := m\<rparr>) d = []" "\<not> running (conns (world_init ops r f secret rl) d)" for d
    by (simp_all add: world_init_def stream_def written_def dead_conn_def new_conn_def)
  moreover have "fan_holds frame_ok f" using init(3) holds_NewShardedPool by auto
  ultimately show ?case by (simp add: wire_inv_def world_init_def)
next
  case (step w w')
  then show ?case using wire_inv_step by blast
qed

subsection \<open>Sessions\<close>

text \<open>
  What can happen while the connection \<open>d\<close> runs, up to and including its end; the number counts the
  turns in which its write pump took a message and the WebSocket accepted it.
\<close>

inductive session :: "'l rate_ops \<Rightarrow> cid \<Rightarrow> nat \<Rightarrow> 'l world \<Rightarrow> 'l world \<Rightarrow> bool" for ops d where
  here: "session ops d 0 w w"
| other: "session ops d n w v \<Longrightarrow> running (conns v d) \<Longrightarrow> sys_step ops v v' \<Longrightarrow> session ops d n w v'"
| turn: "session ops d n w v \<Longrightarrow> running (conns v d) \<Longrightarrow> session ops d (Suc n) w (snd (writePump_step (Message True) d v))"

lemma session_reach: "session ops d n w w' \<Longrightarrow> sys_reach ops w \<Longrightarrow> sys_reach ops w'"
  by (induction rule: session.induct) (auto intro: sys_reach.step sys_step.writing simp del: writePump_step.simps)

lemma running_ok: "running (conns w d) \<Longrightarrow> sys_step ops w w' \<Longrightarrow> ok_step d w w'"
  using step_wire [of ops w w' d] by (auto simp: starts_fresh_def)

lemma session_extends:
  assumes "session ops d n w w'" "sys_reach ops w"
  shows "extends d w w'"
  using assms
proof (induction rule: session.induct)
  case (here w)
  show ?case by (rule extends_refl)
next
  case (other n w v v')
  have "fan_holds frame_ok (fan v)" using wire_inv_reach [OF session_reach [OF other(1) other.prems]] by (simp add: wire_inv_def)
  with running_ok [OF other(2,3)] other(4) [OF other.prems] show ?case using extends_trans by (auto simp: ok_step_def)
next
  case (turn n w v)
  have "fan_holds frame_ok (fan v)" using wire_inv_reach [OF session_reach [OF turn(1) turn.prems]] by (simp add: wire_inv_def)
  with ok_writing [of d v "Message True" d] turn(3) [OF turn.prems] show ?case using extends_trans by (auto simp: ok_step_def)
qed

text \<open>Each counted turn writes one more frame, until the queue is empty.\<close>

lemma session_progress:
  assumes "session ops d n w w'" "sys_reach ops w" "conn_policy (conns w d) \<noteq> PolicyDropOldest"
  shows "min (length (stream w d)) (length (written w d) + n) \<le> length (written w' d)"
  using assms
proof (induction rule: session.induct)
  case (here w)
  show ?case by simp
next
  case (other n w v v')
  have "extends d w v'" "extends d w v" using session_extends session.other other.hyps other.prems by blast+
  have "fan_holds frame_ok (fan v)" using wire_inv_reach [OF session_reach [OF other(1) other.prems(1)]] by (simp add: wire_inv_def)
  with running_ok [OF other(2,3)] have "length (written v d) \<le> length (written v' d)"
    by (auto simp: ok_step_def extends_def prefix_length_le)
  with other(4) [OF other.prems] show ?case by simp
next
  case (turn n w v)
  have e: "prefix (stream w d) (stream v d)"
    using session_extends [OF turn(1) turn.prems(1)] turn.prems(2) by (simp add: extends_def)
  show ?case
  proof (cases "send (conns v d)")
    case Nil
    with prefix_length_le [OF e] show ?thesis by (simp add: stream_def)
  next
    case (Cons m q)
    then have "length (written (snd (writePump_step (Message True) d v)) d) = Suc (length (written v d))"
      by (simp add: written_def ws_call_def)
    with turn(3) [OF turn.prems] show ?thesis by simp
  qed
qed

lemma session_exists: "running (conns w d) \<Longrightarrow> \<exists>w'. session ops d n w w' \<and> running (conns w' d)"
proof (induction n)
  case (Suc n)
  then obtain v where v: "session ops d n w v" "running (conns v d)" by blast
  have "running (conns (snd (writePump_step (Message True) d v)) d)"
    using v(2) by (simp add: ws_call_def split: list.split)
  with session.turn [OF v] show ?case by blast
qed (auto intro: session.here)

text \<open>So enough turns write everything that was queued.\<close>

lemma session_flushes:
  assumes "sys_reach ops w" "conn_policy (conns w d) \<noteq> PolicyDropOldest" "session ops d sendChanSize w w'"
  shows "prefix (stream w d) (written w' d)"
proof -
  have "length (send (conns w d)) \<le> sendChanSize"
    using sys_reach_inv [OF assms(1)] by (simp add: sys_inv_def winv_def bounded_def)
  with session_progress [OF assms(3,1,2)] have l: "length (stream w d) \<le> length (written w' d)" by (simp add: stream_def)
  have "prefix (stream w d) (stream w' d)" using session_extends [OF assms(3,1)] assms(2) by (simp add: extends_def)
  moreover have "prefix (written w' d) (stream w' d)" by (simp add: stream_def)
  ultimately show ?thesis using l prefix_length_prefix by blast
qed

subsection \<open>Properties\<close>

text \<open>
  C10: A client always gets frames it can parse. In every reachable state of the server, each frame
  queued for or written to any connection, and each frame waiting in the fanout's queues, is a JSON
  object whose \<open>type\<close> is one of \<open>connected\<close>, \<open>event\<close>, \<open>subscribed\<close>, \<open>unsubscribed\<close> and \<open>error\<close>, whatever
  bytes the clients sent.
\<close>

theorem reachable_frames:
  assumes "sys_reach ops w"
  shows "list_all frame_ok (stream w d) \<and> fan_holds frame_ok (fan w)"
  using wire_inv_reach [OF assms] by (simp add: wire_inv_def)

theorem reachable_frames_witness: "list_all frame_ok (stream run_subscribed 1) \<and> length (stream run_subscribed 1) = 2"
proof -
  have "length (stream run_subscribed 1) = 2" unfolding run_subscribed_eq by code_simp
  with reachable_frames [OF run_subscribed_reach, of 1] show ?thesis by blast
qed

text \<open>
  C3: A connection's frames go out in the order they were accepted, greeting first. While a connection
  runs, and in its end, nothing that happens in the server takes back or reorders what was written to
  its WebSocket; and unless its policy is \<open>PolicyDropOldest\<close>, its stream, that is the frames written and
  those queued behind them, begins with its greeting and only ever grows at the end: no accepted frame
  is lost, repeated or overtaken.
\<close>

theorem stream_in_order:
  assumes "sys_reach ops w" "running (conns w d)" "session ops d n w w'"
  shows "prefix (written w d) (written w' d) \<and>
    (conn_policy (conns w d) \<noteq> PolicyDropOldest \<longrightarrow>
      prefix [hello_frame (socketID (conns w d))] (stream w d) \<and> prefix (stream w d) (stream w' d))"
  using session_extends [OF assms(3,1)] wire_inv_reach [OF assms(1)] assms(2)
  unfolding wire_inv_def extends_def by blast

theorem stream_in_order_witness:
  "\<exists>w'. session free_ops 1 2 run_start w' \<and> prefix [hello_frame ''s1''] (stream w' 1) \<and> prefix (stream run_start 1) (stream w' 1)"
proof -
  have r: "running (conns run_start 1)" "socketID (conns run_start 1) = ''s1''" "conn_policy (conns run_start 1) \<noteq> PolicyDropOldest"
    by code_simp+
  obtain w' where w': "session free_ops 1 2 run_start w'" using session_exists [OF r(1)] by blast
  have "prefix [hello_frame ''s1''] (stream run_start 1) \<and> prefix (stream run_start 1) (stream w' 1)"
    using stream_in_order [OF run_start_reach r(1) w'] r(2,3) by simp
  with w' prefix_order.trans show ?thesis by blast
qed

text \<open>
  C6: What was accepted is written. As long as a connection runs its write pump can take a turn, and
  once the pump has taken as many turns as the send queue has places, however the turns are interleaved
  with everything else the server does, every frame that had been accepted for the connection has been
  handed to its WebSocket, in order (unless its policy is \<open>PolicyDropOldest\<close>).
\<close>

theorem accepted_is_written:
  assumes "sys_reach ops w" "running (conns w d)" "conn_policy (conns w d) \<noteq> PolicyDropOldest"
  shows "(\<exists>w'. session ops d sendChanSize w w') \<and>
    (\<forall>w'. session ops d sendChanSize w w' \<longrightarrow> prefix (stream w d) (written w' d))"
  using session_exists [OF assms(2)] session_flushes [OF assms(1,3)] by blast

theorem accepted_is_written_witness:
  "\<exists>w'. session free_ops 1 sendChanSize run_subscribed w' \<and> prefix (stream run_subscribed 1) (written w' 1)"
proof -
  have r: "running (conns run_subscribed 1)" "conn_policy (conns run_subscribed 1) \<noteq> PolicyDropOldest"
    unfolding run_subscribed_eq by code_simp+
  from accepted_is_written [OF run_subscribed_reach r] show ?thesis by blast
qed

end
