(* ===== verification/System_Publish.thy ===== *)
theory System_Publish
  imports System_Wire
begin

text \<open>
  A publish end to end: from the bytes the publisher's connection reads to the frames on the
  subscribers' WebSockets.
\<close>

declare map_of_eq_Some_iff [simp del] Some_eq_map_of_iff [simp del]

subsection \<open>From the bytes to the handler\<close>

lemma handle_publish:
  assumes "utf8_Valid raw" "Unmarshal_incoming raw = Some msg" "msg_Type msg = ''publish''" "ValidateChannelName (msg_Channel msg) = None"
  shows "snd (readPump_step ops itf e (Some raw) c w) = handlePublish ops e c msg w"
  using assms by (simp add: readPump_step_def handle_def)

subsection \<open>From the handler to the streams\<close>

text \<open>
  The next turn of the worker of a channel, when the fanout has workers. A fanout takes an event at once
  when it has none, or when the channel's worker has nothing else to do and the pool is open.
\<close>

definition worker_turn :: "chref \<Rightarrow> 'l world \<Rightarrow> 'l world" where
  "worker_turn ch w = (case fan w of
     PerConn \<Rightarrow> w
   | Pool p \<Rightarrow> (case pool_run deliver (chans w) (pool_shardFor (Name (chans w ! ch)) p) (p, w) of
       (p', w') \<Rightarrow> w'\<lparr>fan := Pool p'\<rparr>))"

definition fan_idle :: "chref \<Rightarrow> 'l world \<Rightarrow> bool" where
  "fan_idle ch w \<longleftrightarrow> (case fan w of
     PerConn \<Rightarrow> True
   | Pool p \<Rightarrow> \<not> pool_closed p \<and> queues p ! pool_shardFor (Name (chans w ! ch)) p = [])"

lemma worker_turn_reach:
  assumes "sys_reach ops w"
  shows "sys_reach ops (worker_turn ch w)"
proof (cases "fan w")
  case (Pool p)
  obtain p' w' where r: "pool_run deliver (chans w) (pool_shardFor (Name (chans w ! ch)) p) (p, w) = (p', w')" by fastforce
  have "pool_shardFor (Name (chans w ! ch)) p < length (queues p)"
    using wire_inv_reach [OF assms] Pool holds_index by (fastforce simp: wire_inv_def)
  from sys_reach.step [OF assms sys_step.worker [OF Pool this r]] Pool r show ?thesis by (simp add: worker_turn_def)
qed (use assms in \<open>simp add: worker_turn_def\<close>)

lemma broadcast_turn:
  assumes "fan_holds (\<lambda>_. True) (fan w)" "fan_idle ch w" "distinct (Subscribers (chans w ! ch))" "d \<in> set (Subscribers (chans w ! ch))"
  shows "conns (worker_turn ch (count m (world_Broadcast ch b w))) d = received b (conns w d)"
proof (cases "fan w")
  case PerConn
  then have "fan (world_Broadcast ch b w) = PerConn" by (simp add: world_Broadcast_def)
  with PerConn world_Broadcast_conns [OF PerConn assms(3)] assms(4) show ?thesis by (simp add: worker_turn_def)
next
  case (Pool p)
  let ?i = "pool_shardFor (Name (chans w ! ch)) p"
  let ?p = "p\<lparr>queues := (queues p)[?i := [(ch, b)]]\<rparr>"
  have i: "?i < length (queues p)" using assms(1) Pool holds_index by fastforce
  have "world_Broadcast ch b w = w\<lparr>fan := Pool ?p\<rparr>"
    using assms(2) Pool by (simp add: world_Broadcast_def fan_idle_def pool_Broadcast_def pool_enqueue_def Let_def queueSize_def)
  moreover have "pool_shardFor (Name (chans w ! ch)) ?p = ?i" by (simp add: pool_shardFor_def)
  ultimately show ?thesis
    using hub_Broadcast_conns [OF assms(3), where b = b and w = "count m (w\<lparr>fan := Pool ?p\<rparr>)" and d = d] assms(4) i
    by (simp add: worker_turn_def pool_run_def pool_take_def case_prod_unfold)
qed

lemma received_room:
  assumes "\<not> closed k" "length (send k) < sendChanSize"
  shows "received b k = k\<lparr>send := send k @ [b]\<rparr>"
  using assms by (simp add: received_def pol.room)

lemma publish_stream:
  assumes "subs_linked w" "fan_holds (\<lambda>_. True) (fan w)" "fan_idle ch w" "\<not> channelReserved (msg_Channel msg)"
    and "gm_get (subs (conns w c)) (msg_Channel msg) = Some ch" "conn_budget ops e c w" "key_budget ops e c w"
    and "gm_get (subs (conns w d)) (msg_Channel msg) = Some ch" "\<not> closed (conns w d)" "length (send (conns w d)) < sendChanSize"
  shows "let k = conns (worker_turn ch (handlePublish ops e c msg w)) d in
    ws_log k = ws_log (conns w d) \<and> running k = running (conns w d) \<and> conn_policy k = conn_policy (conns w d) \<and>
    send k = send (conns w d) @ [event_frame (msg_Channel msg) (msg_Data msg) (fresh_ulid e)]"
proof -
  let ?out = "event_frame (msg_Channel msg) (msg_Data msg) (fresh_ulid e)"
  obtain b l where h: "handlePublish ops e c msg w =
      count (Latency_Observe (now_end e - now_start e))
        (world_Broadcast ch ?out (count Published_Inc ((upd_conn c (\<lambda>k. k\<lparr>connRate := b\<rparr>) w)\<lparr>rlim := l\<rparr>)))"
    using handlePublish_accepted [OF assms(4-7)] .
  let ?w1 = "count Published_Inc ((upd_conn c (\<lambda>k. k\<lparr>connRate := b\<rparr>) w)\<lparr>rlim := l\<rparr>)"
  have ch: "ch < length (chans w)" "d \<in> set (Subscribers (chans w ! ch))"
    using linkedD [OF assms(1), of d "msg_Channel msg" ch] assms(8) by simp_all
  have "fan_idle ch ?w1" using assms(3) by (simp add: fan_idle_def cong del: fanout.case_cong_weak)
  then have "conns (worker_turn ch (handlePublish ops e c msg w)) d = received ?out (conns ?w1 d)"
    unfolding h using assms(2) chans_wf_distinct [OF linked_wf [OF assms(1)] ch(1)] ch(2) by (intro broadcast_turn) simp_all
  moreover have "received ?out (conns ?w1 d) = (conns ?w1 d)\<lparr>send := send (conns w d) @ [?out]\<rparr>"
    using received_room [of "conns ?w1 d" ?out] assms(9,10) by (cases "d = c") simp_all
  ultimately show ?thesis unfolding Let_def by (cases "d = c") simp_all
qed

subsection \<open>The property\<close>

text \<open>
  C2: A published event reaches the subscribers' sockets. When a running connection reads a publish that
  the guards accept, and the fanout is the per-connection one, or the sharded one with the channel's
  worker at rest until its next turn, then the event frame is queued for every member of the channel that
  has room, behind what was queued before; and however the server goes on, once the member's write pump
  has taken as many turns as its queue has places, that frame has been written to its WebSocket, right
  after everything that had been accepted for it earlier (unless its policy is \<open>PolicyDropOldest\<close>).
\<close>

theorem publish_reaches_sockets:
  assumes "sys_reach ops w" "running (conns w c)" "itf_ok itf"
    and "utf8_Valid raw" "Unmarshal_incoming raw = Some msg" "msg_Type msg = ''publish''" "ValidateChannelName (msg_Channel msg) = None"
    and "\<not> channelReserved (msg_Channel msg)" "gm_get (subs (conns w c)) (msg_Channel msg) = Some ch"
    and "conn_budget ops e c w" "key_budget ops e c w" "fan_idle ch w"
    and "gm_get (subs (conns w d)) (msg_Channel msg) = Some ch" "\<not> closed (conns w d)"
    and "length (send (conns w d)) < sendChanSize" "conn_policy (conns w d) \<noteq> PolicyDropOldest"
  shows "let w1 = worker_turn ch (snd (readPump_step ops itf e (Some raw) c w));
      accepted = stream w d @ [event_frame (msg_Channel msg) (msg_Data msg) (fresh_ulid e)] in
    sys_reach ops w1 \<and> stream w1 d = accepted \<and> (\<exists>w'. session ops d sendChanSize w1 w') \<and>
    (\<forall>w'. session ops d sendChanSize w1 w' \<longrightarrow> prefix accepted (written w' d))"
proof -
  let ?w1 = "worker_turn ch (snd (readPump_step ops itf e (Some raw) c w))"
  have i: "subs_linked w" "bounded w" "fan_holds frame_ok (fan w)"
    using sys_reach_inv [OF assms(1)] wire_inv_reach [OF assms(1)] by (simp_all add: sys_inv_def winv_def wire_inv_def)
  have f: "fan_holds (\<lambda>_. True) (fan w)" using i(3) by (cases "fan w") (auto simp: pool_holds_def)
  have d: "running (conns w d)" using i(2) assms(13) by (force simp: bounded_def)
  have r: "sys_reach ops ?w1"
    by (rule worker_turn_reach [OF sys_reach.step [OF assms(1) sys_step.reading [OF assms(2,3)]]])
  note k = publish_stream [OF i(1) f assms(12,8-11,13-15), unfolded Let_def,
      folded handle_publish [OF assms(4-7), where itf = itf]]
  have s: "stream ?w1 d = stream w d @ [event_frame (msg_Channel msg) (msg_Data msg) (fresh_ulid e)]"
    using k by (simp add: stream_def written_def)
  have p: "running (conns ?w1 d)" "conn_policy (conns ?w1 d) \<noteq> PolicyDropOldest" using k d assms(16) by simp_all
  have "\<exists>w'. session ops d sendChanSize ?w1 w'" using session_exists [OF p(1)] by blast
  with r s session_flushes [OF r p(2)] show ?thesis by (simp add: Let_def)
qed

theorem publish_reaches_sockets_witness:
  "\<exists>w'. session free_ops 1 sendChanSize
      (worker_turn 0 (snd (readPump_step free_ops (\<lambda>_. id) demo_env (Some (demo_raw ''publish'' ''room'')) 1 run_subscribed))) w' \<and>
    event_frame ''room'' [] ''u'' \<in> set (written w' 1)"
proof -
  let ?msg = "\<lparr>msg_Type = ''publish'', msg_Channel = ''room'', msg_Token = [], msg_Data = []\<rparr>"
  have p: "plain_key ''publish''" "plain_key ''room''" by simp_all
  have v: "ValidateChannelName (msg_Channel ?msg) = None" by code_simp
  have m: "\<not> channelReserved (msg_Channel ?msg)" "itf_ok (\<lambda>_. id)" "msg_Type ?msg = ''publish''"
    "gm_get (subs (conns run_subscribed 1)) (msg_Channel ?msg) = Some 0"
    using room_public run_subscribed_member by (simp_all add: itf_ok_def)
  have r: "running (conns run_subscribed 1)" "fan run_subscribed = PerConn" "\<not> closed (conns run_subscribed 1)"
    "length (send (conns run_subscribed 1)) < sendChanSize" "conn_policy (conns run_subscribed 1) \<noteq> PolicyDropOldest"
    "conn_budget free_ops demo_env 1 run_subscribed" "key_budget free_ops demo_env 1 run_subscribed"
    unfolding run_subscribed_eq by code_simp+
  have f: "fan_idle 0 run_subscribed" using r(2) by (simp add: fan_idle_def)
  note facts = publish_reaches_sockets [OF run_subscribed_reach r(1) m(2) demo_raw_utf8 [OF p] demo_raw_parse [OF p] m(3) v m(1,4) r(6,7) f m(4) r(3-5),
      unfolded Let_def]
  then obtain w' where w': "session free_ops 1 sendChanSize
      (worker_turn 0 (snd (readPump_step free_ops (\<lambda>_. id) demo_env (Some (demo_raw ''publish'' ''room'')) 1 run_subscribed))) w'" by blast
  with facts have "prefix (stream run_subscribed 1 @ [event_frame ''room'' [] ''u'']) (written w' 1)" by simp
  from set_mono_prefix [OF this] w' show ?thesis by auto
qed

end
