(* ===== verification/Sections.thy ===== *)
theory Sections
  imports System_Props
begin

text \<open>
  The connections at the granularity of the code's critical sections. A step of the system is one
  section of one goroutine: of \<open>conn.Run\<close>, of the read pump inside a subscribe or an unsubscribe, of the
  garbage collector inside a sweep, or one of the effects (a reply, a \<open>Send\<close>, a call on a socket, a bucket,
  a counter, and so on) that do not concern memberships and that any goroutine may do at any time.
  Handlers of different connections, broadcasts, sweeps and closes are interleaved freely, and a handler
  that is halfway through can be overtaken by all of them. That the handlers and \<open>Run\<close> as whole functions
  (\<open>Conn\<close>) are runs of these sections is shown in \<open>Section_Runs\<close>.
\<close>

declare map_of_eq_Some_iff [simp del] Some_eq_map_of_iff [simp del]

subsection \<open>State\<close>

text \<open>Where the goroutine of a connection is; the read pump is meant while the pumps run.\<close>

datatype phase =
    PNew
  | PCounted                   \<comment> \<open>\<open>Connections.Inc\<close> done, before \<open>Hub.Add\<close>\<close>
  | PRefused close_error       \<comment> \<open>refused by \<open>Hub.Add\<close>, in its close handshake\<close>
  | PAdded                     \<comment> \<open>tracked, before the greeting\<close>
  | PIdle                      \<comment> \<open>the pumps run, no membership section under way\<close>
  | PTry string nat            \<comment> \<open>subscribe: before the lookup of attempt \<open>i\<close>\<close>
  | PMiss string nat           \<comment> \<open>subscribe: the lookup missed\<close>
  | PGot string nat chref      \<comment> \<open>subscribe: \<open>GetOrCreate\<close> returned\<close>
  | PJoined string chref       \<comment> \<open>subscribe: \<open>hub.Subscribe\<close> done, before \<open>c.subs[name] = ch\<close>\<close>
  | PLeft chref                \<comment> \<open>unsubscribe: the own entry deleted, before \<open>hub.Unsubscribe\<close>\<close>
  | PStopped                   \<comment> \<open>both pumps have returned\<close>
  | PClosed                    \<comment> \<open>\<open>closed\<close> is set\<close>
  | PCleared "chref list"      \<comment> \<open>\<open>c.subs\<close> taken; the channels still to leave\<close>
  | PRemoved                   \<comment> \<open>not tracked any more, before \<open>Connections.Dec\<close>\<close>
  | PDone

record 'l sections =
  sw :: "'l world"
  ph :: "cid \<Rightarrow> phase"
  wk :: "nat \<Rightarrow> sweep_pc"

definition locked :: "'l sections \<Rightarrow> chref \<Rightarrow> bool" where
  "locked s ch \<longleftrightarrow> (\<exists>i. holds (wk s i) ch)"

subsection \<open>Effects\<close>

text \<open>
  \<open>queue_op\<close> is what the write pump and the replies do to a send buffer inside the gaps of
  \<open>PolicyDropOldest\<close>. \<open>SetFan\<close> stands for whatever the fanout does to its own queues; what its workers
  deliver are \<open>Sends\<close>.
\<close>

datatype queue_op = QTake | QPut bytes

fun queue_run :: "queue_op \<Rightarrow> bytes list \<Rightarrow> bytes list" where
  "queue_run QTake q = tl q"
| "queue_run (QPut b) q = fst (try_send sendChanSize q b)"

datatype 'l effect =
    Replies cid bytes
  | Sends cid bytes "queue_op list" "queue_op list"
  | Writes write_event cid
  | Calls cid ws_call
  | Cancels cid
  | Counts metric_call
  | SetConnRate cid 'l
  | SetControlRate cid 'l
  | SetLimiter "'l limiter"
  | SetCache "replay_cache option"
  | SetFan fanout
  | ClosesKey string nat string
  | MarksDrain

fun run_effect :: "'l effect \<Rightarrow> 'l world \<Rightarrow> 'l world" where
  "run_effect (Replies c b) w = reply c b w"
| "run_effect (Sends c b g1 g2) w = snd (Conn_Send_gaps (fold queue_run g1) (fold queue_run g2) c b w)"
| "run_effect (Writes ev c) w = snd (writePump_step ev c w)"
| "run_effect (Calls c a) w = ws_call c a w"
| "run_effect (Cancels c) w = cancel c w"
| "run_effect (Counts m) w = count m w"
| "run_effect (SetConnRate c x) w = upd_conn c (\<lambda>k. k\<lparr>connRate := x\<rparr>) w"
| "run_effect (SetControlRate c x) w = upd_conn c (\<lambda>k. k\<lparr>controlRate := x\<rparr>) w"
| "run_effect (SetLimiter l) w = w\<lparr>rlim := l\<rparr>"
| "run_effect (SetCache seen) w = w\<lparr>cache := seen\<rparr>"
| "run_effect (SetFan f) w = w\<lparr>fan := f\<rparr>"
| "run_effect (ClosesKey keyID code reason) w = w\<lparr>hubst := snd (snd (hub_CloseKey (APIKeyID w) keyID code reason (hubst w)))\<rparr>"
| "run_effect MarksDrain w = w\<lparr>hubst := drain_mark (hubst w)\<rparr>"

text \<open>The connections gauge is moved by \<open>Run\<close> alone.\<close>

fun free_effect :: "'l effect \<Rightarrow> bool" where
  "free_effect (Counts m) = (m \<noteq> Connections_Inc \<and> m \<noteq> Connections_Dec)"
| "free_effect _ = True"

subsection \<open>Steps\<close>

text \<open>Where the retry loop goes after \<open>hub.Subscribe\<close>.\<close>

fun after_join :: "string \<Rightarrow> nat \<Rightarrow> chref \<Rightarrow> sub_error option \<Rightarrow> phase" where
  "after_join n i ch None = PJoined n ch"
| "after_join n i ch (Some ErrChannelDeleted) = (if Suc i < maxSubscribeRetries then PTry n (Suc i) else PIdle)"
| "after_join n i ch (Some ErrTooManySubs) = PIdle"

abbreviation to :: "'l sections \<Rightarrow> cid \<Rightarrow> phase \<Rightarrow> 'l world \<Rightarrow> 'l sections" where
  "to s c p w \<equiv> s\<lparr>sw := w, ph := (ph s)(c := p)\<rparr>"

inductive sec_step :: "'l rate_ops \<Rightarrow> 'l sections \<Rightarrow> 'l sections \<Rightarrow> bool" for ops where
  effects: "free_effect ef \<Longrightarrow> sec_step ops s (s\<lparr>sw := run_effect ef (sw s)\<rparr>)"
| enter: "ph s c = PNew \<or> ph s c = PDone \<Longrightarrow> sec_step ops s (to s c PCounted (Run_enter ops p nc c sid key (sw s)))"
| add: "ph s c = PCounted \<Longrightarrow> Run_add c (sw s) = (None, w') \<Longrightarrow> sec_step ops s (to s c PAdded w')"
| refuse: "ph s c = PCounted \<Longrightarrow> Run_add c (sw s) = (Some ce, w') \<Longrightarrow> sec_step ops s (to s c (PRefused ce) w')"
| close_refused: "ph s c = PRefused (code, reason) \<Longrightarrow> sec_step ops s (to s c PRemoved (Conn_CloseFrame c code reason (sw s)))"
| hello: "ph s c = PAdded \<Longrightarrow> Run_hello c (sw s) = (True, w') \<Longrightarrow> sec_step ops s (to s c PIdle w')"
| hello_full: "ph s c = PAdded \<Longrightarrow> Run_hello c (sw s) = (False, w') \<Longrightarrow> sec_step ops s (to s c (PCleared []) w')"
| try_join: "ph s c = PIdle \<Longrightarrow> gm_get (subs (conns (sw s) c)) n = None \<Longrightarrow> \<not> at_channel_limit (conns (sw s) c) \<Longrightarrow>
    sec_step ops s (to s c (PTry n 0) (sw s))"
| lookup_hit: "ph s c = PTry n i \<Longrightarrow> reg_Lookup (reg (sw s)) n = Some ch \<Longrightarrow> sec_step ops s (to s c (PGot n i ch) (sw s))"
| lookup_miss: "ph s c = PTry n i \<Longrightarrow> reg_Lookup (reg (sw s)) n = None \<Longrightarrow> sec_step ops s (to s c (PMiss n i) (sw s))"
| store: "ph s c = PMiss n i \<Longrightarrow> reg_slow n (reg (sw s), chans (sw s)) = (ch, r, h) \<Longrightarrow>
    sec_step ops s (to s c (PGot n i ch) ((sw s)\<lparr>reg := r, chans := h\<rparr>))"
| join_channel: "ph s c = PGot n i ch \<Longrightarrow> \<not> locked s ch \<Longrightarrow>
    hub_Subscribe ch c defaultMaxSubsPerChannel (chans (sw s)) = (err, h) \<Longrightarrow>
    sec_step ops s (to s c (after_join n i ch err) ((sw s)\<lparr>chans := h\<rparr>))"
| join_own: "ph s c = PJoined n ch \<Longrightarrow> sec_step ops s (to s c PIdle (own_put n ch c (sw s)))"
| leave_own: "ph s c = PIdle \<Longrightarrow> gm_get (subs (conns (sw s) c)) n = Some ch \<Longrightarrow>
    sec_step ops s (to s c (PLeft ch) (own_del n c (sw s)))"
| leave_chan: "ph s c = PLeft ch \<Longrightarrow> \<not> locked s ch \<Longrightarrow> sec_step ops s (to s c PIdle (leave_channel c ch (sw s)))"
| stop: "ph s c = PIdle \<Longrightarrow> sec_step ops s (to s c PStopped (sw s))"
| close: "ph s c = PStopped \<Longrightarrow> sec_step ops s (to s c PClosed (Run_closed c (sw s)))"
| clear: "ph s c = PClosed \<Longrightarrow> sec_step ops s (to s c (PCleared (map snd (subs (conns (sw s) c)))) (own_clear c (sw s)))"
| leave_next: "ph s c = PCleared (ch # chs) \<Longrightarrow> \<not> locked s ch \<Longrightarrow>
    sec_step ops s (to s c (PCleared chs) (leave_channel c ch (sw s)))"
| remove: "ph s c = PCleared [] \<Longrightarrow> sec_step ops s (to s c PRemoved (Run_remove c (sw s)))"
| uncount: "ph s c = PRemoved \<Longrightarrow> sec_step ops s (to s c PDone (count Connections_Dec (sw s)))"
| stats_store: "reg_slow statsChannel (reg (sw s), chans (sw s)) = (ch, r, h) \<Longrightarrow>
    sec_step ops s (s\<lparr>sw := (sw s)\<lparr>reg := r, chans := h\<rparr>\<rparr>)"
| sweep_copy: "wk s i = WIdle \<Longrightarrow> reg_Lookup (reg (sw s)) n = Some ch \<Longrightarrow>
    sec_step ops s (s\<lparr>wk := (wk s)(i := WHave ch)\<rparr>)"
| sweep_busy: "wk s i = WHave ch \<Longrightarrow> \<not> locked s ch \<Longrightarrow> Subscribers (chans (sw s) ! ch) \<noteq> [] \<Longrightarrow>
    sec_step ops s (s\<lparr>wk := (wk s)(i := WIdle)\<rparr>)"
| sweep_lock: "wk s i = WHave ch \<Longrightarrow> \<not> locked s ch \<Longrightarrow> Subscribers (chans (sw s) ! ch) = [] \<Longrightarrow>
    sec_step ops s (s\<lparr>wk := (wk s)(i := WLocked ch)\<rparr>)"
| sweep_remove: "wk s i = WLocked ch \<Longrightarrow>
    reg_CompareAndDelete (Name (chans (sw s) ! ch)) ch (reg (sw s)) = (b, r) \<Longrightarrow>
    sec_step ops s (s\<lparr>sw := (sw s)\<lparr>reg := r\<rparr>, wk := (wk s)(i := WRemoved ch)\<rparr>)"
| sweep_mark: "wk s i = WRemoved ch \<Longrightarrow>
    sec_step ops s (s\<lparr>sw := (sw s)\<lparr>chans := (chans (sw s))[ch := (chans (sw s) ! ch)\<lparr>Deleted := True\<rparr>]\<rparr>, wk := (wk s)(i := WIdle)\<rparr>)"

inductive sec_reach :: "'l rate_ops \<Rightarrow> 'l sections \<Rightarrow> bool" for ops where
  init: "r \<in> {SyncMapReg NewSyncMap, ShardedReg NewSharded} \<Longrightarrow> mcalls m = [] \<Longrightarrow>
    sec_reach ops \<lparr>sw = (world_init ops r f secret rl)\<lparr>mets := m\<rparr>, ph = (\<lambda>_. PNew), wk = (\<lambda>_. WIdle)\<rparr>"
| step: "sec_reach ops s \<Longrightarrow> sec_step ops s s' \<Longrightarrow> sec_reach ops s'"

text \<open>The connections between their two moves of the gauge, and those the hub tracks.\<close>

fun counted :: "phase \<Rightarrow> bool" where
  "counted PNew = False"
| "counted PDone = False"
| "counted _ = True"

fun in_hub :: "phase \<Rightarrow> bool" where
  "in_hub PNew = False"
| "in_hub PCounted = False"
| "in_hub (PRefused ce) = False"
| "in_hub PRemoved = False"
| "in_hub PDone = False"
| "in_hub _ = True"

text \<open>Whether a connection is between its section on the channel and its section on its own map.\<close>

fun halfway :: "phase \<Rightarrow> chref \<Rightarrow> bool" where
  "halfway (PJoined n ch) d = (d = ch)"
| "halfway (PLeft ch) d = (d = ch)"
| "halfway (PCleared chs) d = (d \<in> set chs)"
| "halfway _ d = False"

text \<open>The phases in which a connection may hold subscriptions.\<close>

fun has_subs :: "phase \<Rightarrow> bool" where
  "has_subs PIdle = True"
| "has_subs (PTry n i) = True"
| "has_subs (PMiss n i) = True"
| "has_subs (PGot n i ch) = True"
| "has_subs (PJoined n ch) = True"
| "has_subs (PLeft ch) = True"
| "has_subs PStopped = True"
| "has_subs PClosed = True"
| "has_subs _ = False"

subsection \<open>The invariant\<close>

text \<open>A channel a subscribe has in hand: registered, or marked deleted, or about to be.\<close>

definition in_order :: "'l sections \<Rightarrow> chref \<Rightarrow> bool" where
  "in_order s ch \<longleftrightarrow> reg_abs (reg (sw s)) (Name (chans (sw s) ! ch)) = Some ch \<or> Deleted (chans (sw s) ! ch) \<or>
    (\<exists>i. wk s i = WRemoved ch)"

definition may_join :: "'l sections \<Rightarrow> cid \<Rightarrow> string \<Rightarrow> bool" where
  "may_join s c n \<longleftrightarrow> gm_get (subs (conns (sw s) c)) n = None \<and> \<not> at_channel_limit (conns (sw s) c)"

definition named :: "'l sections \<Rightarrow> chref \<Rightarrow> string \<Rightarrow> bool" where
  "named s ch n \<longleftrightarrow> ch < length (chans (sw s)) \<and> Name (chans (sw s) ! ch) = n"

definition phase_ok :: "'l sections \<Rightarrow> cid \<Rightarrow> bool" where
  "phase_ok s c \<longleftrightarrow> (\<not> has_subs (ph s c) \<longrightarrow> subs (conns (sw s) c) = []) \<and>
    (case ph s c of
       PTry n i \<Rightarrow> may_join s c n
     | PMiss n i \<Rightarrow> may_join s c n
     | PGot n i ch \<Rightarrow> may_join s c n \<and> named s ch n \<and> in_order s ch
     | PJoined n ch \<Rightarrow> may_join s c n \<and> named s ch n \<and> c \<in> set (Subscribers (chans (sw s) ! ch))
     | PLeft ch \<Rightarrow> \<forall>n. gm_get (subs (conns (sw s) c)) n \<noteq> Some ch
     | _ \<Rightarrow> True)"

definition sweeper_ok :: "'l sections \<Rightarrow> nat \<Rightarrow> bool" where
  "sweeper_ok s i \<longleftrightarrow> (case wk s i of
     WIdle \<Rightarrow> True
   | WHave ch \<Rightarrow> ch < length (chans (sw s))
   | WLocked ch \<Rightarrow> ch < length (chans (sw s)) \<and> Subscribers (chans (sw s) ! ch) = []
   | WRemoved ch \<Rightarrow> ch < length (chans (sw s)) \<and> Subscribers (chans (sw s) ! ch) = [] \<and>
       reg_abs (reg (sw s)) (Name (chans (sw s) ! ch)) \<noteq> Some ch)"

definition moment_ok :: "'l sections \<Rightarrow> bool" where
  "moment_ok s \<longleftrightarrow> chans_wf (reg (sw s), chans (sw s)) \<and> (\<forall>c. gm_ok (subs (conns (sw s) c))) \<and>
    (\<forall>c n ch. gm_get (subs (conns (sw s) c)) n = Some ch \<longrightarrow> named s ch n \<and> c \<in> set (Subscribers (chans (sw s) ! ch))) \<and>
    (\<forall>c ch. ch < length (chans (sw s)) \<and> c \<in> set (Subscribers (chans (sw s) ! ch)) \<longrightarrow>
       gm_get (subs (conns (sw s) c)) (Name (chans (sw s) ! ch)) = Some ch \<or> halfway (ph s c) ch) \<and>
    (\<forall>c. phase_ok s c) \<and> (\<forall>i. sweeper_ok s i) \<and>
    (\<forall>i j ch. holds (wk s i) ch \<and> holds (wk s j) ch \<longrightarrow> i = j)"

lemma moment_okI:
  assumes "chans_wf (reg (sw s), chans (sw s))" "\<And>c. gm_ok (subs (conns (sw s) c))"
    "\<And>c n ch. gm_get (subs (conns (sw s) c)) n = Some ch \<Longrightarrow> named s ch n \<and> c \<in> set (Subscribers (chans (sw s) ! ch))"
    "\<And>c ch. ch < length (chans (sw s)) \<Longrightarrow> c \<in> set (Subscribers (chans (sw s) ! ch)) \<Longrightarrow>
       gm_get (subs (conns (sw s) c)) (Name (chans (sw s) ! ch)) = Some ch \<or> halfway (ph s c) ch"
    "\<And>c. phase_ok s c" "\<And>i. sweeper_ok s i" "\<And>i j ch. holds (wk s i) ch \<Longrightarrow> holds (wk s j) ch \<Longrightarrow> i = j"
  shows "moment_ok s"
  using assms unfolding moment_ok_def by blast

lemma moment_okD:
  assumes "moment_ok s"
  shows "chans_wf (reg (sw s), chans (sw s))" "gm_ok (subs (conns (sw s) c))"
    "gm_get (subs (conns (sw s) c)) n = Some ch \<Longrightarrow> named s ch n \<and> c \<in> set (Subscribers (chans (sw s) ! ch))"
    "ch < length (chans (sw s)) \<Longrightarrow> c \<in> set (Subscribers (chans (sw s) ! ch)) \<Longrightarrow>
       gm_get (subs (conns (sw s) c)) (Name (chans (sw s) ! ch)) = Some ch \<or> halfway (ph s c) ch"
    "phase_ok s c" "sweeper_ok s i" "holds (wk s i) ch \<Longrightarrow> holds (wk s j) ch \<Longrightarrow> i = j"
  using assms unfolding moment_ok_def by blast+

lemma phase_okI:
  assumes "\<not> has_subs (ph s c) \<Longrightarrow> subs (conns (sw s) c) = []"
    and "\<And>n i. ph s c = PTry n i \<Longrightarrow> may_join s c n" "\<And>n i. ph s c = PMiss n i \<Longrightarrow> may_join s c n"
    and "\<And>n i ch. ph s c = PGot n i ch \<Longrightarrow> may_join s c n \<and> named s ch n \<and> in_order s ch"
    and "\<And>n ch. ph s c = PJoined n ch \<Longrightarrow> may_join s c n \<and> named s ch n \<and> c \<in> set (Subscribers (chans (sw s) ! ch))"
    and "\<And>n ch. ph s c = PLeft ch \<Longrightarrow> gm_get (subs (conns (sw s) c)) n \<noteq> Some ch"
  shows "phase_ok s c"
  using assms unfolding phase_ok_def by (cases "ph s c") simp_all

text \<open>
  A change that leaves a connection's phase and map alone keeps its part, if the channels keep their
  names, no channel loses it, and a channel in order stays so.
\<close>

lemma phase_ok_keep:
  assumes "phase_ok s c" "ph s' c = ph s c" "subs (conns (sw s') c) = subs (conns (sw s) c)"
    "maxChannels (conns (sw s') c) = maxChannels (conns (sw s) c)"
    and "\<And>ch n. named s ch n \<Longrightarrow> named s' ch n"
    and "\<And>ch. ch < length (chans (sw s)) \<Longrightarrow> c \<in> set (Subscribers (chans (sw s) ! ch)) \<Longrightarrow> c \<in> set (Subscribers (chans (sw s') ! ch))"
    and "\<And>ch. ch < length (chans (sw s)) \<Longrightarrow> in_order s ch \<Longrightarrow> in_order s' ch"
  shows "phase_ok s' c"
proof -
  have m: "may_join s c n \<Longrightarrow> may_join s' c n" for n using assms(3,4) by (simp add: may_join_def)
  show ?thesis
    by (rule phase_okI; use assms m in \<open>auto simp: phase_ok_def named_def split: phase.splits\<close>)
qed

lemma in_order_keep:
  assumes "\<And>j. wk s j = WRemoved ch \<Longrightarrow> wk s' j = WRemoved ch" "in_order s ch"
    and "reg_abs (reg (sw s)) (Name (chans (sw s) ! ch)) = Some ch \<Longrightarrow> reg_abs (reg (sw s')) (Name (chans (sw s') ! ch)) = Some ch"
    and "Deleted (chans (sw s) ! ch) \<Longrightarrow> Deleted (chans (sw s') ! ch)"
  shows "in_order s' ch"
  using assms unfolding in_order_def by blast

lemma sweeper_ok_keep:
  assumes "sweeper_ok s i" "wk s' i = wk s i" "length (chans (sw s)) \<le> length (chans (sw s'))"
    and "\<And>ch. ch < length (chans (sw s)) \<Longrightarrow> holds (wk s i) ch \<Longrightarrow> Subscribers (chans (sw s) ! ch) = [] \<Longrightarrow> Subscribers (chans (sw s') ! ch) = []"
    and "\<And>ch. ch < length (chans (sw s)) \<Longrightarrow> reg_abs (reg (sw s)) (Name (chans (sw s) ! ch)) \<noteq> Some ch \<Longrightarrow>
      reg_abs (reg (sw s')) (Name (chans (sw s') ! ch)) \<noteq> Some ch"
  shows "sweeper_ok s' i"
  using assms by (cases "wk s i") (auto simp: sweeper_ok_def)

text \<open>Steps that touch neither the registry nor the channels, nor anybody's map but one connection's.\<close>

lemma members_move:
  assumes inv: "moment_ok s" and same: "reg w = reg (sw s)" "chans w = chans (sw s)"
    "\<And>d. d \<noteq> c \<Longrightarrow> subs (conns w d) = subs (conns (sw s) d) \<and> maxChannels (conns w d) = maxChannels (conns (sw s) d)"
    and ok: "gm_ok (subs (conns w c))"
    and less: "\<And>n ch. gm_get (subs (conns w c)) n = Some ch \<Longrightarrow> named s ch n \<and> c \<in> set (Subscribers (chans (sw s) ! ch))"
    and halves: "\<And>ch. ch < length (chans (sw s)) \<Longrightarrow> c \<in> set (Subscribers (chans (sw s) ! ch)) \<Longrightarrow>
       gm_get (subs (conns w c)) (Name (chans (sw s) ! ch)) = Some ch \<or> halfway p ch"
    and own: "phase_ok (to s c p w) c"
  shows "moment_ok (to s c p w)"
proof -
  have named: "named (to s c p w) ch n = named s ch n" and order: "in_order (to s c p w) ch = in_order s ch" for ch n
    by (simp_all add: named_def in_order_def same)
  show ?thesis
  proof (rule moment_okI)
    fix d n ch assume "gm_get (subs (conns (sw (to s c p w)) d)) n = Some ch"
    then show "named (to s c p w) ch n \<and> d \<in> set (Subscribers (chans (sw (to s c p w)) ! ch))"
      using less same(3) [of d] moment_okD(3) [OF inv, of d n ch] by (cases "d = c") (simp_all add: named same)
  next
    fix d ch assume "ch < length (chans (sw (to s c p w)))" "d \<in> set (Subscribers (chans (sw (to s c p w)) ! ch))"
    then show "gm_get (subs (conns (sw (to s c p w)) d)) (Name (chans (sw (to s c p w)) ! ch)) = Some ch \<or> halfway (ph (to s c p w) d) ch"
      using halves [of ch] same(3) [of d] moment_okD(4) [OF inv, of ch d] by (cases "d = c") (simp_all add: same)
  next
    fix d show "phase_ok (to s c p w) d"
    proof (cases "d = c")
      case False
      then show ?thesis
        by (intro phase_ok_keep [OF moment_okD(5) [OF inv, of d]]) (use same in \<open>simp_all add: named order\<close>)
    qed (use own in simp)
  next
    fix i show "sweeper_ok (to s c p w) i"
      by (rule sweeper_ok_keep [OF moment_okD(6) [OF inv, of i]]) (simp_all add: same)
  next
    fix d show "gm_ok (subs (conns (sw (to s c p w)) d))"
      using ok same(3) [of d] moment_okD(2) [OF inv, of d] by (cases "d = c") simp_all
  qed (use moment_okD(1,7) [OF inv] same in auto)
qed

text \<open>Steps that leave all maps alone.\<close>

lemma members_phase:
  assumes inv: "moment_ok s" and same: "reg w = reg (sw s)" "chans w = chans (sw s)"
    "\<And>d. subs (conns w d) = subs (conns (sw s) d)" "\<And>d. d \<noteq> c \<Longrightarrow> maxChannels (conns w d) = maxChannels (conns (sw s) d)"
    and halves: "\<And>ch. \<not> halfway (ph s c) ch"
    and own: "phase_ok (to s c p w) c"
  shows "moment_ok (to s c p w)"
proof (rule members_move [OF inv same(1,2) _ _ _ _ own])
  fix ch assume "ch < length (chans (sw s))" "c \<in> set (Subscribers (chans (sw s) ! ch))"
  with moment_okD(4) [OF inv, of ch c] halves
  show "gm_get (subs (conns w c)) (Name (chans (sw s) ! ch)) = Some ch \<or> halfway p ch" by (simp add: same)
qed (use moment_okD(2,3) [OF inv] same in auto)

subsection \<open>Sections on channels\<close>

lemma members_store:
  assumes inv: "moment_ok s" and slow: "reg_slow n (reg (sw s), chans (sw s)) = (ch, r, h)"
    and s': "s' = s\<lparr>sw := (sw s)\<lparr>reg := r, chans := h\<rparr>\<rparr>"
  shows "moment_ok s'" "named s' ch n" "in_order s' ch"
proof -
  from slow_wf [OF moment_okD(1) [OF inv] slow] obtain g where
    w: "chans_wf (r, h)" "reg_abs r n = Some ch" "ch < length h" "Name (h ! ch) = n" and
    g: "h = chans (sw s) @ g" "\<forall>x \<in> set g. Subscribers x = []" and
    lk: "\<And>d. d < length (chans (sw s)) \<Longrightarrow> reg_abs r (Name (chans (sw s) ! d)) = Some d \<longleftrightarrow> reg_abs (reg (sw s)) (Name (chans (sw s) ! d)) = Some d"
    by blast
  have nth: "h ! d = chans (sw s) ! d" if "d < length (chans (sw s))" for d using that g by (simp add: nth_append)
  have new: "Subscribers (h ! d) = []" if "d < length h" "\<not> d < length (chans (sw s))" for d
    using that g nth_mem [of "d - length (chans (sw s))" g] by (auto simp: nth_append)
  have named: "named s d m \<Longrightarrow> named s' d m" for d m by (auto simp: named_def s' g nth_append)
  have order: "in_order s' d" if "d < length (chans (sw s))" "in_order s d" for d
    using that by (simp add: in_order_def s' nth lk)
  show "named s' ch n" "in_order s' ch" using w by (simp_all add: named_def in_order_def s')
  show "moment_ok s'"
  proof (rule moment_okI)
    fix d m x assume "gm_get (subs (conns (sw s') d)) m = Some x"
    with moment_okD(3) [OF inv, of d m x] named show "named s' x m \<and> d \<in> set (Subscribers (chans (sw s') ! x))"
      by (auto simp: s' named_def nth)
  next
    fix d x assume x: "x < length (chans (sw s'))" "d \<in> set (Subscribers (chans (sw s') ! x))"
    then have "x < length (chans (sw s))" using new [of x] by (cases "x < length (chans (sw s))") (simp_all add: s')
    with x moment_okD(4) [OF inv, of x d] show "gm_get (subs (conns (sw s') d)) (Name (chans (sw s') ! x)) = Some x \<or> halfway (ph s' d) x"
      by (simp add: s' nth)
  next
    fix d show "phase_ok s' d"
      by (rule phase_ok_keep [OF moment_okD(5) [OF inv, of d]]) (use named order in \<open>simp_all add: s' nth\<close>)
  next
    fix i show "sweeper_ok s' i"
      by (rule sweeper_ok_keep [OF moment_okD(6) [OF inv, of i]]) (simp_all add: s' g nth_append lk [unfolded g])
  qed (use w moment_okD(2,7) [OF inv] in \<open>auto simp: s'\<close>)
qed

text \<open>One connection joins or leaves a channel no sweeper holds.\<close>

lemma members_set_subs:
  assumes inv: "moment_ok s" and ch: "ch < length (chans (sw s))" "\<not> locked s ch"
    and h: "h = (chans (sw s))[ch := (chans (sw s) ! ch)\<lparr>Subscribers := ss\<rparr>]"
    and wf: "chans_wf (reg (sw s), h)"
    and others: "\<And>d. d \<noteq> c \<Longrightarrow> d \<in> set ss \<longleftrightarrow> d \<in> set (Subscribers (chans (sw s) ! ch))"
    and stays: "\<And>n. gm_get (subs (conns (sw s) c)) n = Some ch \<Longrightarrow> c \<in> set ss"
    and halves: "\<And>x. x < length h \<Longrightarrow> c \<in> set (Subscribers (h ! x)) \<Longrightarrow>
       gm_get (subs (conns (sw s) c)) (Name (chans (sw s) ! x)) = Some x \<or> halfway p x"
    and own: "phase_ok (to s c p ((sw s)\<lparr>chans := h\<rparr>)) c"
  shows "moment_ok (to s c p ((sw s)\<lparr>chans := h\<rparr>))" (is "moment_ok ?s")
proof -
  have nth: "h ! d = (if d = ch then (chans (sw s) ! ch)\<lparr>Subscribers := ss\<rparr> else chans (sw s) ! d)" for d
    using ch by (simp add: h nth_list_update)
  have len: "length h = length (chans (sw s))" by (simp add: h)
  have named: "named ?s = named s" by (rule ext)+ (simp add: named_def nth len)
  have order: "in_order ?s d = in_order s d" for d by (simp add: in_order_def nth)
  show ?thesis
  proof (rule moment_okI)
    fix d n x assume get: "gm_get (subs (conns (sw ?s) d)) n = Some x"
    with moment_okD(3) [OF inv, of d n x] have m: "named s x n" "d \<in> set (Subscribers (chans (sw s) ! x))" by simp_all
    with get stays [of n] others [of d] show "named ?s x n \<and> d \<in> set (Subscribers (chans (sw ?s) ! x))"
      by (cases "d = c"; cases "x = ch") (simp_all add: named nth)
  next
    fix d x assume x: "x < length (chans (sw ?s))" "d \<in> set (Subscribers (chans (sw ?s) ! x))"
    show "gm_get (subs (conns (sw ?s) d)) (Name (chans (sw ?s) ! x)) = Some x \<or> halfway (ph ?s d) x"
    proof (cases "d = c")
      case True
      with x halves [of x] show ?thesis by (cases "x = ch") (simp_all add: nth)
    next
      case False
      with x others [of d] have "x < length (chans (sw s))" "d \<in> set (Subscribers (chans (sw s) ! x))"
        by (simp_all add: nth len split: if_splits)
      with moment_okD(4) [OF inv, of x d] False show ?thesis by (cases "x = ch") (simp_all add: nth)
    qed
  next
    fix d show "phase_ok ?s d"
    proof (cases "d = c")
      case False
      show ?thesis
        by (rule phase_ok_keep [OF moment_okD(5) [OF inv, of d]])
          (use False others [of d] in \<open>simp_all add: named order, auto simp: nth split: if_splits\<close>)
    qed (use own in simp)
  next
    fix i show "sweeper_ok ?s i"
      by (rule sweeper_ok_keep [OF moment_okD(6) [OF inv, of i]])
        (use ch(2) in \<open>auto simp: nth len locked_def\<close>)
  qed (use wf moment_okD(2,7) [OF inv] in auto)
qed

lemma members_leave:
  assumes inv: "moment_ok s" and ch: "\<not> locked s ch" "halfway (ph s c) ch"
    and gone: "\<And>n. gm_get (subs (conns (sw s) c)) n \<noteq> Some ch"
    and halves: "\<And>x. halfway (ph s c) x \<Longrightarrow> x \<noteq> ch \<Longrightarrow> halfway p x"
    and p: "has_subs p \<or> subs (conns (sw s) c) = []" "p = PIdle \<or> (\<exists>chs. p = PCleared chs)"
  shows "moment_ok (to s c p (leave_channel c ch (sw s)))"
proof (cases "ch < length (chans (sw s))")
  case True
  let ?ss = "set_del c (Subscribers (chans (sw s) ! ch))"
  let ?h = "(chans (sw s))[ch := (chans (sw s) ! ch)\<lparr>Subscribers := ?ss\<rparr>]"
  have h: "hub_Unsubscribe ch c (chans (sw s)) = ?h" by (simp add: hub_Unsubscribe_def)
  have "moment_ok (to s c p ((sw s)\<lparr>chans := ?h\<rparr>))"
  proof (rule members_set_subs [OF inv True ch(1) refl])
    show "chans_wf (reg (sw s), ?h)" using Unsubscribe_wf [OF moment_okD(1) [OF inv], of ch c] by (simp add: h)
    fix x assume x: "x < length ?h" "c \<in> set (Subscribers (?h ! x))"
    then have "x \<noteq> ch" "c \<in> set (Subscribers (chans (sw s) ! x))" using True by (auto simp: nth_list_update split: if_splits)
    with x moment_okD(4) [OF inv, of x c] halves show "gm_get (subs (conns (sw s) c)) (Name (chans (sw s) ! x)) = Some x \<or> halfway p x"
      by auto
  qed (use gone p in \<open>auto simp: phase_ok_def\<close>)
  then show ?thesis by (simp add: h)
next
  case False
  then have "hub_Unsubscribe ch c (chans (sw s)) = chans (sw s)" by (simp add: hub_Unsubscribe_def list_update_beyond)
  then have w: "leave_channel c ch (sw s) = sw s" by simp
  show ?thesis unfolding w
  proof (rule members_move [OF inv])
    fix x assume "x < length (chans (sw s))" "c \<in> set (Subscribers (chans (sw s) ! x))"
    with False moment_okD(4) [OF inv, of x c] halves
    show "gm_get (subs (conns (sw s) c)) (Name (chans (sw s) ! x)) = Some x \<or> halfway p x" by auto
  qed (use moment_okD(2,3) [OF inv] p in \<open>auto simp: phase_ok_def\<close>)
qed

lemma members_join:
  assumes inv: "moment_ok s" and pc: "ph s c = PGot n i ch" and ch: "\<not> locked s ch"
    and sub: "hub_Subscribe ch c defaultMaxSubsPerChannel (chans (sw s)) = (err, h)"
  shows "moment_ok (to s c (after_join n i ch err) ((sw s)\<lparr>chans := h\<rparr>))"
proof -
  have got: "may_join s c n" "named s ch n" "in_order s ch" using moment_okD(5) [OF inv, of c] pc by (simp_all add: phase_ok_def)
  have stay: "moment_ok (to s c p ((sw s)\<lparr>chans := chans (sw s)\<rparr>))" if "p = PIdle \<or> p = PTry n (Suc i)" for p
    using that got(1) by (intro members_phase [OF inv]) (auto simp: pc phase_ok_def may_join_def)
  show ?thesis
  proof (cases rule: Subscribe_cases [of "chans (sw s)" ch c defaultMaxSubsPerChannel])
    case 1
    with sub have "err = Some ErrChannelDeleted" "h = chans (sw s)" by simp_all
    then show ?thesis using stay by simp
  next
    case 2
    with sub have "err = Some ErrTooManySubs" "h = chans (sw s)" by simp_all
    then show ?thesis using stay by simp
  next
    case 3
    let ?h = "(chans (sw s))[ch := (chans (sw s) ! ch)\<lparr>Subscribers := set_add c (Subscribers (chans (sw s) ! ch))\<rparr>]"
    have res: "err = None" "h = ?h" using 3 sub by simp_all
    have len: "ch < length (chans (sw s))" "Name (chans (sw s) ! ch) = n" using got(2) by (simp_all add: named_def)
    have "wk s j \<noteq> WRemoved ch" for j using ch by (metis holds.simps(2) locked_def)
    with got(3) 3(1) have lk: "reg_abs (reg (sw s)) (Name (chans (sw s) ! ch)) = Some ch" by (auto simp: in_order_def)
    have wf: "chans_wf (reg (sw s), ?h)" using Subscribe_wf [OF moment_okD(1) [OF inv] lk, of c defaultMaxSubsPerChannel] 3(3) by simp
    have old: "c \<notin> set (Subscribers (chans (sw s) ! x))" if "x < length (chans (sw s))" "Name (chans (sw s) ! x) = n" for x
      using moment_okD(4) [OF inv that(1), of c] got(1) that(2) pc by (auto simp: may_join_def)
    show ?thesis unfolding res after_join.simps
    proof (rule members_set_subs [OF inv len(1) ch refl wf])
      fix x assume x: "x < length ?h" "c \<in> set (Subscribers (?h ! x))"
      then show "gm_get (subs (conns (sw s) c)) (Name (chans (sw s) ! x)) = Some x \<or> halfway (PJoined n ch) x"
        using moment_okD(4) [OF inv, of x c] pc len(1) by (cases "x = ch") (auto simp: nth_list_update)
    qed (use got len in \<open>auto simp: phase_ok_def may_join_def named_def nth_list_update\<close>)
  qed
qed

subsection \<open>Sections on a connection's own map\<close>

lemma members_join_own:
  assumes inv: "moment_ok s" and pc: "ph s c = PJoined n ch"
  shows "moment_ok (to s c PIdle (own_put n ch c (sw s)))"
proof -
  have j: "may_join s c n" "named s ch n" "c \<in> set (Subscribers (chans (sw s) ! ch))"
    using moment_okD(5) [OF inv, of c] pc by (simp_all add: phase_ok_def)
  show ?thesis
  proof (rule members_move [OF inv])
    fix m x assume "gm_get (subs (conns (own_put n ch c (sw s)) c)) m = Some x"
    then show "named s x m \<and> c \<in> set (Subscribers (chans (sw s) ! x))"
      using j moment_okD(3) [OF inv, of c m x] by (auto split: if_splits)
  next
    fix x assume x: "x < length (chans (sw s))" "c \<in> set (Subscribers (chans (sw s) ! x))"
    then have "gm_get (subs (conns (sw s) c)) (Name (chans (sw s) ! x)) = Some x \<or> x = ch"
      using moment_okD(4) [OF inv, of x c] pc by auto
    then show "gm_get (subs (conns (own_put n ch c (sw s)) c)) (Name (chans (sw s) ! x)) = Some x \<or> halfway PIdle x"
      using j by (auto simp: named_def may_join_def)
  qed (use moment_okD(2) [OF inv] in \<open>simp_all add: phase_ok_def\<close>)
qed

lemma members_leave_own:
  assumes inv: "moment_ok s" and pc: "ph s c = PIdle" and own: "gm_get (subs (conns (sw s) c)) n = Some ch"
  shows "moment_ok (to s c (PLeft ch) (own_del n c (sw s)))"
proof (rule members_move [OF inv])
  fix m x assume "gm_get (subs (conns (own_del n c (sw s)) c)) m = Some x"
  then show "named s x m \<and> c \<in> set (Subscribers (chans (sw s) ! x))"
    using moment_okD(3) [OF inv, of c m x] by (auto split: if_splits)
next
  fix x assume x: "x < length (chans (sw s))" "c \<in> set (Subscribers (chans (sw s) ! x))"
  then have "gm_get (subs (conns (sw s) c)) (Name (chans (sw s) ! x)) = Some x"
    using moment_okD(4) [OF inv, of x c] pc by simp
  then show "gm_get (subs (conns (own_del n c (sw s)) c)) (Name (chans (sw s) ! x)) = Some x \<or> halfway (PLeft ch) x"
    using own by auto
next
  have "named s ch n" using moment_okD(3) [OF inv own] by simp
  then have "gm_get (gm_del n (subs (conns (sw s) c))) m \<noteq> Some ch" for m
    using moment_okD(3) [OF inv, of c m ch] by (cases "m = n") (auto simp: named_def)
  then show "phase_ok (to s c (PLeft ch) (own_del n c (sw s))) c" by (simp add: phase_ok_def)
qed (use moment_okD(2) [OF inv] in simp_all)

lemma members_clear:
  assumes inv: "moment_ok s" and pc: "ph s c = PClosed"
  shows "moment_ok (to s c (PCleared (map snd (subs (conns (sw s) c)))) (own_clear c (sw s)))"
proof (rule members_move [OF inv])
  fix x assume "x < length (chans (sw s))" "c \<in> set (Subscribers (chans (sw s) ! x))"
  then have "gm_get (subs (conns (sw s) c)) (Name (chans (sw s) ! x)) = Some x"
    using moment_okD(4) [OF inv, of x c] pc by simp
  then have "x \<in> snd ` set (subs (conns (sw s) c))" by (force dest: map_of_SomeD)
  then show "gm_get (subs (conns (own_clear c (sw s)) c)) (Name (chans (sw s) ! x)) = Some x \<or>
      halfway (PCleared (map snd (subs (conns (sw s) c)))) x" by simp
qed (simp_all add: phase_ok_def)

lemma PLeft_gone:
  assumes inv: "moment_ok s" and pc: "ph s c = PLeft ch"
  shows "gm_get (subs (conns (sw s) c)) n \<noteq> Some ch"
  using moment_okD(5) [OF inv, of c] pc by (simp add: phase_ok_def)

subsection \<open>Sections of a sweep\<close>

lemma members_sweeper:
  assumes inv: "moment_ok s"
    and own: "sweeper_ok (s\<lparr>wk := (wk s)(i := p)\<rparr>) i" "\<And>ch. wk s i \<noteq> WRemoved ch"
    and alone: "\<And>ch. holds p ch \<Longrightarrow> \<not> locked s ch"
  shows "moment_ok (s\<lparr>wk := (wk s)(i := p)\<rparr>)" (is "moment_ok ?s")
proof (rule moment_okI)
  have "wk s j = WRemoved ch \<Longrightarrow> wk ?s j = WRemoved ch" for j ch using own(2) [of ch] by auto
  then have order: "in_order s ch \<Longrightarrow> in_order ?s ch" for ch by (rule in_order_keep) simp_all
  fix d show "phase_ok ?s d"
    by (rule phase_ok_keep [OF moment_okD(5) [OF inv, of d]]) (use order in \<open>simp_all add: named_def\<close>)
next
  fix j show "sweeper_ok ?s j"
    using own(1) by (cases "j = i") (auto intro: sweeper_ok_keep [OF moment_okD(6) [OF inv, of j]])
next
  fix j k ch assume "holds (wk ?s j) ch" "holds (wk ?s k) ch"
  then show "j = k" using alone [of ch] moment_okD(7) [OF inv, of j ch k] by (auto simp: locked_def split: if_splits)
qed (use moment_okD(1-4) [OF inv] in \<open>simp_all add: named_def\<close>)

lemma members_sweep_remove:
  assumes inv: "moment_ok s" and pc: "wk s i = WLocked ch"
    and cad: "reg_CompareAndDelete (Name (chans (sw s) ! ch)) ch (reg (sw s)) = (b, r)"
  shows "moment_ok (s\<lparr>sw := (sw s)\<lparr>reg := r\<rparr>, wk := (wk s)(i := WRemoved ch)\<rparr>)" (is "moment_ok ?s")
proof -
  have ch: "ch < length (chans (sw s))" "Subscribers (chans (sw s) ! ch) = []"
    using moment_okD(6) [OF inv, of i] pc by (simp_all add: sweeper_ok_def)
  note C = cad_wf [OF moment_okD(1) [OF inv] ch(2) cad]
  have order: "in_order ?s d" if "in_order s d" for d
  proof (cases "d = ch")
    case True
    then have "wk ?s i = WRemoved d" by simp
    then show ?thesis unfolding in_order_def by blast
  next
    case False
    have "wk s j = WRemoved d \<Longrightarrow> wk ?s j = WRemoved d" for j using pc by auto
    then show ?thesis by (rule in_order_keep [OF _ that]) (use False in \<open>simp_all add: C(2)\<close>)
  qed
  have held: "holds (wk ?s j) d = holds (wk s j) d" for j d using pc by simp
  show ?thesis
  proof (rule moment_okI)
    fix d show "phase_ok ?s d"
      by (rule phase_ok_keep [OF moment_okD(5) [OF inv, of d]]) (use order in \<open>simp_all add: named_def\<close>)
  next
    fix j show "sweeper_ok ?s j"
    proof (cases "j = i")
      case True
      then show ?thesis using ch by (simp add: sweeper_ok_def C(2))
    next
      case False
      then show ?thesis by (intro sweeper_ok_keep [OF moment_okD(6) [OF inv, of j]]) (simp_all add: C(2))
    qed
  next
    fix j k d assume "holds (wk ?s j) d" "holds (wk ?s k) d"
    then show "j = k"
      unfolding held by (rule moment_okD(7) [OF inv])
  qed (use C(1) moment_okD(2-4) [OF inv] in \<open>simp_all add: named_def\<close>)
qed

lemma members_sweep_mark:
  assumes inv: "moment_ok s" and pc: "wk s i = WRemoved ch"
  shows "moment_ok (s\<lparr>sw := (sw s)\<lparr>chans := (chans (sw s))[ch := (chans (sw s) ! ch)\<lparr>Deleted := True\<rparr>]\<rparr>, wk := (wk s)(i := WIdle)\<rparr>)"
    (is "moment_ok ?s")
proof -
  have ch: "ch < length (chans (sw s))" "Subscribers (chans (sw s) ! ch) = []" "reg_abs (reg (sw s)) (Name (chans (sw s) ! ch)) \<noteq> Some ch"
    using moment_okD(6) [OF inv, of i] pc by (simp_all add: sweeper_ok_def)
  have nth: "chans (sw ?s) ! d = (if d = ch then (chans (sw s) ! ch)\<lparr>Deleted := True\<rparr> else chans (sw s) ! d)" for d
    using ch(1) by (simp add: nth_list_update)
  have same: "Name (chans (sw ?s) ! d) = Name (chans (sw s) ! d)" "Subscribers (chans (sw ?s) ! d) = Subscribers (chans (sw s) ! d)"
    "length (chans (sw ?s)) = length (chans (sw s))" "reg (sw ?s) = reg (sw s)" "conns (sw ?s) = conns (sw s)" "ph ?s = ph s" for d
    unfolding nth by simp_all
  have subs: "Subscribers ((chans (sw s))[ch := (chans (sw s) ! ch)\<lparr>Deleted := True\<rparr>] ! d) = Subscribers (chans (sw s) ! d)" for d
    using same(2) by simp
  have named: "named ?s d n = named s d n" for d n unfolding named_def same ..
  have order: "in_order ?s d" if "in_order s d" for d
  proof (cases "d = ch")
    case True
    then have "Deleted (chans (sw ?s) ! d)" unfolding nth by simp
    then show ?thesis unfolding in_order_def by blast
  next
    case False
    have "wk s j = WRemoved d \<Longrightarrow> wk ?s j = WRemoved d" for j using False pc by auto
    then show ?thesis by (rule in_order_keep [OF _ that]) (use False in \<open>simp_all only: same nth if_False\<close>)
  qed
  show ?thesis
  proof (rule moment_okI)
    show "chans_wf (reg (sw ?s), chans (sw ?s))" using mark_wf [OF moment_okD(1) [OF inv] ch(1,3)] by simp
  next
    fix d show "phase_ok ?s d"
      by (rule phase_ok_keep [OF moment_okD(5) [OF inv, of d]]) (use order named in \<open>simp_all add: subs\<close>)
  next
    fix j show "sweeper_ok ?s j"
    proof (cases "j = i")
      case False
      then show ?thesis by (intro sweeper_ok_keep [OF moment_okD(6) [OF inv, of j]]) (simp_all only: same, simp_all)
    qed (simp add: sweeper_ok_def)
  next
    fix j k d assume "holds (wk ?s j) d" "holds (wk ?s k) d"
    then show "j = k" using moment_okD(7) [OF inv, of j d k] by (auto split: if_splits)
  qed (unfold same named, (fact moment_okD(2-4) [OF inv])+)
qed

subsection \<open>All steps\<close>

lemma members_run: "moment_ok s \<Longrightarrow> reg w = reg (sw s) \<Longrightarrow> chans w = chans (sw s) \<Longrightarrow>
    (\<And>c. subs (conns w c) = subs (conns (sw s) c) \<and> maxChannels (conns w c) = maxChannels (conns (sw s) c)) \<Longrightarrow>
    moment_ok (s\<lparr>sw := w\<rparr>)"
proof (rule moment_okI)
  assume inv: "moment_ok s" and same: "reg w = reg (sw s)" "chans w = chans (sw s)"
    "\<And>c. subs (conns w c) = subs (conns (sw s) c) \<and> maxChannels (conns w c) = maxChannels (conns (sw s) c)"
  fix d show "phase_ok (s\<lparr>sw := w\<rparr>) d"
    by (rule phase_ok_keep [OF moment_okD(5) [OF inv, of d]])
      (use same(3) [of d] in \<open>simp_all add: same(1,2) named_def in_order_def\<close>)
next
  assume inv: "moment_ok s" and same: "reg w = reg (sw s)" "chans w = chans (sw s)"
  fix i show "sweeper_ok (s\<lparr>sw := w\<rparr>) i"
    by (rule sweeper_ok_keep [OF moment_okD(6) [OF inv, of i]]) (simp_all add: same)
next
  assume inv: "moment_ok s" and same: "reg w = reg (sw s)" "chans w = chans (sw s)"
    "\<And>c. subs (conns w c) = subs (conns (sw s) c) \<and> maxChannels (conns w c) = maxChannels (conns (sw s) c)"
  fix c n ch assume "gm_get (subs (conns (sw (s\<lparr>sw := w\<rparr>)) c)) n = Some ch"
  then show "named (s\<lparr>sw := w\<rparr>) ch n \<and> c \<in> set (Subscribers (chans (sw (s\<lparr>sw := w\<rparr>)) ! ch))"
    using moment_okD(3) [OF inv, of c n ch] by (simp add: same named_def)
qed (simp_all add: moment_okD)

text \<open>What no effect touches.\<close>

definition quiet_run :: "'l world \<Rightarrow> 'l world \<Rightarrow> bool" where
  "quiet_run w w' \<longleftrightarrow> reg w' = reg w \<and> chans w' = chans w \<and> hconns (hubst w') = hconns (hubst w) \<and>
    count_list (mcalls (mets w')) Connections_Inc = count_list (mcalls (mets w)) Connections_Inc \<and>
    count_list (mcalls (mets w')) Connections_Dec = count_list (mcalls (mets w)) Connections_Dec \<and>
    (\<forall>c. subs (conns w' c) = subs (conns w c) \<and> maxChannels (conns w' c) = maxChannels (conns w c) \<and>
      (length (send (conns w c)) \<le> sendChanSize \<longrightarrow> length (send (conns w' c)) \<le> sendChanSize))"

lemma frame_quiet_run: "frame w w' \<Longrightarrow> quiet_run w w'"
  by (simp add: frame_def calm_def quiet_run_def)

lemma queue_run_bound: "length q \<le> sendChanSize \<Longrightarrow> length (fold queue_run g q) \<le> sendChanSize"
proof (induction g arbitrary: q)
  case (Cons a g)
  have "length (queue_run a q) \<le> sendChanSize" using Cons.prems by (cases a) (simp_all add: try_send_def)
  with Cons.IH show ?case by simp
qed simp

lemma effect_quiet:
  assumes "free_effect ef"
  shows "quiet_run w (run_effect ef w)"
proof (cases ef)
  case (Sends c b g1 g2)
  show ?thesis unfolding Sends run_effect.simps
    by (intro frame_quiet_run frame_Send_gaps conjI queue_run_bound)
next
  case (Writes ev c)
  show ?thesis unfolding Writes run_effect.simps by (rule frame_quiet_run) (rule frame_writePump)
next
  case (Replies c b)
  show ?thesis unfolding Replies run_effect.simps by (rule frame_quiet_run) (rule frame_reply)
next
  case (Calls c a)
  show ?thesis unfolding Calls run_effect.simps by (rule frame_quiet_run) (rule frame_ws_call)
next
  case (Cancels c)
  show ?thesis unfolding Cancels run_effect.simps by (rule frame_quiet_run) (rule frame_cancel)
qed (use assms in \<open>simp_all add: quiet_run_def hub_CloseKey_def drain_mark_def Let_def\<close>)

lemma lookup_named:
  assumes "moment_ok s" "reg_Lookup (reg (sw s)) n = Some ch"
  shows "named s ch n" "in_order s ch" "ch < length (chans (sw s))"
proof -
  note wf = moment_okD(1) [OF assms(1)]
  have r: "reg_abs (reg (sw s)) n = Some ch" using assms(2) by (simp add: rg.lookup_abs chans_wf_ok [OF wf])
  with chans_wf_registered [OF wf r] show "named s ch n" "in_order s ch" "ch < length (chans (sw s))"
    by (simp_all add: named_def in_order_def)
qed

lemma step_moment: "sec_step ops s s' \<Longrightarrow> moment_ok s \<Longrightarrow> moment_ok s'"
proof (induction rule: sec_step.induct)
  case (effects ef s)
  then show ?case using effect_quiet [of ef "sw s"] by (intro members_run) (simp_all add: quiet_run_def)
next
  case (enter s c p nc sid key)
  then have "subs (conns (sw s) c) = []" using moment_okD(5) [of s c] by (auto simp: phase_ok_def)
  with enter show ?case by (intro members_phase) (auto simp: phase_ok_def new_conn_def)
next
  case (add s c w')
  then have "subs (conns (sw s) c) = []" using moment_okD(5) [of s c] by (simp add: phase_ok_def)
  with add show ?case by (intro members_phase) (auto simp: phase_ok_def split: prod.splits)
next
  case (refuse s c ce w')
  then have "subs (conns (sw s) c) = []" using moment_okD(5) [of s c] by (simp add: phase_ok_def)
  with refuse show ?case by (intro members_phase) (auto simp: phase_ok_def split: prod.splits)
next
  case (close_refused s c code reason)
  then have "subs (conns (sw s) c) = []" using moment_okD(5) [of s c] by (simp add: phase_ok_def)
  with close_refused show ?case by (intro members_phase) (auto simp: phase_ok_def Conn_CloseFrame_def ws_call_def)
next
  case (hello s c w')
  then have "subs (conns (sw s) c) = []" using moment_okD(5) [of s c] by (simp add: phase_ok_def)
  with hello show ?case by (intro members_phase) (auto simp: phase_ok_def ws_call_def split: prod.splits bool.splits)
next
  case (hello_full s c w')
  then have "subs (conns (sw s) c) = []" using moment_okD(5) [of s c] by (simp add: phase_ok_def)
  with hello_full show ?case by (intro members_phase) (auto simp: phase_ok_def ws_call_def split: prod.splits bool.splits)
next
  case (try_join s c n)
  then show ?case by (intro members_phase) (simp_all add: phase_ok_def may_join_def)
next
  case (lookup_hit s c n i ch)
  then have "may_join s c n" using moment_okD(5) [of s c] by (simp add: phase_ok_def)
  with lookup_hit lookup_named [of s n ch] show ?case
    by (intro members_phase) (simp_all add: phase_ok_def may_join_def named_def in_order_def)
next
  case (lookup_miss s c n i)
  then have "may_join s c n" using moment_okD(5) [of s c] by (simp add: phase_ok_def)
  with lookup_miss show ?case by (intro members_phase) (simp_all add: phase_ok_def may_join_def)
next
  case (store s c n i ch r h)
  let ?s = "s\<lparr>sw := (sw s)\<lparr>reg := r, chans := h\<rparr>\<rparr>"
  note st = members_store [OF store(3,2) refl]
  have "may_join s c n" using store moment_okD(5) [of s c] by (simp add: phase_ok_def)
  with store(1) st(2,3) have "moment_ok (to ?s c (PGot n i ch) (sw ?s))"
    by (intro members_phase [OF st(1)]) (simp_all add: phase_ok_def may_join_def named_def in_order_def)
  then show ?case by simp
next
  case (join_channel s c n i ch err h)
  then show ?case by (intro members_join)
next
  case (join_own s c n ch)
  then show ?case by (intro members_join_own)
next
  case (leave_own s c n ch)
  then show ?case by (intro members_leave_own)
next
  case (leave_chan s c ch)
  then show ?case using PLeft_gone [of s c ch] by (intro members_leave) auto
next
  case (stop s c)
  then show ?case by (intro members_phase) (simp_all add: phase_ok_def)
next
  case (close s c)
  then show ?case by (intro members_phase) (auto simp: phase_ok_def)
next
  case (clear s c)
  then show ?case by (intro members_clear)
next
  case (leave_next s c ch chs)
  then have "subs (conns (sw s) c) = []" using moment_okD(5) [of s c] by (simp add: phase_ok_def)
  with leave_next show ?case by (intro members_leave) auto
next
  case (remove s c)
  then have "subs (conns (sw s) c) = []" using moment_okD(5) [of s c] by (simp add: phase_ok_def)
  with remove show ?case by (intro members_phase) (auto simp: phase_ok_def)
next
  case (uncount s c)
  then have "subs (conns (sw s) c) = []" using moment_okD(5) [of s c] by (simp add: phase_ok_def)
  with uncount show ?case by (intro members_phase) (auto simp: phase_ok_def)
next
  case (stats_store s ch r h)
  then show ?case using members_store(1) by blast
next
  case (sweep_copy s i n ch)
  then show ?case using lookup_named(3) [of s n ch] by (intro members_sweeper) (simp_all add: sweeper_ok_def)
next
  case (sweep_busy s i ch)
  then show ?case by (intro members_sweeper) (simp_all add: sweeper_ok_def)
next
  case (sweep_lock s i ch)
  then have "ch < length (chans (sw s))" using moment_okD(6) [of s i] by (simp add: sweeper_ok_def)
  with sweep_lock show ?case by (intro members_sweeper) (simp_all add: sweeper_ok_def)
next
  case (sweep_remove s i ch b r)
  then show ?case using members_sweep_remove by blast
next
  case (sweep_mark s i ch)
  then show ?case using members_sweep_mark by blast
qed

subsection \<open>Limits and counts\<close>

definition limits_ok :: "'l sections \<Rightarrow> bool" where
  "limits_ok s \<longleftrightarrow>
    (\<forall>c. length (send (conns (sw s) c)) \<le> sendChanSize \<and> length (subs (conns (sw s) c)) \<le> defaultMaxChannelsPerConn \<and>
      maxChannels (conns (sw s) c) = defaultMaxChannelsPerConn) \<and>
    capped (chans (sw s)) \<and>
    distinct (hconns (hubst (sw s))) \<and> set (hconns (hubst (sw s))) = {c. in_hub (ph s c)} \<and>
    finite {c. counted (ph s c)} \<and>
    count_list (mcalls (mets (sw s))) Connections_Inc =
      count_list (mcalls (mets (sw s))) Connections_Dec + card {c. counted (ph s c)}"

text \<open>The part of it that concerns one connection's queue and map, and the rest.\<close>

definition room :: "'l conn \<Rightarrow> bool" where
  "room k \<longleftrightarrow> length (send k) \<le> sendChanSize \<and> length (subs k) \<le> defaultMaxChannelsPerConn \<and>
    maxChannels k = defaultMaxChannelsPerConn"

text \<open>A section of one connection that neither enters nor leaves the hub, nor the count.\<close>

lemma same_set: "P (f c) = P p \<Longrightarrow> {d. P ((f(c := p)) d)} = {d. P (f d)}"
  by auto

lemma limits_to:
  assumes lim: "limits_ok s" and "counted p = counted (ph s c)" "in_hub p = in_hub (ph s c)"
    and "hubst w = hubst (sw s)" "mets w = mets (sw s)" "capped (chans w)"
    and "\<And>d. d \<noteq> c \<Longrightarrow> conns w d = conns (sw s) d" "room (conns w c)"
  shows "limits_ok (to s c p w)"
proof -
  have "room (conns w d)" for d using lim assms(7) [of d] assms(8) by (cases "d = c") (auto simp: limits_ok_def room_def)
  then show ?thesis
    using lim assms(2-6) same_set [where P = counted and f = "ph s" and c = c and p = p] same_set [where P = in_hub and f = "ph s" and c = c and p = p] unfolding limits_ok_def room_def by simp
qed

lemma limits_room: "limits_ok s \<Longrightarrow> room (conns (sw s) c)"
  by (simp add: limits_ok_def room_def)

lemma limits_capped: "limits_ok s \<Longrightarrow> capped (chans (sw s))"
  by (simp add: limits_ok_def)

lemma capped_update:
  "capped h \<Longrightarrow> length (Subscribers x) \<le> defaultMaxSubsPerChannel \<Longrightarrow> capped (h[ch := x])"
  by (cases "ch < length h") (auto simp: capped_def nth_list_update)

lemma capped_slow:
  assumes "chans_wf (r, h)" "reg_slow n (r, h) = (ch, r', h')" "capped h"
  shows "capped h'"
proof -
  from slow_wf [OF assms(1,2)] obtain g where g: "h' = h @ g" "\<forall>x \<in> set g. Subscribers x = []" by blast
  show ?thesis using assms(3) g(2) nth_mem [of _ g] by (auto simp: g(1) capped_def nth_append)
qed

lemma capped_Subscribe:
  assumes "hub_Subscribe ch c defaultMaxSubsPerChannel h = (err, h')" "capped h"
  shows "capped h'"
proof (cases rule: Subscribe_cases [of h ch c defaultMaxSubsPerChannel])
  case 3
  then show ?thesis using assms by (auto intro!: capped_update)
qed (use assms in auto)

lemma step_limits:
  assumes "sec_step ops s s'" "moment_ok s" "limits_ok s"
  shows "limits_ok s'"
  using assms
proof (induction rule: sec_step.induct)
  case (effects ef s)
  then show ?case using effect_quiet [of ef "sw s"] unfolding limits_ok_def quiet_run_def by simp
next
  case (enter s c p nc sid key)
  have c: "{d. counted (((ph s)(c := PCounted)) d)} = insert c {d. counted (ph s d)}" "\<not> counted (ph s c)"
    "{d. in_hub (((ph s)(c := PCounted)) d)} = {d. in_hub (ph s d)}"
    using enter(1) by auto
  show ?case using enter(3) c by (simp add: limits_ok_def new_conn_def)
next
  case (add s c w')
  then obtain h where h: "hub_Add (APIKeyID (sw s)) c (hubst (sw s)) = (None, h)" "w' = (sw s)\<lparr>hubst := h\<rparr>"
    by (auto split: prod.splits)
  have "{d. counted (((ph s)(c := PAdded)) d)} = {d. counted (ph s d)}" using add(1) by auto
  moreover have "{d. in_hub (((ph s)(c := PAdded)) d)} = insert c {d. in_hub (ph s d)}" by auto
  moreover have "h = (hubst (sw s))\<lparr>hconns := set_add c (hconns (hubst (sw s)))\<rparr>"
    using h(1) by (cases rule: hub_Add_cases [of "hubst (sw s)" "APIKeyID (sw s)" c]) auto
  ultimately show ?case using add(4) h(2) by (auto simp: limits_ok_def)
next
  case (refuse s c ce w')
  then obtain h where h: "hub_Add (APIKeyID (sw s)) c (hubst (sw s)) = (Some ce, h)" "w' = (sw s)\<lparr>hubst := h\<rparr>"
    by (auto split: prod.splits)
  have "h = hubst (sw s)"
    using h(1) by (cases rule: hub_Add_cases [of "hubst (sw s)" "APIKeyID (sw s)" c]) auto
  then show ?case using refuse(1,4) h(2) by (intro limits_to) (simp_all add: limits_capped limits_room)
next
  case (close_refused s c code reason)
  then show ?case using limits_room [of s c]
    by (intro limits_to) (simp_all add: Conn_CloseFrame_def ws_call_def limits_capped room_def)
next
  case (hello s c w')
  then show ?case using limits_room [of s c]
    by (intro limits_to) (auto simp: ws_call_def limits_capped room_def try_send_def split: prod.splits bool.splits if_splits)
next
  case (hello_full s c w')
  then show ?case using limits_room [of s c]
    by (intro limits_to) (auto simp: ws_call_def limits_capped room_def try_send_def split: prod.splits bool.splits if_splits)
next
  case (store s c n i ch r h)
  then show ?case using limits_room [of s c] capped_slow [OF moment_okD(1) [OF store(3)] store(2)]
    by (intro limits_to) (simp_all add: limits_capped)
next
  case (join_channel s c n i ch err h)
  have "counted (after_join n i ch err)" "in_hub (after_join n i ch err)"
    by (cases err; cases "the err"; simp)+
  with join_channel show ?case using limits_room [of s c] capped_Subscribe [OF join_channel(3)]
    by (intro limits_to) (simp_all add: limits_capped)
next
  case (join_own s c n ch)
  then have "may_join s c n" using moment_okD(5) [of s c] by (simp add: phase_ok_def)
  with join_own show ?case using limits_room [of s c]
    by (intro limits_to) (auto simp: limits_capped room_def may_join_def gm_length_put)
next
  case (leave_own s c n ch)
  then show ?case using limits_room [of s c]
    by (intro limits_to) (auto simp: limits_capped room_def intro: le_trans [OF gm_length_del_le])
next
  case (leave_chan s c ch)
  then show ?case using limits_room [of s c]
    by (intro limits_to) (simp_all add: limits_capped capped_Unsubscribe)
next
  case (close s c)
  then show ?case using limits_room [of s c] by (intro limits_to) (simp_all add: limits_capped room_def)
next
  case (clear s c)
  then show ?case using limits_room [of s c] by (intro limits_to) (simp_all add: limits_capped room_def)
next
  case (leave_next s c ch chs)
  then show ?case using limits_room [of s c]
    by (intro limits_to) (simp_all add: limits_capped capped_Unsubscribe)
next
  case (remove s c)
  have "{d. counted (((ph s)(c := PRemoved)) d)} = {d. counted (ph s d)}" using remove(1) by auto
  moreover have "{d. in_hub (((ph s)(c := PRemoved)) d)} = {d. in_hub (ph s d)} - {c}" by auto
  ultimately show ?case using remove(3) by (auto simp: limits_ok_def hub_Remove_def)
next
  case (uncount s c)
  have c: "{d. counted (ph s d)} = insert c {d. counted (((ph s)(c := PDone)) d)}" using uncount(1) by auto
  have "{d. in_hub (((ph s)(c := PDone)) d)} = {d. in_hub (ph s d)}" using uncount(1) by auto
  moreover have "finite {d. counted (((ph s)(c := PDone)) d)}" using uncount(3) by (auto simp: limits_ok_def c)
  ultimately show ?case using uncount(3) unfolding limits_ok_def c by (simp add: card_insert_if)
next
  case (stats_store s ch r h)
  then show ?case using capped_slow [OF moment_okD(1) [OF stats_store(2)] stats_store(1)] by (simp add: limits_ok_def)
next
  case (sweep_mark s i ch)
  have "capped ((chans (sw s))[ch := (chans (sw s) ! ch)\<lparr>Deleted := True\<rparr>])"
    using limits_capped [OF sweep_mark(3)] by (cases "ch < length (chans (sw s))") (auto simp: capped_def nth_list_update)
  with sweep_mark(3) show ?case by (simp add: limits_ok_def)
next
  case (try_join s c n)
  then show ?case by (intro limits_to) (simp_all add: limits_capped limits_room)
next
  case (lookup_hit s c n i ch)
  then show ?case by (intro limits_to) (simp_all add: limits_capped limits_room)
next
  case (lookup_miss s c n i)
  then show ?case by (intro limits_to) (simp_all add: limits_capped limits_room)
next
  case (stop s c)
  then show ?case by (intro limits_to) (simp_all add: limits_capped limits_room)
qed (simp_all add: limits_ok_def)

lemma sec_reach_ok: "sec_reach ops s \<Longrightarrow> moment_ok s \<and> limits_ok s"
proof (induction rule: sec_reach.induct)
  case (init r m f secret rl)
  have "chans_wf (r, [])" using init chans_wf_init by auto
  then have "moment_ok \<lparr>sw = (world_init ops r f secret rl)\<lparr>mets := m\<rparr>, ph = \<lambda>_. PNew, wk = \<lambda>_. WIdle\<rparr>"
    by (intro moment_okI) (simp_all add: world_init_def dead_conn_def new_conn_def phase_ok_def sweeper_ok_def)
  moreover have "limits_ok \<lparr>sw = (world_init ops r f secret rl)\<lparr>mets := m\<rparr>, ph = \<lambda>_. PNew, wk = \<lambda>_. WIdle\<rparr>"
    using init by (simp add: limits_ok_def world_init_def dead_conn_def new_conn_def capped_def hub_New_def)
  ultimately show ?case ..
next
  case (step s s')
  then show ?case using step_moment step_limits by blast
qed

subsection \<open>Properties\<close>

text \<open>
  C7: At every moment, between any two critical sections of any goroutines, the two views of the memberships
  agree up to the connections that are halfway. An entry of a connection's own map leads to the channel
  that is registered under that name, is not marked deleted and lists the connection, and only a
  connection whose pumps have run holds one. A channel that lists a connection is the registered one and is
  not marked deleted; the connection has it in its own map, or its goroutine is between the two sections: it
  has joined the channel and not yet recorded it, or taken it from its map and not yet left the channel.
\<close>

theorem memberships_every_moment:
  assumes "sec_reach ops s"
  shows "(gm_get (subs (conns (sw s) c)) n = Some ch \<longrightarrow>
      ch < length (chans (sw s)) \<and> Name (chans (sw s) ! ch) = n \<and> c \<in> set (Subscribers (chans (sw s) ! ch)) \<and>
      reg_Lookup (reg (sw s)) n = Some ch \<and> \<not> Deleted (chans (sw s) ! ch) \<and> has_subs (ph s c)) \<and>
    (ch < length (chans (sw s)) \<and> c \<in> set (Subscribers (chans (sw s) ! ch)) \<longrightarrow>
      reg_Lookup (reg (sw s)) (Name (chans (sw s) ! ch)) = Some ch \<and> \<not> Deleted (chans (sw s) ! ch) \<and>
      (gm_get (subs (conns (sw s) c)) (Name (chans (sw s) ! ch)) = Some ch \<or> halfway (ph s c) ch))"
proof -
  have inv: "moment_ok s" using sec_reach_ok [OF assms] by simp
  note wf = moment_okD(1) [OF inv]
  have listed: "reg_Lookup (reg (sw s)) (Name (chans (sw s) ! ch)) = Some ch \<and> \<not> Deleted (chans (sw s) ! ch)"
    if "ch < length (chans (sw s))" "c \<in> set (Subscribers (chans (sw s) ! ch))"
  proof -
    have r: "reg_abs (reg (sw s)) (Name (chans (sw s) ! ch)) = Some ch"
      using that(2) by (intro chans_wf_subscribed [OF wf that(1)]) auto
    with chans_wf_registered [OF wf r] show ?thesis by (simp add: rg.lookup_abs chans_wf_ok [OF wf])
  qed
  have "has_subs (ph s c)" if "gm_get (subs (conns (sw s) c)) n = Some ch"
    using that moment_okD(5) [OF inv, of c] by (auto simp: phase_ok_def)
  with listed moment_okD(3) [OF inv, of c n ch] moment_okD(4) [OF inv, of ch c] show ?thesis
    by (auto simp: named_def)
qed

text \<open>
  C8: At every moment, between any two critical sections, the limits hold and the counts differ only by the
  connections in a window of \<open>Run\<close>. No queue exceeds its capacity, no connection its channels, no channel
  its subscribers. The hub tracks, each once, exactly the connections that are between their \<open>Add\<close> and their
  \<open>Remove\<close>. The gauge (increments minus decrements) is the hub's length plus the connections that are
  counted and not yet added, refused and still in their close handshake, or removed and not yet uncounted.
\<close>

theorem limits_every_moment:
  assumes "sec_reach ops s"
  shows "length (send (conns (sw s) c)) \<le> sendChanSize \<and>
    length (subs (conns (sw s) c)) \<le> defaultMaxChannelsPerConn \<and>
    (i < length (chans (sw s)) \<longrightarrow> length (Subscribers (chans (sw s) ! i)) \<le> defaultMaxSubsPerChannel) \<and>
    distinct (hconns (hubst (sw s))) \<and> set (hconns (hubst (sw s))) = {d. in_hub (ph s d)} \<and>
    finite {d. ph s d = PCounted \<or> (\<exists>ce. ph s d = PRefused ce) \<or> ph s d = PRemoved} \<and>
    count_list (mcalls (mets (sw s))) Connections_Inc = count_list (mcalls (mets (sw s))) Connections_Dec +
      hub_Len (hubst (sw s)) + card {d. ph s d = PCounted \<or> (\<exists>ce. ph s d = PRefused ce) \<or> ph s d = PRemoved}"
proof -
  have lim: "limits_ok s" using sec_reach_ok [OF assms] by simp
  let ?W = "{d. ph s d = PCounted \<or> (\<exists>ce. ph s d = PRefused ce) \<or> ph s d = PRemoved}" and ?H = "{d. in_hub (ph s d)}"
  have "counted p \<longleftrightarrow> in_hub p \<or> p = PCounted \<or> (\<exists>ce. p = PRefused ce) \<or> p = PRemoved" for p by (cases p) auto
  then have all: "{d. counted (ph s d)} = ?H \<union> ?W" by auto
  have "finite ?H" "finite ?W" using lim unfolding limits_ok_def all by auto
  moreover have "?H \<inter> ?W = {}" by auto
  ultimately have "card (?H \<union> ?W) = card ?H + card ?W" by (rule card_Un_disjoint)
  moreover have "card ?H = hub_Len (hubst (sw s))"
    using lim unfolding limits_ok_def hub_Len_def by (metis distinct_card)
  ultimately show ?thesis using lim \<open>finite ?W\<close> unfolding limits_ok_def all capped_def by auto
qed

subsection \<open>A run\<close>

text \<open>Connection 1 is counted, tracked, greeted, and halfway through its first subscribe.\<close>

definition walk_new :: "unit sections" where
  "walk_new = \<lparr>sw = run_world, ph = (\<lambda>_. PNew), wk = (\<lambda>_. WIdle)\<rparr>"

definition walk_counted :: "unit sections" where
  "walk_counted = to walk_new 1 PCounted (Run_enter free_ops PolicyDisconnect False 1 ''s1'' ''k'' (sw walk_new))"

definition walk_idle :: "unit sections" where
  "walk_idle = to walk_counted 1 PIdle (snd (Run_hello 1 (snd (Run_add 1 (sw walk_counted)))))"

definition walk_got :: "unit sections" where
  "walk_got = (case reg_slow ''room'' (reg (sw walk_idle), chans (sw walk_idle)) of
     (ch, r, h) \<Rightarrow> to walk_idle 1 (PGot ''room'' 0 ch) ((sw walk_idle)\<lparr>reg := r, chans := h\<rparr>))"

definition walk_joined :: "unit sections" where
  "walk_joined = to walk_got 1 (PJoined ''room'' 0) ((sw walk_got)\<lparr>chans := snd (hub_Subscribe 0 1 defaultMaxSubsPerChannel (chans (sw walk_got)))\<rparr>)"

lemma walk_counted_reach: "sec_reach free_ops walk_counted"
proof -
  have "sec_reach free_ops walk_new"
    using sec_reach.init [of "ShardedReg NewSharded" "mets run_world" free_ops PerConn "''secret''" "Limiter_New 100 200 60"]
    by (simp add: walk_new_def run_world_def world_init_def)
  from sec_reach.step [OF this sec_step.enter [of walk_new 1 free_ops PolicyDisconnect False "''s1''" "''k''"]]
  show ?thesis unfolding walk_counted_def by (simp add: walk_new_def)
qed

lemma walk_phases:
  "ph walk_counted 1 = PCounted" "ph walk_idle 1 = PIdle" "ph walk_joined 1 = PJoined ''room'' 0" "wk walk_idle = (\<lambda>_. WIdle)"
  "wk walk_got = (\<lambda>_. WIdle)"
  by (simp_all add: walk_counted_def walk_idle_def walk_joined_def walk_got_def walk_new_def split: prod.split)

lemma walk_idle_reach: "sec_reach free_ops walk_idle"
proof -
  let ?w = "snd (Run_add 1 (sw walk_counted))"
  have "fst (Run_add 1 (sw walk_counted)) = None" "fst (Run_hello 1 ?w)" by code_simp+
  then have a: "Run_add 1 (sw walk_counted) = (None, ?w)" and h: "Run_hello 1 ?w = (True, snd (Run_hello 1 ?w))"
    by (metis prod.collapse)+
  have 1: "sec_reach free_ops (to walk_counted 1 PAdded ?w)"
    by (rule sec_reach.step [OF walk_counted_reach sec_step.add [OF walk_phases(1) a]])
  have "sec_reach free_ops (to (to walk_counted 1 PAdded ?w) 1 PIdle (snd (Run_hello 1 ?w)))"
    by (rule sec_reach.step [OF 1 sec_step.hello]) (use h in \<open>simp_all del: Run_hello_def Run_add_def One_nat_def\<close>)
  then show ?thesis by (simp add: walk_idle_def del: Run_hello_def Run_add_def One_nat_def)
qed

lemma walk_got_reach: "sec_reach free_ops walk_got" "ph walk_got 1 = PGot ''room'' 0 0"
proof -
  let ?w = "sw walk_idle"
  let ?s1 = "to walk_idle 1 (PTry ''room'' 0) ?w"
  let ?s2 = "to ?s1 1 (PMiss ''room'' 0) (sw ?s1)"
  obtain ch r h where slow: "reg_slow ''room'' (reg ?w, chans ?w) = (ch, r, h)" by (metis prod_cases3)
  have "gm_get (subs (conns ?w 1)) ''room'' = None" "\<not> at_channel_limit (conns ?w 1)"
    "reg_Lookup (reg ?w) ''room'' = None" "fst (reg_slow ''room'' (reg ?w, chans ?w)) = 0" by code_simp+
  note w = this
  have 1: "sec_reach free_ops ?s1" by (rule sec_reach.step [OF walk_idle_reach sec_step.try_join [OF walk_phases(2) w(1,2)]])
  have 2: "sec_reach free_ops ?s2" by (rule sec_reach.step [OF 1 sec_step.lookup_miss]) (use w(3) in simp_all)
  have "sec_reach free_ops (to ?s2 1 (PGot ''room'' 0 ch) ((sw ?s2)\<lparr>reg := r, chans := h\<rparr>))"
    by (rule sec_reach.step [OF 2 sec_step.store]) (use slow in simp_all)
  moreover have "ch = 0" using w(4) slow by simp
  ultimately show "sec_reach free_ops walk_got" "ph walk_got 1 = PGot ''room'' 0 0"
    using slow by (simp_all add: walk_got_def del: One_nat_def)
qed

lemma walk_joined_reach: "sec_reach free_ops walk_joined"
proof -
  obtain err h where j: "hub_Subscribe 0 1 defaultMaxSubsPerChannel (chans (sw walk_got)) = (err, h)" by fastforce
  have "fst (hub_Subscribe 0 1 defaultMaxSubsPerChannel (chans (sw walk_got))) = None" by code_simp
  with j have "err = None" by simp
  have "\<not> locked walk_got 0" by (simp add: locked_def walk_phases)
  from sec_reach.step [OF walk_got_reach(1) sec_step.join_channel [OF walk_got_reach(2) this j]] \<open>err = None\<close>
  show ?thesis unfolding walk_joined_def by (simp add: j del: One_nat_def)
qed

theorem memberships_every_moment_witness:
  "gm_get (subs (conns (sw walk_joined) 1)) ''room'' = None \<and> 1 \<in> set (Subscribers (chans (sw walk_joined) ! 0)) \<and>
   reg_Lookup (reg (sw walk_joined)) ''room'' = Some 0 \<and> halfway (ph walk_joined 1) 0"
proof -
  have "gm_get (subs (conns (sw walk_idle) 1)) ''room'' = None" "chans (sw walk_got) = [fresh_channel ''room'']" by code_simp+
  then have w: "gm_get (subs (conns (sw walk_joined) 1)) ''room'' = None" "1 \<in> set (Subscribers (chans (sw walk_joined) ! 0))"
    "0 < length (chans (sw walk_joined))" "Name (chans (sw walk_joined) ! 0) = ''room''"
    by (simp_all add: walk_joined_def walk_got_def hub_Subscribe_def defaultMaxSubsPerChannel_def split: prod.splits)
  with memberships_every_moment [OF walk_joined_reach, of 1 "''room''" 0] show ?thesis by simp
qed

theorem limits_every_moment_witness:
  "count_list (mcalls (mets (sw walk_counted))) Connections_Inc = 1 \<and> hub_Len (hubst (sw walk_counted)) = 0 \<and>
   card {d. ph walk_counted d = PCounted \<or> (\<exists>ce. ph walk_counted d = PRefused ce) \<or> ph walk_counted d = PRemoved} = 1"
proof -
  have "count_list (mcalls (mets (sw walk_counted))) Connections_Inc = 1"
    "count_list (mcalls (mets (sw walk_counted))) Connections_Dec = 0" "hub_Len (hubst (sw walk_counted)) = 0" by code_simp+
  with limits_every_moment [OF walk_counted_reach, of 1 0] show ?thesis by simp
qed

end
