(* ===== verification/Section_Runs.thy ===== *)
theory Section_Runs
  imports Sections System_Wire
begin

text \<open>
  The whole functions of \<open>Conn\<close> (\<open>handle\<close>, \<open>Run_start\<close>, \<open>Run_finish\<close>) as runs of the sections of \<open>Sections\<close>:
  the effects between two sections are collected by \<open>eff_run\<close>, an instance of \<open>plain_steps\<close>.
\<close>

declare map_of_eq_Some_iff [simp del] Some_eq_map_of_iff [simp del]

subsection \<open>The handlers are runs of sections\<close>

definition eff_run :: "'l world \<Rightarrow> 'l world \<Rightarrow> bool" where
  "eff_run w w' \<longleftrightarrow> (\<exists>efs. (\<forall>ef \<in> set efs. free_effect ef) \<and> w' = fold run_effect efs w)"

lemma eff_one: "free_effect ef \<Longrightarrow> eff_run w (run_effect ef w)"
  unfolding eff_run_def by (rule exI [of _ "[ef]"]) simp

lemma eff_refl: "eff_run w w"
  unfolding eff_run_def by (rule exI [of _ "[]"]) simp

lemma eff_trans: "eff_run u v \<Longrightarrow> eff_run v w \<Longrightarrow> eff_run u w"
  unfolding eff_run_def by clarify (metis Un_iff comp_apply fold_append set_append)

lemma eff_deliver: "eff_run w (deliver c b w)"
  using eff_one [of "Sends c b [] []" w] by (simp add: Conn_Send_def)

interpretation ef: delivery deliver eff_run
  by unfold_locales (auto intro: eff_refl eff_deliver elim: eff_trans)

lemma eff_Broadcast: "eff_run w (world_Broadcast ch b w)"
proof -
  obtain f w' where b: "fan_Broadcast deliver (chans w) ch b (fan w, w) = (f, w')" by fastforce
  have "eff_run w w'" using ef.R_fan_Broadcast [of w "chans w" ch b "fan w"] b by simp
  then show ?thesis using b eff_trans [OF _ eff_one [of "SetFan f" w']] by (simp add: world_Broadcast_def)
qed

interpretation es: plain_steps eff_run
proof (unfold_locales)
  fix w :: "'a world" and c x l seen
  show "eff_run w (upd_conn c (\<lambda>k. k\<lparr>controlRate := x\<rparr>) w)" using eff_one [of "SetControlRate c x" w] by simp
  show "eff_run w (upd_conn c (\<lambda>k. k\<lparr>connRate := x\<rparr>) w)" using eff_one [of "SetConnRate c x" w] by simp
  show "eff_run w (w\<lparr>rlim := l\<rparr>)" using eff_one [of "SetLimiter l" w] by simp
  show "eff_run w (w\<lparr>cache := seen\<rparr>)" using eff_one [of "SetCache seen" w] by simp
next
  fix w :: "'a world" and c b
  show "eff_run w (reply c b w)" using eff_one [of "Replies c b" w] by simp
next
  fix w :: "'a world" and m assume "m \<notin> {Connections_Inc, Connections_Dec}"
  then show "eff_run w (count m w)" using eff_one [of "Counts m" w] by simp
qed (auto intro: eff_refl eff_Broadcast elim: eff_trans)

lemma eff_closes: "eff_run w (Conn_CloseFrame c code reason w)" "eff_run w (ws_call c a w)"
  "eff_run w (closeNetConn c w)" "eff_run w (cancel c w)"
  using eff_one [of "Calls c (WsClose code reason)" w] eff_one [of "Calls c a" w] eff_one [of "Calls c NetClose" w]
    eff_one [of "Cancels c" w]
  by (simp_all add: Conn_CloseFrame_def closeNetConn_def eff_refl)

text \<open>The state in which connection \<open>c\<close> is in phase \<open>p\<close> and the world is \<open>w\<close>.\<close>

definition at_phase :: "'l sections \<Rightarrow> cid \<Rightarrow> phase \<Rightarrow> 'l world \<Rightarrow> 'l sections" where
  "at_phase s c p w = to s c p w"

lemma at_phase_simps [simp]:
  "sw (at_phase s c p w) = w" "ph (at_phase s c p w) c = p" "wk (at_phase s c p w) = wk s"
  "locked (at_phase s c p w) ch = locked s ch"
  "(at_phase s c p w)\<lparr>ph := (ph (at_phase s c q v))(c := p')\<rparr> = at_phase s c p' w" "(at_phase s c p w)\<lparr>sw := w'\<rparr> = at_phase s c p w'"
  by (simp_all add: at_phase_def locked_def)

lemma at_phase_self: "ph s c = p \<Longrightarrow> at_phase s c p (sw s) = s"
  by (auto simp: at_phase_def)

abbreviation runs :: "'l rate_ops \<Rightarrow> 'l sections \<Rightarrow> cid \<Rightarrow> phase \<Rightarrow> 'l world \<Rightarrow> phase \<Rightarrow> 'l world \<Rightarrow> bool" where
  "runs ops s c p w p' w' \<equiv> (sec_step ops)\<^sup>*\<^sup>* (at_phase s c p w) (at_phase s c p' w')"

lemma runs_step: "sec_step ops (at_phase s c p w) (to (at_phase s c p w) c p' w') \<Longrightarrow> runs ops s c p w p' w'"
  by (rule r_into_rtranclp) simp

lemma runs_trans: "runs ops s c p u q v \<Longrightarrow> runs ops s c q v r w \<Longrightarrow> runs ops s c p u r w"
  by (rule rtranclp_trans)

lemma runs_eff:
  assumes "eff_run w w'"
  shows "runs ops s c p w p w'"
proof -
  from assms obtain efs where efs: "\<forall>ef \<in> set efs. free_effect ef" and w': "w' = fold run_effect efs w"
    by (auto simp: eff_run_def)
  have "runs ops s c p w p (fold run_effect efs w)" using efs
  proof (induction efs arbitrary: w)
    case (Cons ef efs)
    have "sec_step ops (at_phase s c p w) (at_phase s c p (run_effect ef w))"
      using sec_step.effects [of ef ops "at_phase s c p w"] Cons.prems by simp
    with Cons show ?case by (auto intro: converse_rtranclp_into_rtranclp)
  qed simp
  then show ?thesis by (simp add: w')
qed

lemma GetOrCreate_run:
  assumes "reg_GetOrCreate n (reg w, chans w) = (ch, r, h)"
  shows "runs ops s c (PTry n i) w (PGot n i ch) (w\<lparr>reg := r, chans := h\<rparr>)"
proof (cases "reg_Lookup (reg w) n")
  case (Some d)
  with assms have "d = ch" "r = reg w" "h = chans w" by (simp_all add: rg.get_or_create_eq)
  with Some runs_step [OF sec_step.lookup_hit [of "at_phase s c (PTry n i) w" c n i d]] show ?thesis by simp
next
  case None
  with assms have slow: "reg_slow n (reg w, chans w) = (ch, r, h)" by (simp add: rg.get_or_create_eq)
  have "runs ops s c (PTry n i) w (PMiss n i) w"
    using None runs_step [OF sec_step.lookup_miss [of "at_phase s c (PTry n i) w" c n i]] by simp
  moreover have "runs ops s c (PMiss n i) w (PGot n i ch) (w\<lparr>reg := r, chans := h\<rparr>)"
    using slow runs_step [OF sec_step.store [of "at_phase s c (PMiss n i) w" c n i ch r h]] by simp
  ultimately show ?thesis by (rule runs_trans)
qed

lemma loop_run:
  assumes "\<And>ch. \<not> locked s ch"
  shows "subscribe_loop k (\<lambda>_. id) n c res (reg w, chans w) = ((err, ch), r, h) \<Longrightarrow> 0 < k \<Longrightarrow> k \<le> maxSubscribeRetries \<Longrightarrow>
    runs ops s c (PTry n (maxSubscribeRetries - k)) w (if err = None then PJoined n ch else PIdle) (w\<lparr>reg := r, chans := h\<rparr>)"
proof (induction k arbitrary: res w)
  case (Suc k)
  let ?i = "maxSubscribeRetries - Suc k"
  obtain d r1 h1 where g: "reg_GetOrCreate n (reg w, chans w) = (d, r1, h1)" by (metis prod_cases3)
  obtain e h2 where j: "hub_Subscribe d c defaultMaxSubsPerChannel h1 = (e, h2)" by fastforce
  let ?w1 = "w\<lparr>reg := r1, chans := h1\<rparr>" and ?w2 = "w\<lparr>reg := r1, chans := h2\<rparr>"
  have got: "runs ops s c (PTry n ?i) w (PGot n ?i d) ?w1" by (rule GetOrCreate_run [OF g])
  have "runs ops s c (PGot n ?i d) ?w1 (after_join n ?i d e) ?w2"
    using j assms runs_step [OF sec_step.join_channel [of "at_phase s c (PGot n ?i d) ?w1" c n ?i d e h2]] by simp
  from runs_trans [OF got this] have joined: "runs ops s c (PTry n ?i) w (after_join n ?i d e) ?w2" .
  have i: "Suc ?i = maxSubscribeRetries - k" using Suc.prems(3) by simp
  show ?case
  proof (cases e)
    case None
    with Suc.prems(1) g j have "err = None" "ch = d" "r = r1" "h = h2" by simp_all
    with joined None show ?thesis by simp
  next
    case (Some x)
    show ?thesis
    proof (cases "x = ErrChannelDeleted \<and> 0 < k")
      case True
      with Suc.prems(1) g j Some have l: "subscribe_loop k (\<lambda>_. id) n c (e, d) (reg ?w2, chans ?w2) = ((err, ch), r, h)" by (simp add: id_def)
      have "after_join n ?i d e = PTry n (maxSubscribeRetries - k)" using True Some Suc.prems(3) by (simp add: i)
      with joined runs_trans [OF _ Suc.IH [OF l]] True Suc.prems(3) show ?thesis by simp
    next
      case False
      with Suc.prems(1) g j Some have "err = e" "r = r1" "h = h2" by (cases x; cases k; simp)+
      moreover have "after_join n ?i d e = PIdle" using False Some Suc.prems(3) i by (cases x) simp_all
      ultimately show ?thesis using joined Some by simp
    qed
  qed
qed simp


lemma handleSubscribe_run:
  assumes "\<And>ch. \<not> locked s ch"
  shows "runs ops s c PIdle w PIdle (handleSubscribe ops (\<lambda>_. id) e c msg w)"
proof -
  obtain ok w1 where a: "allowControl ops e c msg w = (ok, w1)" by fastforce
  have 1: "eff_run w w1" using es.R_allowControl [of w ops e c msg] a by simp
  obtain ok2 w2 where t: "checkToken e c msg w1 = (ok2, w2)" by fastforce
  have 2: "eff_run w w2" using eff_trans [OF 1] es.R_checkToken [of w1 e c msg] t by simp
  have join: "runs ops s c PIdle w2 PIdle (joinChannel (\<lambda>_. id) c msg w2)"
    if new: "gm_get (subs (conns w1 c)) (msg_Channel msg) = None"
  proof (cases "at_channel_limit (conns w2 c)")
    case True
    then show ?thesis using runs_eff [OF es.R_op_error] by (simp add: joinChannel_def)
  next
    case False
    let ?n = "msg_Channel msg"
    obtain err ch r h where l: "subscribe_loop maxSubscribeRetries (\<lambda>_. id) ?n c (None, 0) (reg w2, chans w2) = ((err, ch), r, h)"
      by (metis prod_cases3 prod.collapse)
    let ?w3 = "w2\<lparr>reg := r, chans := h\<rparr>"
    have "frame w1 w2" using frame_checkToken [of w1 e c msg] t by simp
    with new have new2: "gm_get (subs (conns w2 c)) ?n = None" by (simp add: frame_def)
    have start: "runs ops s c PIdle w2 (PTry ?n 0) w2"
      using False new2 runs_step [OF sec_step.try_join [of "at_phase s c PIdle w2" c ?n]] by simp
    have "runs ops s c (PTry ?n 0) w2 (if err = None then PJoined ?n ch else PIdle) ?w3"
      using loop_run [OF assms l] by (simp add: maxSubscribeRetries_def)
    from runs_trans [OF start this] have loop: "runs ops s c PIdle w2 (if err = None then PJoined ?n ch else PIdle) ?w3" .
    show ?thesis
    proof (cases err)
      case None
      have "runs ops s c (PJoined ?n ch) ?w3 PIdle (own_put ?n ch c ?w3)"
        using runs_step [OF sec_step.join_own [of "at_phase s c (PJoined ?n ch) ?w3" c ?n ch]] by simp
      moreover have "runs ops s c PIdle w2 (PJoined ?n ch) ?w3" using loop None by simp
      ultimately have "runs ops s c PIdle w2 PIdle (own_put ?n ch c ?w3)" by (rule runs_trans [rotated])
      from runs_trans [OF this runs_eff [OF es.R_ack]] None False l show ?thesis
        by (simp add: joinChannel_def)
    next
      case (Some x)
      with loop have "runs ops s c PIdle w2 PIdle ?w3" by simp
      from runs_trans [OF this runs_eff [OF es.R_op_error]] Some False l show ?thesis
        by (cases x) (simp_all add: joinChannel_def)
    qed
  qed
  show ?thesis
    using a t runs_eff [OF 1] runs_eff [OF 2] runs_trans [OF runs_eff [OF 2] join] runs_trans [OF runs_eff [OF 1] runs_eff [OF es.R_ack]]
    by (cases ok; cases ok2) (simp_all add: handleSubscribe_def runs_eff [OF es.R_op_error])
qed

lemma handleUnsubscribe_run:
  assumes "\<And>ch. \<not> locked s ch"
  shows "runs ops s c PIdle w PIdle (handleUnsubscribe ops e c msg w)"
proof -
  obtain ok w1 where a: "allowControl ops e c msg w = (ok, w1)" by fastforce
  have 1: "runs ops s c PIdle w PIdle w1" using es.R_allowControl [of w ops e c msg] a by (intro runs_eff) simp
  have leave: "runs ops s c PIdle w1 PIdle (leave_channel c ch (own_del (msg_Channel msg) c w1))"
    if own: "gm_get (subs (conns w1 c)) (msg_Channel msg) = Some ch" for ch
  proof (rule runs_trans)
    show "runs ops s c PIdle w1 (PLeft ch) (own_del (msg_Channel msg) c w1)"
      using own runs_step [OF sec_step.leave_own [of "at_phase s c PIdle w1" c "msg_Channel msg" ch]] by simp
    show "runs ops s c (PLeft ch) (own_del (msg_Channel msg) c w1) PIdle (leave_channel c ch (own_del (msg_Channel msg) c w1))"
      using assms runs_step [OF sec_step.leave_chan [of "at_phase s c (PLeft ch) (own_del (msg_Channel msg) c w1)" c ch]] by simp
  qed
  show ?thesis
    using a 1 runs_trans [OF 1 runs_eff [OF es.R_ack]] runs_trans [OF runs_trans [OF 1 leave] runs_eff [OF es.R_ack]]
    by (cases ok) (simp_all add: handleUnsubscribe_def split: option.split)
qed

lemma handle_run:
  assumes "\<And>ch. \<not> locked s ch"
  shows "runs ops s c PIdle w PIdle (handle ops (\<lambda>_. id) e c raw w)"
  by (simp add: handle_def handleSubscribe_run [OF assms] handleUnsubscribe_run [OF assms] runs_eff [OF es.R_handlePublish]
    runs_eff [OF es.R_error] runs_eff [OF es.R_op_error] split: option.split)

subsection \<open>\<open>Run\<close> is a run of sections\<close>

lemma leave_run: "runs ops s c PRemoved w PDone (Run_leave c w)"
  using runs_trans [OF runs_step [OF sec_step.uncount [of "at_phase s c PRemoved w" c]] runs_eff [OF eff_closes(4)]] by simp

lemma remove_run: "runs ops s c (PCleared []) w PDone (Run_leave c (Run_remove c w))"
  using runs_trans [OF runs_step [OF sec_step.remove [of "at_phase s c (PCleared []) w" c]] leave_run] by simp

lemma Run_start_run:
  assumes "Run_start ops p nc c sid key w = (ok, w')" "p0 = PNew \<or> p0 = PDone"
  shows "runs ops s c p0 w (if ok then PIdle else PDone) w'"
proof -
  let ?w1 = "Run_enter ops p nc c sid key w"
  have enter: "runs ops s c p0 w PCounted ?w1"
    using assms(2) runs_step [OF sec_step.enter [of "at_phase s c p0 w" c ops p nc sid key]] by simp
  show ?thesis
  proof (cases "Run_add c ?w1")
    case (Pair ce w2)
    show ?thesis
    proof (cases ce)
      case (Some x)
      obtain code reason where x: "x = (code, reason)" by fastforce
      have "runs ops s c PCounted ?w1 (PRefused x) w2"
        using Pair Some runs_step [OF sec_step.refuse [of "at_phase s c PCounted ?w1" c x w2]] by simp
      moreover have "runs ops s c (PRefused x) w2 PRemoved (Conn_CloseFrame c code reason w2)"
        using runs_step [OF sec_step.close_refused [of "at_phase s c (PRefused x) w2" c code reason]] by (simp add: x)
      ultimately have "runs ops s c p0 w PDone (Run_leave c (Conn_CloseFrame c code reason w2))"
        using runs_trans [OF runs_trans [OF runs_trans [OF enter]] leave_run] by blast
      with assms(1) Pair Some x show ?thesis by (simp add: Run_start_def del: Run_enter_def Run_add_def Run_leave_def)
    next
      case None
      have add: "runs ops s c PCounted ?w1 PAdded w2"
        using Pair None runs_step [OF sec_step.add [of "at_phase s c PCounted ?w1" c w2]] by simp
      note added = runs_trans [OF enter add]
      show ?thesis
      proof (cases "Run_hello c w2")
        case (Pair ok2 w3)
        note H = this
        show ?thesis
        proof (cases ok2)
          case True
          have "runs ops s c PAdded w2 PIdle w3"
            using H True runs_step [OF sec_step.hello [of "at_phase s c PAdded w2" c w3]] by simp
          from runs_trans [OF added this] assms(1) \<open>Run_add c ?w1 = (ce, w2)\<close> None H True show ?thesis
            by (simp add: Run_start_def del: Run_enter_def Run_add_def Run_hello_def Run_leave_def)
        next
          case False
          have "runs ops s c PAdded w2 (PCleared []) w3"
            using H False runs_step [OF sec_step.hello_full [of "at_phase s c PAdded w2" c w3]] by simp
          from runs_trans [OF runs_trans [OF added this] remove_run] assms(1) \<open>Run_add c ?w1 = (ce, w2)\<close> None H False show ?thesis
            by (simp add: Run_start_def del: Run_enter_def Run_add_def Run_hello_def Run_leave_def Run_remove_def)
        qed
      qed
    qed
  qed
qed

lemma leave_all_run:
  assumes "\<And>ch. \<not> locked s ch"
  shows "runs ops s c (PCleared chs) w (PCleared []) (leave_all c chs w)"
proof (induction chs arbitrary: w)
  case (Cons ch chs)
  have "runs ops s c (PCleared (ch # chs)) w (PCleared chs) (leave_channel c ch w)"
    using assms runs_step [OF sec_step.leave_next [of "at_phase s c (PCleared (ch # chs)) w" c ch chs]] by simp
  from runs_trans [OF this Cons] show ?case by (simp add: leave_all_def)
qed (simp add: leave_all_def)

lemma Run_finish_run:
  assumes "\<And>ch. \<not> locked s ch"
  shows "runs ops s c PIdle w PDone (Run_finish slow c w)"
proof -
  let ?w0 = "if slow then Conn_CloseFrame c StatusPolicyViolation ''slow consumer'' w else w"
  let ?w2 = "closeNetConn c (ws_call c WsCloseNow (cancel c ?w0))"
  let ?w3 = "Run_closed c ?w2"
  let ?chs = "map snd (subs (conns ?w3 c))"
  have "eff_run w ?w0" by (simp add: eff_closes eff_refl)
  then have "eff_run w ?w2" by (rule eff_trans [OF eff_trans [OF eff_trans]]) (rule eff_closes)+
  from runs_trans [OF runs_eff [OF this] runs_step [OF sec_step.stop [of "at_phase s c PIdle ?w2" c]]]
  have "runs ops s c PIdle w PStopped ?w2" by simp
  from runs_trans [OF this runs_step [OF sec_step.close [of "at_phase s c PStopped ?w2" c]]]
  have "runs ops s c PIdle w PClosed ?w3" by (simp del: Run_closed_def)
  from runs_trans [OF this runs_step [OF sec_step.clear [of "at_phase s c PClosed ?w3" c]]]
  have "runs ops s c PIdle w (PCleared ?chs) (own_clear c ?w3)" by (simp del: Run_closed_def own_clear_def)
  from runs_trans [OF runs_trans [OF this leave_all_run [OF assms]] remove_run]
  show ?thesis unfolding Run_finish_def Let_def .
qed

subsection \<open>Properties\<close>



end
