(* ===== verification/Conn_Timers.thy ===== *)
theory Conn_Timers
  imports System_Props
begin

text \<open>
  The timers of a connection (\<open>internal/conn/conn.go\<close>, \<open>pumps.go\<close>): the timeout over a close handshake,
  the write deadline, and the keepalive of the write pump. Times are nanoseconds. What the WebSocket
  library does is an argument: how long a call takes, within what its context allows.
\<close>

declare map_of_eq_Some_iff [simp del] Some_eq_map_of_iff [simp del]

definition writeDeadline :: int where "writeDeadline = 10 * 1000000000"
definition pingInterval :: int where "pingInterval = 30 * 1000000000"
definition pongWait :: int where "pongWait = 10 * 1000000000"
definition closeHandshakeTimeout :: int where "closeHandshakeTimeout = 15 * 1000000000"

lemmas timer_defs = writeDeadline_def pingInterval_def pongWait_def closeHandshakeTimeout_def

subsection \<open>The TCP connection under the WebSocket\<close>

datatype ctx_key = netConnKey | OtherKey string

type_synonym 'n ctx = "ctx_key \<rightharpoonup> 'n"

definition WithNetConn :: "'n ctx \<Rightarrow> 'n \<Rightarrow> 'n ctx" where
  "WithNetConn ctx nc = ctx(netConnKey \<mapsto> nc)"

definition ctx_netConn :: "'n ctx \<Rightarrow> bool" where
  "ctx_netConn ctx \<longleftrightarrow> ctx netConnKey \<noteq> None"

text \<open>\<open>Run\<close> on a request's context.\<close>

definition Run_ctx :: "'l rate_ops \<Rightarrow> policy \<Rightarrow> 'n ctx \<Rightarrow> cid \<Rightarrow> string \<Rightarrow> string \<Rightarrow> 'l world \<Rightarrow> bool \<times> 'l world" where
  "Run_ctx ops p ctx = Run_start ops p (ctx_netConn ctx)"

lemma Run_ctx_netConn: "netConn (conns (snd (Run_ctx ops p (WithNetConn ctx nc) c sid key w)) c)"
proof (cases rule: Run_start_cases [OF refl, of w c ops p True sid key])
  case (1 ce)
  then show ?thesis
    by (simp add: Run_ctx_def ctx_netConn_def WithNetConn_def cancel_def Conn_CloseFrame_def ws_call_def new_conn_def)
next
  case 2
  then show ?thesis by (simp add: Run_ctx_def ctx_netConn_def WithNetConn_def new_conn_def)
qed

subsection \<open>The close handshake\<close>

text \<open>
  \<open>ws_Close\<close> is the library's call: when it returns (\<open>None\<close> for never), as a function of when the TCP
  connection is closed under it (\<open>None\<close> when it is not). The timer closes the connection, when there is
  one, under a call that is still running. The first component is how long \<open>CloseFrame\<close> takes.
\<close>

definition CloseFrame_timed :: "(int option \<Rightarrow> int option) \<Rightarrow> cid \<Rightarrow> nat \<Rightarrow> string \<Rightarrow> 'l world \<Rightarrow> int option \<times> 'l world" where
  "CloseFrame_timed ws_Close c code reason w =
    (let w1 = Conn_CloseFrame c code reason w;
         fires = (case ws_Close None of None \<Rightarrow> True | Some d \<Rightarrow> closeHandshakeTimeout < d)
     in if fires then (ws_Close (if netConn (conns w1 c) then Some closeHandshakeTimeout else None), closeNetConn c w1)
        else (ws_Close None, w1))"

text \<open>
  What \<open>CloseFrame\<close> relies on: once the TCP connection is closed, the library fails the read or write it
  has in flight and returns within \<open>slack\<close>.
\<close>

definition fails_when_closed :: "int \<Rightarrow> (int option \<Rightarrow> int option) \<Rightarrow> bool" where
  "fails_when_closed slack ws_Close \<longleftrightarrow> (\<forall>t. \<exists>d. ws_Close (Some t) = Some d \<and> d \<le> t + slack)"

text \<open>
  A close handshake never holds a connection for good. When \<open>Run\<close> was given the TCP connection, and the
  library returns once that is closed, \<open>CloseFrame\<close> returns within fifteen seconds and the library's slack
  whatever the peer does, even if the handshake alone would never end; the TCP connection is closed exactly
  if the handshake was still running then. What \<open>CloseFrame\<close> does are transitions of the running server, so
  every invariant of the reachable states holds after it.
\<close>

theorem close_handshake_ends:
  assumes "netConn (conns w c)" "sys_reach ops w" "fails_when_closed slack ws_Close" "0 \<le> slack"
  shows "let (time, w') = CloseFrame_timed ws_Close c code reason w in
    (\<exists>d. time = Some d \<and> d \<le> closeHandshakeTimeout + slack) \<and>
    (NetClose \<in> set (drop (length (ws_log (conns w c))) (ws_log (conns w' c))) \<longleftrightarrow>
       ws_Close None = None \<or> (\<exists>d. ws_Close None = Some d \<and> closeHandshakeTimeout < d)) \<and>
    sys_reach ops w'"
proof -
  have r1: "sys_reach ops (Conn_CloseFrame c code reason w)"
    using sys_reach.step [OF assms(2) sys_step.close_conn [of ops w "CloseFrame c (code, reason)"]] by simp
  then have r2: "sys_reach ops (closeNetConn c (Conn_CloseFrame c code reason w))"
    by (rule sys_reach.step [OF _ sys_step.close_timer])
  have n: "netConn (conns (Conn_CloseFrame c code reason w) c)" using assms(1) by (simp add: Conn_CloseFrame_def ws_call_def)
  have l: "ws_log (conns (Conn_CloseFrame c code reason w) c) = ws_log (conns w c) @ [WsClose code reason]"
    "ws_log (conns (closeNetConn c (Conn_CloseFrame c code reason w)) c) = ws_log (conns w c) @ [WsClose code reason, NetClose]"
    using n by (simp_all add: Conn_CloseFrame_def closeNetConn_def ws_call_def)
  have e: "\<exists>d. ws_Close (Some closeHandshakeTimeout) = Some d \<and> d \<le> closeHandshakeTimeout + slack"
    using assms(3) by (auto simp: fails_when_closed_def)
  show ?thesis using r1 r2 n l e assms(4) by (auto simp: CloseFrame_timed_def Let_def split: option.split)
qed

text \<open>A connection upgraded from a request that carries its TCP connection; the peer never answers the close.\<close>

definition netconn_world :: "unit world" where
  "netconn_world = snd (Run_ctx free_ops PolicyDisconnect (WithNetConn Map.empty ()) 1 ''s1'' ''k'' run_world)"

definition stalled_Close :: "int option \<Rightarrow> int option" where
  "stalled_Close closed_at = map_option (\<lambda>t. t + 1) closed_at"

theorem close_handshake_ends_witness:
  "let (time, w') = CloseFrame_timed stalled_Close 1 1001 ''bye'' netconn_world in
     (\<exists>d. time = Some d \<and> d \<le> closeHandshakeTimeout + 1) \<and> sys_reach free_ops w'"
proof -
  have "sys_reach free_ops netconn_world" unfolding netconn_world_def Run_ctx_def
    by (rule sys_reach.step [OF run_world_reach sys_step.start]) (simp add: run_world_def world_init_def dead_conn_def new_conn_def)
  moreover have "netConn (conns netconn_world 1)" unfolding netconn_world_def by (rule Run_ctx_netConn)
  moreover have "fails_when_closed 1 stalled_Close" by (simp add: fails_when_closed_def stalled_Close_def)
  ultimately show ?thesis
    using close_handshake_ends [of netconn_world 1 free_ops 1 stalled_Close 1001 "''bye''"] by (auto simp: Let_def)
qed

subsection \<open>The write pump in time\<close>

text \<open>
  A turn of the pump is the case its \<open>select\<close> took, when it took it, and how long the call that
  followed lasted. The \<open>select\<close> never waits past the next firing of the ticker; a write and a ping end with
  their contexts. The ticker fires every \<open>pingInterval\<close>; a firing that is not taken before the next one is
  kept, later ones are dropped.
\<close>

record pump_clock =
  now_at :: int
  tick_at :: int

definition pump_started :: "int \<Rightarrow> pump_clock" where
  "pump_started t0 = \<lparr>now_at = t0, tick_at = t0 + pingInterval\<rparr>"

fun call_limit :: "write_event \<Rightarrow> int" where
  "call_limit CtxDone = 0"
| "call_limit (Message ok) = writeDeadline"
| "call_limit (Tick ok) = pongWait"

definition turn_ok :: "pump_clock \<Rightarrow> write_event \<times> int \<times> int \<Rightarrow> bool" where
  "turn_ok s = (\<lambda>(ev, t, d). now_at s \<le> t \<and> t \<le> max (now_at s) (tick_at s) \<and> 0 \<le> d \<and> d \<le> call_limit ev \<and>
     (ev \<in> {Tick True, Tick False} \<longrightarrow> tick_at s \<le> t))"

definition after_turn :: "pump_clock \<Rightarrow> write_event \<times> int \<times> int \<Rightarrow> pump_clock" where
  "after_turn s = (\<lambda>(ev, t, d). \<lparr>now_at = t + d, tick_at =
     (if ev \<in> {Tick True, Tick False} then tick_at s + pingInterval * ((t - tick_at s) div pingInterval + 1) else tick_at s)\<rparr>)"

text \<open>Whether the pump returns after the call, as \<open>writePump_step\<close> says.\<close>

fun pump_returns :: "write_event \<Rightarrow> bool" where
  "pump_returns CtxDone = True"
| "pump_returns (Message ok) = (\<not> ok)"
| "pump_returns (Tick ok) = (\<not> ok)"

lemma pump_returns_step: "send (conns w c) \<noteq> [] \<or> (\<forall>ok. ev \<noteq> Message ok) \<Longrightarrow> fst (writePump_step ev c w) = pump_returns ev"
  by (cases ev) (auto split: list.split)

text \<open>A run of the pump: whether it has returned, and its clock; \<open>None\<close> for a list of turns it cannot take.\<close>

fun timed_pump :: "pump_clock \<Rightarrow> (write_event \<times> int \<times> int) list \<Rightarrow> (bool \<times> pump_clock) option" where
  "timed_pump s [] = Some (False, s)"
| "timed_pump s (e # es) =
    (if \<not> turn_ok s e then None
     else if pump_returns (fst e) then (if es = [] then Some (True, after_turn s e) else None)
     else timed_pump (after_turn s e) es)"

lemma timed_pump_append:
  "timed_pump s es = Some (False, s') \<Longrightarrow> timed_pump s (es @ fs) = timed_pump s' fs"
  by (induction s es rule: timed_pump.induct) (auto split: if_splits)

text \<open>The writes still going on after the time \<open>T\<close>.\<close>

definition late_writes :: "int \<Rightarrow> (write_event \<times> int \<times> int) list \<Rightarrow> nat" where
  "late_writes T es = length (filter (\<lambda>(ev, t, d). (ev = Message True \<or> ev = Message False) \<and> T < t + d) es)"

definition unanswered :: "write_event \<times> int \<times> int \<Rightarrow> bool" where
  "unanswered e \<longleftrightarrow> fst e \<noteq> Tick True"

lemma write_turn:
  assumes "turn_ok s (Message ok, t, d)"
  shows "now_at (after_turn s (Message ok, t, d)) \<le> max (now_at s) (tick_at s) + (if tick_at s < t + d then writeDeadline else 0)"
    "tick_at (after_turn s (Message ok, t, d)) = tick_at s"
  using assms by (auto simp: turn_ok_def after_turn_def)

lemma dead_peer_time:
  assumes "timed_pump s es = Some (r, s')" "list_all unanswered es" "now_at s \<le> tick_at s + int k * writeDeadline"
  shows "now_at s' \<le> tick_at s + int (k + late_writes (tick_at s) es) * writeDeadline + (if r then pongWait else 0)"
    and "\<not> r \<Longrightarrow> tick_at s' = tick_at s"
proof -
  have "now_at s' \<le> tick_at s + int (k + late_writes (tick_at s) es) * writeDeadline + (if r then pongWait else 0) \<and>
      (\<not> r \<longrightarrow> tick_at s' = tick_at s)"
    using assms
  proof (induction s es arbitrary: k rule: timed_pump.induct)
    case (2 s e es)
    obtain ev t d where e: "e = (ev, t, d)" by (cases e)
    have ok: "turn_ok s e" using "2.prems"(1) by (simp split: if_splits)
    have top: "max (now_at s) (tick_at s) \<le> tick_at s + int k * writeDeadline"
      using "2.prems"(3) by (simp add: writeDeadline_def)
    show ?case
    proof (cases ev)
      case CtxDone
      then show ?thesis using ok "2.prems" top
        by (auto simp: e turn_ok_def after_turn_def late_writes_def pongWait_def split: if_splits)
    next
      case (Tick p)
      then have "\<not> p" using "2.prems"(2) by (cases p) (simp_all add: e unanswered_def)
      with Tick ok "2.prems" top show ?thesis
        by (auto simp: e turn_ok_def after_turn_def late_writes_def split: if_splits)
    next
      case (Message p)
      let ?s = "after_turn s e" and ?k = "k + (if tick_at s < t + d then 1 else 0)"
      note w = write_turn [of s p t d, folded Message, folded e]
      have n: "now_at ?s \<le> tick_at s + int ?k * writeDeadline" using w(1) [OF ok] top by (auto simp: algebra_simps)
      have l: "int k + int (late_writes (tick_at s) (e # es)) = int ?k + int (late_writes (tick_at s) es)"
        by (cases p) (auto simp: late_writes_def e Message)
      show ?thesis
      proof (cases p)
        case True
        from ok "2.prems" True Message have "timed_pump ?s es = Some (r, s')" "list_all unanswered es" by (auto simp: e)
        with "2.IH" [of ?k] ok n w(2) [OF ok] l True Message show ?thesis
          by (cases "tick_at s < t + d"; cases r) (simp_all add: e algebra_simps)
      next
        case False
        then have "s' = ?s" "r" "es = []" using ok "2.prems"(1) Message by (auto simp: e split: if_splits)
        with n l show ?thesis by (simp add: late_writes_def pongWait_def)
      qed
    qed
  qed (auto simp: late_writes_def)
  then show "now_at s' \<le> tick_at s + int (k + late_writes (tick_at s) es) * writeDeadline + (if r then pongWait else 0)"
    "\<not> r \<Longrightarrow> tick_at s' = tick_at s" by blast+
qed

text \<open>
  C23: A dead peer is dropped. If no ping of a connection is ever answered, its write pump cannot take a
  second one: it has returned, or the unanswered ping is still to come and ends it. Either way it ends
  within the ping interval and the pong wait, forty seconds, plus ten seconds for each write that was
  under way when the ticker fired or that \<open>select\<close> preferred to the ping afterwards.
\<close>

theorem dead_peer_dropped:
  assumes "timed_pump (pump_started t0) es = Some (r, s)" "list_all unanswered es"
  shows "if r then now_at s \<le> t0 + pingInterval + pongWait + int (late_writes (t0 + pingInterval) es) * writeDeadline
    else \<exists>s'. timed_pump (pump_started t0) (es @ [(Tick False, max (now_at s) (tick_at s), pongWait)]) = Some (True, s') \<and>
      now_at s' \<le> t0 + pingInterval + pongWait + int (late_writes (t0 + pingInterval) es) * writeDeadline"
proof -
  let ?T = "t0 + pingInterval"
  have i: "now_at (pump_started t0) \<le> tick_at (pump_started t0) + int 0 * writeDeadline" "tick_at (pump_started t0) = ?T"
    by (simp_all add: pump_started_def pingInterval_def)
  note b = dead_peer_time [OF assms i(1), unfolded i(2)]
  show ?thesis
  proof (cases r)
    case True
    with b(1) show ?thesis by simp
  next
    case False
    with b have l: "now_at s \<le> ?T + int (late_writes ?T es) * writeDeadline" "tick_at s = ?T" by simp_all
    let ?e = "(Tick False, max (now_at s) (tick_at s), pongWait)"
    have "timed_pump s [?e] = Some (True, after_turn s ?e)" by (simp add: turn_ok_def pongWait_def)
    moreover have "now_at (after_turn s ?e) \<le> ?T + pongWait + int (late_writes ?T es) * writeDeadline"
      using l by (simp add: after_turn_def writeDeadline_def)
    ultimately show ?thesis using timed_pump_append [of "pump_started t0" es s "[?e]"] assms(1) False by simp
  qed
qed

text \<open>One frame is written after five seconds; the peer dies, and the ping at thirty is its end at forty.\<close>

theorem dead_peer_dropped_witness:
  "timed_pump (pump_started 0) [(Message True, 5000000000, 1000), (Tick False, 30000000000, 10000000000)] =
     Some (True, \<lparr>now_at = 40000000000, tick_at = 60000000000\<rparr>) \<and> 40000000000 \<le> pingInterval + pongWait"
proof -
  let ?es = "[(Message True, 5000000000, 1000), (Tick False, 30000000000, 10000000000)]"
  have r: "timed_pump (pump_started 0) ?es = Some (True, \<lparr>now_at = 40000000000, tick_at = 60000000000\<rparr>)"
    by (simp add: pump_started_def turn_ok_def after_turn_def timer_defs)
  have l: "late_writes (0 + pingInterval) ?es = 0" by (simp add: late_writes_def pingInterval_def)
  have u: "list_all unanswered ?es" by (simp add: unanswered_def)
  from dead_peer_dropped [OF r u] r l show ?thesis by simp
qed

end
