(* ===== verification/Subscribe_Ends.thy ===== *)
theory Subscribe_Ends
  imports Sweep_Race
begin

text \<open>
  Termination of the subscribe loop under interference: a measure on the subscriber's program counter
  that each of its own steps lowers and no other goroutine touches, and progress: the only lock it can
  wait for is held by a sweeper that needs nothing to release it.
\<close>

fun busy :: "sub_pc \<Rightarrow> bool" where
  "busy (STry n i) = True"
| "busy (SMiss n i) = True"
| "busy (SGot n i c) = True"
| "busy _ = False"

fun steps_left :: "sub_pc \<Rightarrow> nat" where
  "steps_left (STry n i) = 3 * (maxSubscribeRetries - i)"
| "steps_left (SMiss n i) = 3 * (maxSubscribeRetries - i) - 1"
| "steps_left (SGot n i c) = 3 * (maxSubscribeRetries - i) - 2"
| "steps_left _ = 0"

lemma steps_left_bound: "steps_left pc \<le> 3 * maxSubscribeRetries"
  by (cases pc) auto

lemma after_subscribe_left: "i < maxSubscribeRetries \<Longrightarrow> steps_left (after_subscribe n i c e) < 3 * (maxSubscribeRetries - i) - 2"
  by (auto simp: after_subscribe_def split: option.split sub_error.split)

text \<open>A step that moves a busy subscriber lowers its measure; every other step leaves it where it is.\<close>

lemma own_step_left:
  assumes "race_step lim s s'" "race_inv s" "busy (subs_pc s t)" "subs_pc s' t \<noteq> subs_pc s t"
  shows "steps_left (subs_pc s' t) < steps_left (subs_pc s t)"
  using assms
proof (induction rule: race_step.induct)
  case (lookup_hit s u n i c)
  then have "u = t" "i < maxSubscribeRetries"
    using race_invD(2) [OF lookup_hit.prems(1), of u] by (auto simp: sub_inv_def split: if_splits)
  with lookup_hit show ?case by simp
next
  case (lookup_miss s u n i)
  then have "u = t" "i < maxSubscribeRetries"
    using race_invD(2) [OF lookup_miss.prems(1), of u] by (auto simp: sub_inv_def split: if_splits)
  with lookup_miss show ?case by simp
next
  case (store s u n i c r' h')
  then have "u = t" "i < maxSubscribeRetries"
    using race_invD(2) [OF store.prems(1), of u] by (auto simp: sub_inv_def split: if_splits)
  with store show ?case by simp
next
  case (subscribe s u n i c e h')
  then have "u = t" "i < maxSubscribeRetries"
    using race_invD(2) [OF subscribe.prems(1), of u] by (auto simp: sub_inv_def split: if_splits)
  with subscribe after_subscribe_left [of i n c e] show ?case by simp
qed (auto split: if_splits)

text \<open>A run in which the subscriber \<open>t\<close> stays inside its subscribe; \<open>n\<close> counts its own steps.\<close>

inductive own_run :: "nat \<Rightarrow> cid \<Rightarrow> nat \<Rightarrow> race \<Rightarrow> race \<Rightarrow> bool" for lim t where
  here: "own_run lim t 0 s s"
| mine: "own_run lim t n s v \<Longrightarrow> busy (subs_pc v t) \<Longrightarrow> race_step lim v v' \<Longrightarrow> subs_pc v' t \<noteq> subs_pc v t \<Longrightarrow>
    own_run lim t (Suc n) s v'"
| theirs: "own_run lim t n s v \<Longrightarrow> busy (subs_pc v t) \<Longrightarrow> race_step lim v v' \<Longrightarrow> subs_pc v' t = subs_pc v t \<Longrightarrow>
    own_run lim t n s v'"

lemma own_run_left: "own_run lim t n s s' \<Longrightarrow> race_inv s \<Longrightarrow> race_inv s' \<and> n + steps_left (subs_pc s' t) \<le> steps_left (subs_pc s t)"
proof (induction rule: own_run.induct)
  case (mine n s v v')
  then have "race_inv v" "n + steps_left (subs_pc v t) \<le> steps_left (subs_pc s t)" by blast+
  moreover have "steps_left (subs_pc v' t) < steps_left (subs_pc v t)"
    by (rule own_step_left [OF mine(3) \<open>race_inv v\<close> mine(2,4)])
  ultimately show ?case using race_step_inv [OF mine(3)] by simp
next
  case (theirs n s v v')
  then show ?case using race_step_inv by simp
qed simp

lemma release_lock:
  assumes "race_inv s" "holds (sweeps_pc s w) c"
  shows "\<exists>k \<le> 2. \<exists>v. (race_step lim ^^ k) s v \<and> subs_pc v = subs_pc s \<and> \<not> held v c"
proof -
  have only: "holds (sweeps_pc s x) c \<Longrightarrow> x = w" for x using race_invD(4) [OF assms(1)] assms(2) by blast
  have mark: "\<exists>v'. race_step lim v v' \<and> subs_pc v' = subs_pc v \<and> \<not> held v' c"
    if "sweeps_pc v w = WRemoved c" "\<And>x. x \<noteq> w \<Longrightarrow> sweeps_pc v x = sweeps_pc s x" for v
  proof -
    let ?v' = "v\<lparr>r_heap := (r_heap v)[c := (r_heap v ! c)\<lparr>Deleted := True\<rparr>], sweeps_pc := (sweeps_pc v)(w := WIdle)\<rparr>"
    have "\<not> holds (sweeps_pc ?v' x) c" for x using that(2) [of x] only [of x] by (cases "x = w") auto
    then have "\<not> held ?v' c" by (simp add: held_def)
    with race_step.sweep_mark [of v w c lim, OF that(1)] show ?thesis by (intro exI [of _ ?v']) simp
  qed
  consider "sweeps_pc s w = WLocked c" | "sweeps_pc s w = WRemoved c"
    using assms(2) by (cases "sweeps_pc s w") auto
  then show ?thesis
  proof cases
    case 1
    obtain b r' where cad: "reg_CompareAndDelete (Name (r_heap s ! c)) c (r_reg s) = (b, r')" by fastforce
    note st = race_step.sweep_remove [of s w c b r' lim, OF 1 cad]
    let ?v = "s\<lparr>r_reg := r', sweeps_pc := (sweeps_pc s)(w := WRemoved c),
      removals := (if b then (removals s)(Name (r_heap s ! c) := Suc (removals s (Name (r_heap s ! c)))) else removals s)\<rparr>"
    obtain v' where "race_step lim ?v v'" "subs_pc v' = subs_pc s" "\<not> held v' c" using mark [of ?v] by auto
    moreover from this(1) st have "(race_step lim ^^ 2) s v'" by (auto simp: numeral_2_eq_2)
    ultimately show ?thesis by blast
  next
    case 2
    then obtain v' where "race_step lim s v'" "subs_pc v' = subs_pc s" "\<not> held v' c" using mark [of s] by auto
    moreover from this(1) have "(race_step lim ^^ 1) s v'" by auto
    ultimately show ?thesis by (intro exI [of _ 1]) auto
  qed
qed

lemma free_moves:
  assumes "busy (subs_pc s t)" "\<And>n i c. subs_pc s t = SGot n i c \<Longrightarrow> \<not> held s c"
  shows "\<exists>s'. race_step lim s s' \<and> subs_pc s' t \<noteq> subs_pc s t" (is "\<exists>s'. ?P s'")
proof (cases "subs_pc s t")
  case (STry n i)
  show ?thesis
  proof (cases "reg_Lookup (r_reg s) n")
    case None
    have "?P (s\<lparr>subs_pc := (subs_pc s)(t := SMiss n i)\<rparr>)" using race_step.lookup_miss [OF STry None] STry by simp
    then show ?thesis ..
  next
    case (Some c)
    have "?P (s\<lparr>subs_pc := (subs_pc s)(t := SGot n i c)\<rparr>)" using race_step.lookup_hit [OF STry Some] STry by simp
    then show ?thesis ..
  qed
next
  case (SMiss n i)
  obtain c r' h' where r: "reg_slow n (r_reg s, r_heap s) = (c, r', h')" by (metis prod_cases3)
  have "?P (s\<lparr>r_reg := r', r_heap := h', subs_pc := (subs_pc s)(t := SGot n i c)\<rparr>)" using race_step.store [OF SMiss r] SMiss by simp
  then show ?thesis ..
next
  case (SGot n i c)
  obtain e h' where h: "hub_Subscribe c t lim (r_heap s) = (e, h')" by fastforce
  have "after_subscribe n i c e \<noteq> SGot n i c" by (auto simp: after_subscribe_def split: option.split sub_error.split)
  then have "?P (s\<lparr>r_heap := h', subs_pc := (subs_pc s)(t := after_subscribe n i c e)\<rparr>)"
    using race_step.subscribe [OF SGot assms(2) [OF SGot] h] SGot by simp
  then show ?thesis ..
qed (use assms(1) in auto)

text \<open>
  C16: A subscribe always ends. In every reachable state of the race between subscribers and sweepers, a
  connection inside its subscribe can make its next step, at once or after at most two steps of a
  sweeper that holds the channel's lock and needs nothing itself: no deadlock. And however the
  others interleave, it makes at most nine steps of its own, three per attempt, before it is
  subscribed or has failed.
\<close>

theorem subscribe_terminates:
  assumes "race_reach lim s"
  shows "(busy (subs_pc s t) \<longrightarrow> (\<exists>k \<le> 2. \<exists>v v'. (race_step lim ^^ k) s v \<and> subs_pc v = subs_pc s \<and>
      race_step lim v v' \<and> subs_pc v' t \<noteq> subs_pc s t)) \<and>
    (\<forall>n s'. own_run lim t n s s' \<longrightarrow> n \<le> 3 * maxSubscribeRetries)"
proof (intro conjI impI allI)
  note inv = race_reach_inv [OF assms]
  {
    assume b: "busy (subs_pc s t)"
    show "\<exists>k \<le> 2. \<exists>v v'. (race_step lim ^^ k) s v \<and> subs_pc v = subs_pc s \<and> race_step lim v v' \<and> subs_pc v' t \<noteq> subs_pc s t"
    proof (cases "\<exists>n i c. subs_pc s t = SGot n i c \<and> held s c")
      case True
      then obtain n i c w where c: "subs_pc s t = SGot n i c" "holds (sweeps_pc s w) c" by (auto simp: held_def)
      obtain k v where v: "k \<le> 2" "(race_step lim ^^ k) s v" "subs_pc v = subs_pc s" "\<not> held v c"
        using release_lock [OF inv c(2)] by blast
      have "\<exists>v'. race_step lim v v' \<and> subs_pc v' t \<noteq> subs_pc v t" by (rule free_moves) (use b c(1) v(3,4) in auto)
      with v show ?thesis by auto
    next
      case False
      then obtain s' where "race_step lim s s'" "subs_pc s' t \<noteq> subs_pc s t" using free_moves [OF b, of lim] by blast
      then show ?thesis by (intro exI [of _ 0]) auto
    qed
  }
  fix n s' assume "own_run lim t n s s'"
  from own_run_left [OF this inv] steps_left_bound [of "subs_pc s t"] show "n \<le> 3 * maxSubscribeRetries" by simp
qed

theorem subscribe_terminates_witness:
  "let s = (race_init (ShardedReg NewSharded))\<lparr>subs_pc := (\<lambda>_. SIdle)(7 := STry ''room'' 0)\<rparr> in
     race_reach 2 s \<and> (\<exists>k v v'. k \<le> 2 \<and> (race_step 2 ^^ k) s v \<and> race_step 2 v v' \<and> subs_pc v' 7 \<noteq> STry ''room'' 0)"
proof -
  let ?i = "race_init (ShardedReg NewSharded)"
  let ?s = "?i\<lparr>subs_pc := (\<lambda>_. SIdle)(7 := STry ''room'' 0)\<rparr>"
  have "race_reach 2 ?i" by (rule race_reach.start) simp
  moreover have "race_step 2 ?i ?s"
    using race_step.begin_sub [of ?i 7 2 "''room''"] by (simp add: race_init_def fun_upd_idem)
  ultimately have r: "race_reach 2 ?s" by (rule race_reach.step)
  have "busy (subs_pc ?s 7)" by simp
  with subscribe_terminates [OF r, of 7] have "\<exists>k \<le> 2. \<exists>v v'. (race_step 2 ^^ k) ?s v \<and> race_step 2 v v' \<and> subs_pc v' 7 \<noteq> subs_pc ?s 7"
    by blast
  with r show ?thesis unfolding Let_def by auto
qed

end
