(* ===== verification/Float64.thy ===== *)
theory Float64
  imports Go_Strings "HOL-Library.Log_Nat"
begin

text \<open>
  Go's \<open>float64\<close> as exact rational arithmetic followed by rounding to 53 significant bits, ties to even. The
  range of the exponent is left unbounded: the values the program computes are counts, fractions and
  times, far from overflow and from the denormals. \<open>go_trunc\<close> is the conversion to an integer.
\<close>

definition round_even :: "rat \<Rightarrow> int" where
  "round_even z = (let f = \<lfloor>z\<rfloor>; r = z - of_int f in
     if r < 1/2 \<or> (r = 1/2 \<and> even f) then f else f + 1)"

text \<open>The exponent of the power of two at or below a positive number.\<close>

definition binade :: "rat \<Rightarrow> int" where
  "binade x = (case quotient_of x of (a, b) \<Rightarrow>
     let e = bitlen a - bitlen b in if 2 powi e \<le> x then e else e - 1)"

definition fl_pos :: "rat \<Rightarrow> rat" where
  "fl_pos x = of_int (round_even (x * 2 powi (52 - binade x))) * 2 powi (binade x - 52)"

definition fl :: "rat \<Rightarrow> rat" where
  "fl x = (if x = 0 then 0 else if x < 0 then - fl_pos (- x) else fl_pos x)"

definition go_trunc :: "rat \<Rightarrow> int" where
  "go_trunc x = (if 0 \<le> x then \<lfloor>x\<rfloor> else \<lceil>x\<rceil>)"

subsection \<open>Rounding is monotone\<close>

lemma round_even_bounds: "\<lfloor>z\<rfloor> \<le> round_even z" "round_even z \<le> \<lceil>z\<rceil>"
proof -
  have c: "z \<noteq> of_int \<lfloor>z\<rfloor> \<Longrightarrow> \<lceil>z\<rceil> = \<lfloor>z\<rfloor> + 1" by linarith
  then show "\<lfloor>z\<rfloor> \<le> round_even z" "round_even z \<le> \<lceil>z\<rceil>"
    by (auto simp: round_even_def Let_def)
qed

lemma round_even_mono: "x \<le> y \<Longrightarrow> round_even x \<le> round_even y"
proof -
  assume xy: "x \<le> y"
  show ?thesis
  proof (cases "\<lfloor>x\<rfloor> = \<lfloor>y\<rfloor>")
    case True
    with xy show ?thesis by (auto simp: round_even_def Let_def)
  next
    case False
    with xy have "\<lfloor>x\<rfloor> + 1 \<le> \<lfloor>y\<rfloor>" using floor_mono [OF xy] by linarith
    moreover have "round_even x \<le> \<lfloor>x\<rfloor> + 1" by (simp add: round_even_def Let_def)
    ultimately show ?thesis using round_even_bounds(1) [of y] by linarith
  qed
qed

lemma round_even_int [simp]: "round_even (of_int n) = n"
  by (simp add: round_even_def)

lemma powi_pos [simp]: "0 < (2 :: rat) powi e"
  by (simp add: zero_less_power_int)

lemma powi_mono: "i \<le> j \<Longrightarrow> (2 :: rat) powi i \<le> 2 powi j"
  by (rule power_int_increasing) simp_all

lemma powi_less: "(2 :: rat) powi i < 2 powi j \<longleftrightarrow> i < j"
  by (meson linorder_not_le powi_mono power_int_strict_increasing one_less_numeral_iff semiring_norm(76))

lemma bitlen_powi:
  assumes "0 < a"
  shows "2 powi (bitlen a - 1) \<le> (of_int a :: rat)" "(of_int a :: rat) < 2 powi bitlen a"
proof -
  have pos: "1 \<le> bitlen a" using assms bitlen_nonneg [of a] bitlen_eq_zero_iff [of a] by linarith
  have p: "(2 :: rat) powi e = of_int (2 ^ nat e)" if "0 \<le> e" for e
    using that by (simp add: power_int_def)
  from bitlen_bounds [OF assms] show "2 powi (bitlen a - 1) \<le> (of_int a :: rat)" "(of_int a :: rat) < 2 powi bitlen a"
    using pos by (simp_all add: p del: of_int_power)
qed

lemma binade_bounds:
  assumes "0 < x"
  shows "2 powi (binade x) \<le> x" "x < 2 powi (binade x + 1)"
proof -
  obtain a b where q: "quotient_of x = (a, b)" by fastforce
  have b: "0 < b" using q by (rule quotient_of_denom_pos)
  have x: "x = of_int a / of_int b" using quotient_of_div [OF q] .
  have a: "0 < a" using assms b by (simp add: x zero_less_divide_iff)
  let ?e = "bitlen a - bitlen b"
  note A = bitlen_powi [OF a] and B = bitlen_powi [OF b]
  have "(2 :: rat) powi (?e - 1) * of_int b \<le> 2 powi (?e - 1) * 2 powi bitlen b" using B(2) by simp
  also have "\<dots> = 2 powi (bitlen a - 1)" by (simp add: power_int_add [symmetric])
  finally have lo: "2 powi (?e - 1) \<le> x" using A(1) b by (simp add: x pos_le_divide_eq)
  have "(2 :: rat) powi bitlen a = 2 powi (?e + 1) * 2 powi (bitlen b - 1)" by (simp add: power_int_add [symmetric])
  also have "\<dots> \<le> 2 powi (?e + 1) * of_int b" using B(1) by simp
  finally have hi: "x < 2 powi (?e + 1)" using A(2) b by (simp add: x pos_divide_less_eq)
  show "2 powi (binade x) \<le> x" "x < 2 powi (binade x + 1)"
    using lo hi by (auto simp: binade_def q Let_def)
qed

lemma binade_mono:
  assumes "0 < x" "x \<le> y"
  shows "binade x \<le> binade y"
proof -
  have "(2 :: rat) powi binade x < 2 powi (binade y + 1)"
    using binade_bounds(1) [of x] binade_bounds(2) [of y] assms by linarith
  then show ?thesis by (simp add: powi_less)
qed

lemma scaled:
  assumes "0 < x"
  shows "2 ^ 52 \<le> x * 2 powi (52 - binade x)" "x * 2 powi (52 - binade x) < 2 ^ 53"
proof -
  note b = binade_bounds [OF assms]
  have "2 powi binade x * 2 powi (52 - binade x) \<le> x * 2 powi (52 - binade x)"
    "x * 2 powi (52 - binade x) < 2 powi (binade x + 1) * 2 powi (52 - binade x)" using b by simp_all
  then show "2 ^ 52 \<le> x * 2 powi (52 - binade x)" "x * 2 powi (52 - binade x) < 2 ^ 53"
    by (simp_all add: power_int_add [symmetric])
qed

text \<open>A rounded number stays within its binade, or reaches the next power of two.\<close>

lemma fl_pos_binade:
  assumes "0 < x"
  shows "2 powi binade x \<le> fl_pos x" "fl_pos x \<le> 2 powi (binade x + 1)"
proof -
  let ?m = "round_even (x * 2 powi (52 - binade x))"
  have "2 ^ 52 \<le> ?m" "?m \<le> 2 ^ 53"
    using round_even_mono [OF scaled(1) [OF assms]] round_even_mono [OF less_imp_le [OF scaled(2) [OF assms]]]
      round_even_int [of "2 ^ 52"] round_even_int [of "2 ^ 53"] by simp_all
  then have "(of_int (2 ^ 52) :: rat) \<le> of_int ?m" "(of_int ?m :: rat) \<le> of_int (2 ^ 53)" by (simp_all only: of_int_le_iff)
  then have "2 powi 52 * 2 powi (binade x - 52) \<le> fl_pos x" "fl_pos x \<le> 2 powi 53 * 2 powi (binade x - 52)"
    unfolding fl_pos_def by (intro mult_right_mono; simp)+
  then show "2 powi binade x \<le> fl_pos x" "fl_pos x \<le> 2 powi (binade x + 1)"
    by (simp_all add: power_int_add [symmetric] add.commute del: power_int_numeral)
qed

lemma fl_pos_mono:
  assumes "0 < x" "x \<le> y"
  shows "fl_pos x \<le> fl_pos y"
proof (cases "binade x = binade y")
  case True
  have "round_even (x * 2 powi (52 - binade y)) \<le> round_even (y * 2 powi (52 - binade y))"
    by (rule round_even_mono) (simp add: assms(2))
  then show ?thesis unfolding fl_pos_def True by (intro mult_right_mono) simp_all
next
  case False
  then have "binade x + 1 \<le> binade y" using binade_mono [OF assms] by simp
  then have "(2 :: rat) powi (binade x + 1) \<le> 2 powi binade y" by (rule powi_mono)
  then show ?thesis using fl_pos_binade(2) [OF assms(1)] fl_pos_binade(1) [of y] assms by linarith
qed

lemma fl_pos_pos: "0 < x \<Longrightarrow> 0 < fl_pos x"
  using fl_pos_binade(1) [of x] powi_pos [of "binade x"] by linarith

lemma fl_mono: "x \<le> y \<Longrightarrow> fl x \<le> fl y"
  using fl_pos_mono [of x y] fl_pos_mono [of "- y" "- x"] fl_pos_pos [of y] fl_pos_pos [of "- x"]
  by (auto simp: fl_def)

lemma fl_nonneg: "0 \<le> x \<Longrightarrow> 0 \<le> fl x"
  using fl_mono [of 0 x] by (simp add: fl_def)

text \<open>Whole numbers below two to the 53 are exact.\<close>

lemma fl_of_nat:
  assumes "n < 2 ^ 53"
  shows "fl (of_nat n) = of_nat n"
proof (cases "n = 0")
  case False
  let ?x = "of_nat n :: rat"
  have x: "0 < ?x" using False by simp
  have "binade ?x \<le> 52"
  proof (rule ccontr)
    assume "\<not> binade ?x \<le> 52"
    then have "(2 :: rat) powi 53 \<le> 2 powi binade ?x" by (intro powi_mono) simp
    then have "(2 :: rat) ^ 53 \<le> ?x" using binade_bounds(1) [OF x] by simp
    moreover have "?x < of_nat (2 ^ 53)" using assms by (simp only: of_nat_less_iff)
    ultimately show False by simp
  qed
  then obtain k where k: "52 - binade ?x = int k" by (metis zle_iff_zadd diff_add_cancel add.commute add_diff_cancel_left')
  have "?x * 2 powi (52 - binade ?x) = of_int (int n * 2 ^ k)" by (simp add: k)
  then have "fl_pos ?x = ?x * 2 powi (52 - binade ?x) * 2 powi (binade ?x - 52)"
    unfolding fl_pos_def by (simp only: round_even_int)
  also have "\<dots> = ?x" by (simp add: mult.assoc power_int_add [symmetric])
  finally show ?thesis using x by (simp add: fl_def)
qed (simp add: fl_def)

lemma go_trunc_mono: "x \<le> y \<Longrightarrow> go_trunc x \<le> go_trunc y"
proof -
  assume "x \<le> y"
  moreover have "\<lceil>x\<rceil> \<le> \<lfloor>y\<rfloor>" if "x < 0" "0 \<le> y"
  proof -
    have "\<lceil>x\<rceil> \<le> 0" "0 \<le> \<lfloor>y\<rfloor>" using that by simp_all
    then show ?thesis by (rule order_trans)
  qed
  ultimately show ?thesis by (auto simp: go_trunc_def floor_mono ceiling_mono)
qed

end
