(* ===== verification/Loadtest.thy ===== *)
theory Loadtest
  imports Frames Float64 "HOL-Library.List_Lexorder" "HOL-Library.Char_ord"
begin

text \<open>
  \<open>cmd/loadtest/main.go\<close>: the load generator. Its state is the \<open>counters\<close>, tallies that every connection's
  goroutine adds to, and the latency samples. What the network does to one connection is its \<open>script\<close>:
  the results of the dial, the reads and the writes, in the order the goroutine sees them. A run is the
  dial plan and one script for each connection; the report is computed from the counters and the
  samples. The tallies are far below the range of their \<open>int64\<close>.
\<close>

subsection \<open>Flags and counters\<close>

record lt_flags =
  lt_addr :: string
  lt_keys :: string
  lt_key :: string
  lt_conns :: int
  lt_channels :: int
  lt_rate :: rat
  lt_dur :: int
  lt_rampup :: int
  lt_publishers :: rat

definition lt_defaults :: lt_flags where
  "lt_defaults = \<lparr>lt_addr = ''ws://localhost:8080'', lt_keys = [], lt_key = [], lt_conns = 1000, lt_channels = 100,
     lt_rate = 10, lt_dur = 30000000000, lt_rampup = 5000000000, lt_publishers = 1/2\<rparr>"

record counters =
  attempted :: int
  connected :: int
  dialFailed :: int
  subFailed :: int
  diedEarly :: int
  sent :: int
  recv :: int
  errByCode :: "(string, int) gomap"
  dialErrKinds :: "(string, int) gomap"

definition counters_zero :: counters where
  "counters_zero = \<lparr>attempted = 0, connected = 0, dialFailed = 0, subFailed = 0, diedEarly = 0, sent = 0, recv = 0,
     errByCode = [], dialErrKinds = []\<rparr>"

text \<open>\<open>m[k]++\<close>.\<close>

definition gm_inc :: "string \<Rightarrow> (string, int) gomap \<Rightarrow> (string, int) gomap" where
  "gm_inc k m = gm_put k ((case gm_get m k of None \<Rightarrow> 0 | Some n \<Rightarrow> n) + 1) m"

definition countErr :: "string \<Rightarrow> counters \<Rightarrow> counters" where
  "countErr code c = c\<lparr>errByCode := gm_inc code (errByCode c)\<rparr>"

definition countDialErr :: "string \<Rightarrow> counters \<Rightarrow> counters" where
  "countDialErr err c =
    (let msg = (case cut (CHR 0x0A) err of None \<Rightarrow> err | Some (line, _) \<Rightarrow> line)
     in c\<lparr>dialErrKinds := gm_inc msg (dialErrKinds c)\<rparr>)"

subsection \<open>The dial plan\<close>

text \<open>\<open>None\<close> is \<open>log.Fatal\<close>.\<close>

definition parseKeyPool :: "lt_flags \<Rightarrow> string list option" where
  "parseKeyPool f =
    (let raw = (if lt_keys f = [] then lt_key f else lt_keys f);
         pool = filter (\<lambda>k. k \<noteq> []) (map TrimSpace (Split raw (CHR '','')))
     in if pool = [] then None else Some pool)"

record lt_conn =
  lc_url :: string
  lc_channel :: string
  lc_publisher :: bool

definition perConnDelay :: "lt_flags \<Rightarrow> int" where
  "perConnDelay f = (let d = lt_rampup f div (lt_conns f + 1) in if d < 1000 then 1000 else d)"

definition lt_seq :: "int \<Rightarrow> nat \<Rightarrow> nat \<Rightarrow> nat" where
  "lt_seq n pool_len i = (if n div int pool_len < 2 then i else i div pool_len)"

definition isPublisher :: "rat \<Rightarrow> nat \<Rightarrow> bool" where
  "isPublisher publishers seq \<longleftrightarrow>
    go_trunc (fl (fl (of_nat (seq + 1)) * publishers)) > go_trunc (fl (fl (of_nat seq) * publishers))"

text \<open>
  Connection \<open>i\<close> of the run. A run with connections and no channels panics (division by zero), and so does
  one with a negative number of connections (the size of the samples channel); \<open>None\<close> is the panic.
\<close>

definition dial_conn :: "lt_flags \<Rightarrow> string list \<Rightarrow> nat \<Rightarrow> lt_conn" where
  "dial_conn f pool i =
    \<lparr>lc_url = lt_addr f @ ''/v1/connect?key='' @ pool ! (i mod length pool),
     lc_channel = ''loadtest-'' @ FormatInt (int i mod \<bar>lt_channels f\<bar>),
     lc_publisher = isPublisher (lt_publishers f) (lt_seq (lt_conns f) (length pool) i)\<rparr>"

definition dial_plan :: "lt_flags \<Rightarrow> string list \<Rightarrow> lt_conn list option" where
  "dial_plan f pool =
    (if lt_conns f < 0 \<or> (0 < lt_conns f \<and> lt_channels f = 0) then None
     else Some (map (dial_conn f pool) [0..<nat (lt_conns f)]))"

subsection \<open>One connection\<close>

text \<open>The messages it sends; \<open>json.Marshal\<close> orders the keys and escapes for HTML.\<close>

definition subscribe_payload :: "string \<Rightarrow> bytes" where
  "subscribe_payload channel = json_object [(''channel'', json_string True channel), (''type'', json_string True ''subscribe'')]"

definition publish_payload :: "string \<Rightarrow> int \<Rightarrow> bytes" where
  "publish_payload channel now = json_object
    [(''channel'', json_string True channel), (''data'', json_object [(''t'', FormatInt now)]), (''type'', json_string True ''publish'')]"

text \<open>What it reads of a frame, and of a frame's data: \<open>struct { T int64 }\<close>, which takes integers in range only.\<close>

definition ack_fields :: "(string \<times> fkind) list" where
  "ack_fields = [(''type'', FString), (''code'', FString)]"

definition frame_fields :: "(string \<times> fkind) list" where
  "frame_fields = [(''type'', FString), (''code'', FString), (''channel'', FString), (''data'', FRaw)]"

fun store_T :: "string \<times> json \<times> bytes \<Rightarrow> int \<times> bool \<Rightarrow> int \<times> bool" where
  "store_T (k, v, raw) (t, ok) =
    (if field_of [(''t'', FRaw)] k = None then (t, ok)
     else case v of
         JNum lit \<Rightarrow> (case ParseInt lit of Some n \<Rightarrow> (n, ok) | None \<Rightarrow> (t, False))
       | JNull \<Rightarrow> (t, ok)
       | _ \<Rightarrow> (t, False))"

definition Unmarshal_T :: "bytes \<Rightarrow> int option" where
  "Unmarshal_T data = Option.bind (json_parse data) (\<lambda>v. case v of
     JNull \<Rightarrow> Some 0
   | JObj ms \<Rightarrow> (case fold store_T ms (0, True) of (t, ok) \<Rightarrow> if ok then Some t else None)
   | _ \<Rightarrow> None)"

text \<open>The frames read until the loop ends; a list that ends stands for the error the next read returns.\<close>

fun await_ack :: "bytes list \<Rightarrow> counters \<Rightarrow> bool \<times> counters" where
  "await_ack [] c = (False, c\<lparr>subFailed := subFailed c + 1\<rparr>)"
| "await_ack (raw # rest) c =
    (case json_Unmarshal ack_fields raw of
       None \<Rightarrow> await_ack rest c
     | Some ack \<Rightarrow>
        if str_field ''type'' ack = ''subscribed'' then (True, c)
        else if str_field ''type'' ack = ''error'' then
          (False, let c1 = c\<lparr>subFailed := subFailed c + 1\<rparr> in
             if str_field ''code'' ack \<noteq> [] then countErr (str_field ''code'' ack) c1 else c1)
        else await_ack rest c)"

text \<open>One frame of the reader goroutine, the time it is looked at, and whether the samples channel has room.\<close>

definition read_frame :: "bytes \<times> int \<times> bool \<Rightarrow> counters \<times> int list \<Rightarrow> counters \<times> int list" where
  "read_frame = (\<lambda>(raw, now, room) (c, samples).
    case json_Unmarshal frame_fields raw of
      None \<Rightarrow> (c, samples)
    | Some msg \<Rightarrow>
       if str_field ''type'' msg = ''error'' then (countErr (str_field ''code'' msg) c, samples)
       else if str_field ''type'' msg = ''event'' then
         (c\<lparr>recv := recv c + 1\<rparr>,
          case Unmarshal_T (str_field ''data'' msg) of
            Some t \<Rightarrow> if 0 < t \<and> room then samples @ [now - t] else samples
          | None \<Rightarrow> samples)
       else (c, samples))"

text \<open>
  The publisher's loop: each tick writes one message, which succeeds or not, and \<open>early\<close> says whether neither
  context has ended by then. The subscriber waits for the first of three things.
\<close>

datatype pub_turn = PubDone | PubWrite bool bool
datatype sub_wait = CtxEnded | ReadEnded bool | DurationOver

fun publish_loop :: "pub_turn list \<Rightarrow> counters \<Rightarrow> counters" where
  "publish_loop [] c = c"
| "publish_loop (PubDone # ts) c = c"
| "publish_loop (PubWrite ok early # ts) c =
    (if ok then publish_loop ts (c\<lparr>sent := sent c + 1\<rparr>)
     else if early then c\<lparr>diedEarly := diedEarly c + 1\<rparr> else c)"

fun wait_out :: "sub_wait \<Rightarrow> counters \<Rightarrow> counters" where
  "wait_out CtxEnded c = c"
| "wait_out (ReadEnded early) c = (if early then c\<lparr>diedEarly := diedEarly c + 1\<rparr> else c)"
| "wait_out DurationOver c = c"

text \<open>
  The time between two publishes; \<open>None\<close> where \<open>time.NewTicker\<close> panics. A rate of zero gives an infinity,
  whose conversion is the least \<open>int64\<close> on amd64; rates too small for an \<open>int64\<close> of nanoseconds are left out.
\<close>

definition tick_interval :: "rat \<Rightarrow> int option" where
  "tick_interval rate = (if rate = 0 then None
     else let d = go_trunc (fl (1000000000 / rate)) in if d \<le> 0 then None else Some d)"

record conn_script =
  dial_err :: "string option"
  hello_ok :: bool
  sub_ok :: bool
  ack_frames :: "bytes list"
  reader_frames :: "(bytes \<times> int \<times> bool) list"
  pub_turns :: "pub_turn list"
  sub_end :: sub_wait

definition runConn :: "lt_conn \<Rightarrow> conn_script \<Rightarrow> counters \<times> int list \<Rightarrow> counters \<times> int list" where
  "runConn lc s = (\<lambda>(c0, samples).
    let c1 = c0\<lparr>attempted := attempted c0 + 1\<rparr> in
    case dial_err s of
      Some err \<Rightarrow> (countDialErr err (c1\<lparr>dialFailed := dialFailed c1 + 1\<rparr>), samples)
    | None \<Rightarrow>
       if \<not> hello_ok s then (c1\<lparr>subFailed := subFailed c1 + 1\<rparr>, samples)
       else if \<not> sub_ok s then (c1\<lparr>subFailed := subFailed c1 + 1\<rparr>, samples)
       else case await_ack (ack_frames s) c1 of
           (False, c2) \<Rightarrow> (c2, samples)
         | (True, c2) \<Rightarrow>
            let (c3, samples') = fold read_frame (reader_frames s) (c2\<lparr>connected := connected c2 + 1\<rparr>, samples)
            in (if lc_publisher lc then publish_loop (pub_turns s) c3 else wait_out (sub_end s) c3, samples'))"

definition load_run :: "(lt_conn \<times> conn_script) list \<Rightarrow> counters \<times> int list" where
  "load_run cs = fold (\<lambda>(lc, s). runConn lc s) cs (counters_zero, [])"

subsection \<open>The report\<close>

definition errTotal :: "counters \<Rightarrow> int" where
  "errTotal c = fold (\<lambda>(code, n) total. total + n) (sort_key fst (errByCode c)) 0"

definition errLines :: "counters \<Rightarrow> string list" where
  "errLines c = map (\<lambda>(code, n). ''server errors ['' @ code @ '']: '' @ FormatInt n) (sort_key fst (errByCode c))"

text \<open>The percentile of the sorted latencies, in microseconds.\<close>

definition percentile_index :: "nat \<Rightarrow> rat \<Rightarrow> nat" where
  "percentile_index n q =
    (let idx = go_trunc (fl (fl (fl (of_nat n) * fl q) + 1/2));
         idx1 = (if int n \<le> idx then int n - 1 else idx)
     in nat (if idx1 < 0 then 0 else idx1))"

definition to_us :: "int \<Rightarrow> rat" where
  "to_us ns = fl (fl (of_int ns) / 1000)"

definition percentile :: "int list \<Rightarrow> rat \<Rightarrow> rat" where
  "percentile lats q = to_us (lats ! percentile_index (length lats) q)"

record latencies =
  p50us :: rat
  p99us :: rat
  p999us :: rat
  maxus :: rat

definition lat_report :: "int list \<Rightarrow> latencies" where
  "lat_report samples =
    (if samples = [] then \<lparr>p50us = 0, p99us = 0, p999us = 0, maxus = 0\<rparr>
     else let lats = sort samples in
       \<lparr>p50us = percentile lats (1/2), p99us = percentile lats (99/100), p999us = percentile lats (999/1000),
        maxus = to_us (lats ! (length lats - 1))\<rparr>)"

text \<open>
  The line for harness scripts. \<open>fmt_f n\<close> is the verb \<open>%.nf\<close>; \<open>Seconds\<close> adds the whole seconds and the rest. A
  duration of zero divides by zero, which prints as an infinity or as not a number.
\<close>

definition fmt_f :: "nat \<Rightarrow> rat \<Rightarrow> string" where
  "fmt_f n x =
    (let m = nat (round_even (\<bar>x\<bar> * 10 ^ n)); frac = utoa (m mod 10 ^ n) in
     (if x < 0 then ''-'' else []) @ utoa (m div 10 ^ n) @
     (if n = 0 then [] else ''.'' @ replicate (n - length frac) (CHR ''0'') @ frac))"

definition Seconds :: "int \<Rightarrow> rat" where
  "Seconds d = (let sec = (if 0 \<le> d then d div 1000000000 else - (- d div 1000000000)); nsec = d - sec * 1000000000
     in fl (fl (of_int sec) + fl (fl (of_int nsec) / 1000000000)))"

definition per_second :: "int \<Rightarrow> int \<Rightarrow> string" where
  "per_second n d =
    (if Seconds d = 0 then (if n = 0 then ''NaN'' else if 0 < n then ''+Inf'' else ''-Inf'')
     else fmt_f 0 (fl (fl (of_int n) / Seconds d)))"

definition summary_line :: "lt_flags \<Rightarrow> counters \<Rightarrow> latencies \<Rightarrow> string" where
  "summary_line f c l =
    ''SUMMARY attempted='' @ FormatInt (attempted c) @ '' connected='' @ FormatInt (connected c) @
    '' dial_failed='' @ FormatInt (dialFailed c) @ '' sub_failed='' @ FormatInt (subFailed c) @
    '' died_early='' @ FormatInt (diedEarly c) @ '' sent='' @ FormatInt (sent c) @ '' recv='' @ FormatInt (recv c) @
    '' server_errors='' @ FormatInt (errTotal c) @ '' delivered_per_s='' @ per_second (recv c) (lt_dur f) @
    '' p50_us='' @ fmt_f 1 (p50us l) @ '' p99_us='' @ fmt_f 1 (p99us l) @ '' p999_us='' @ fmt_f 1 (p999us l) @
    '' max_us='' @ fmt_f 1 (maxus l) @ [CHR 0x0A]"

definition exit_code :: "lt_flags \<Rightarrow> counters \<Rightarrow> nat" where
  "exit_code f c =
    (if connected c = 0 then 2
     else if 0 < dialFailed c \<or> 0 < subFailed c then 3
     else if 0 < diedEarly c then 7
     else if 0 < lt_publishers f \<and> sent c = 0 then 4
     else if 0 < errTotal c then 5
     else if recv c = 0 then 6
     else 0)"

text \<open>The pairs of clock readings the loop makes before its deadline.\<close>

definition wallClockResolution :: "(int \<times> int) list \<Rightarrow> int" where
  "wallClockResolution readings =
    (let minD = fold (\<lambda>(a, b) m. if 0 < b - a \<and> b - a < m then b - a else m) readings (2 ^ 62)
     in if minD = 2 ^ 62 then 0 else minD)"

text \<open>
  The program: \<open>None\<close> where it stops before dialling or panics, else its exit code and its summary line. A
  publisher's ticker panics once its connection is established.
\<close>

definition acked :: "bytes list \<Rightarrow> bool" where
  "acked frames = fst (await_ack frames counters_zero)"

definition established :: "conn_script \<Rightarrow> bool" where
  "established s \<longleftrightarrow> dial_err s = None \<and> hello_ok s \<and> sub_ok s \<and> acked (ack_frames s)"

definition load_main :: "lt_flags \<Rightarrow> conn_script list \<Rightarrow> (nat \<times> string) option" where
  "load_main f scripts =
    Option.bind (parseKeyPool f) (\<lambda>pool. Option.bind (dial_plan f pool) (\<lambda>plan.
      if list_ex (\<lambda>(lc, s). lc_publisher lc \<and> established s \<and> tick_interval (lt_rate f) = None) (zip plan scripts) then None
      else let (c, samples) = load_run (zip plan scripts) in Some (exit_code f c, summary_line f c (lat_report samples))))"

end
