(* ===== verification/Loadtest_Props.thy ===== *)
theory Loadtest_Props
  imports Loadtest Frame_Parse "HOL-Library.Multiset"
begin

text \<open>
  What the numbers of the load generator mean: its tallies account for every connection, its exit code is
  zero exactly for a clean run, its percentiles are ordered samples, its publishers are spread evenly
  over the keys, and the latency it records for an event of the server is the one that was measured.
\<close>

declare map_of_eq_Some_iff [simp del] Some_eq_map_of_iff [simp del]

subsection \<open>Tallies\<close>

definition total :: "(string, int) gomap \<Rightarrow> int" where
  "total m = sum_list (map snd m)"

lemma total_put:
  "gm_ok m \<Longrightarrow> total (gm_put k n m) = total m + n - (case gm_get m k of None \<Rightarrow> 0 | Some x \<Rightarrow> x)"
proof (induction m)
  case (Cons a m)
  obtain k' n' where [simp]: "a = (k', n')" by (cases a)
  have "gm_get m k' = None" using Cons.prems by (simp add: map_of_eq_None_iff)
  with Cons show ?case by (auto simp: total_def split: option.split)
qed (simp add: total_def)

lemma total_inc: "gm_ok m \<Longrightarrow> total (gm_inc k m) = total m + 1"
  by (simp add: gm_inc_def total_put split: option.split)

lemma gm_ok_inc [simp]: "gm_ok m \<Longrightarrow> gm_ok (gm_inc k m)"
  by (simp add: gm_inc_def)

lemma errTotal_total: "errTotal c = total (errByCode c)"
proof -
  have "fold (\<lambda>(code, n) t. t + n) xs a = a + sum_list (map snd xs)" for xs :: "(string \<times> int) list" and a
    by (induction xs arbitrary: a) auto
  moreover have "sum_list (map snd (sort_key fst (errByCode c))) = sum_list (map snd (errByCode c))"
    by (metis mset_map mset_sort sum_mset_sum_list)
  ultimately show ?thesis by (simp add: errTotal_def total_def)
qed

text \<open>What one script adds to the counters.\<close>

definition frame_is :: "string \<Rightarrow> bytes \<times> int \<times> bool \<Rightarrow> bool" where
  "frame_is t e \<longleftrightarrow> (case json_Unmarshal frame_fields (fst e) of None \<Rightarrow> False | Some msg \<Rightarrow> str_field ''type'' msg = t)"

fun publisher_died :: "pub_turn list \<Rightarrow> bool" where
  "publisher_died (PubWrite ok early # ts) = (if ok then publisher_died ts else early)"
| "publisher_died _ = False"

fun writes :: "pub_turn list \<Rightarrow> nat" where
  "writes (PubWrite True early # ts) = Suc (writes ts)"
| "writes _ = 0"

definition died_early :: "lt_conn \<Rightarrow> conn_script \<Rightarrow> bool" where
  "died_early lc s \<longleftrightarrow> (if lc_publisher lc then publisher_died (pub_turns s) else sub_end s = ReadEnded True)"

definition c_ok :: "counters \<Rightarrow> bool" where
  "c_ok c \<longleftrightarrow> gm_ok (errByCode c) \<and> gm_ok (dialErrKinds c)"

definition one_if :: "bool \<Rightarrow> int" where
  "one_if b = (if b then 1 else 0)"

text \<open>The tallies that reading frames leaves alone.\<close>

definition others :: "counters \<Rightarrow> int \<times> int \<times> int \<times> int \<times> int \<times> (string, int) gomap" where
  "others c = (attempted c, connected c, dialFailed c, diedEarly c, sent c, dialErrKinds c)"

lemma await_ack_result: "fst (await_ack fs c) = acked fs"
proof -
  have "fst (await_ack fs c) = fst (await_ack fs c')" for c'
    by (induction fs) (auto split: option.split)
  then show ?thesis by (simp add: acked_def)
qed

lemma await_ack_ok: "acked fs \<Longrightarrow> await_ack fs c = (True, c)"
  unfolding await_ack_result [of fs c, symmetric] by (induction fs) (auto split: option.splits if_splits)

lemma await_ack_fail:
  assumes "\<not> acked fs" "c_ok c"
  obtains c' where "await_ack fs c = (False, c')" "c_ok c'" "total (errByCode c) \<le> total (errByCode c')"
    "subFailed c' = subFailed c + 1" "recv c' = recv c" "others c' = others c"
proof -
  have "\<exists>c'. await_ack fs c = (False, c') \<and> c_ok c' \<and> total (errByCode c) \<le> total (errByCode c') \<and>
      subFailed c' = subFailed c + 1 \<and> recv c' = recv c \<and> others c' = others c"
    using assms(1) unfolding await_ack_result [of fs c, symmetric]
  proof (induction fs)
    case Nil
    show ?case using assms(2) by (simp add: c_ok_def others_def)
  next
    case (Cons raw fs)
    then show ?case using assms(2)
      by (auto simp: c_ok_def countErr_def total_inc Let_def others_def split: option.splits if_splits)
  qed
  with that show thesis by blast
qed

lemma read_frame_tally:
  assumes "c_ok c" "read_frame e (c, samples) = (c', samples')"
  shows "c_ok c' \<and> recv c' = recv c + one_if (frame_is ''event'' e) \<and>
    total (errByCode c') = total (errByCode c) + one_if (frame_is ''error'' e) \<and>
    subFailed c' = subFailed c \<and> others c' = others c \<and>
    int (length samples') - int (length samples) \<le> recv c' - recv c"
  using assms by (cases e) (auto simp: read_frame_def frame_is_def c_ok_def countErr_def total_inc one_if_def others_def split: option.splits if_splits)

lemma read_frames_tally:
  assumes "c_ok c" "fold read_frame es (c, samples) = (c', samples')"
  shows "c_ok c' \<and> recv c' = recv c + int (length (filter (frame_is ''event'') es)) \<and>
    total (errByCode c') = total (errByCode c) + int (length (filter (frame_is ''error'') es)) \<and>
    subFailed c' = subFailed c \<and> others c' = others c \<and>
    int (length samples') - int (length samples) \<le> recv c' - recv c"
  using assms
proof (induction es arbitrary: c samples)
  case (Cons e es)
  obtain c1 s1 where r: "read_frame e (c, samples) = (c1, s1)" by fastforce
  note t = read_frame_tally [OF Cons.prems(1) r]
  have "fold read_frame es (c1, s1) = (c', samples')" using Cons.prems(2) r by simp
  note u = Cons.IH [OF conjunct1 [OF t] this]
  from t u show ?case by (cases "frame_is ''event'' e"; cases "frame_is ''error'' e") (simp_all add: one_if_def)
qed simp

lemma publish_loop_tally:
  "publish_loop ts c = c\<lparr>sent := sent c + int (writes ts), diedEarly := diedEarly c + one_if (publisher_died ts)\<rparr>"
  by (induction ts c rule: publish_loop.induct) (auto simp: one_if_def)

lemma wait_out_tally: "wait_out e c = c\<lparr>diedEarly := diedEarly c + one_if (e = ReadEnded True)\<rparr>"
  by (cases e) (auto simp: one_if_def)

lemma runConn_tally:
  assumes "c_ok c" "runConn lc s (c, samples) = (c', samples')"
  shows "c_ok c'" "attempted c' = attempted c + 1"
    "dialFailed c' = dialFailed c + one_if (dial_err s \<noteq> None)"
    "total (dialErrKinds c') = total (dialErrKinds c) + one_if (dial_err s \<noteq> None)"
    "connected c' = connected c + one_if (established s)"
    "subFailed c' = subFailed c + one_if (dial_err s = None \<and> \<not> established s)"
    "diedEarly c' = diedEarly c + one_if (established s \<and> died_early lc s)"
    "sent c' = sent c + (if established s \<and> lc_publisher lc then int (writes (pub_turns s)) else 0)"
    "recv c' = recv c + (if established s then int (length (filter (frame_is ''event'') (reader_frames s))) else 0)"
    "total (errByCode c) \<le> total (errByCode c')"
    "established s \<Longrightarrow> total (errByCode c') = total (errByCode c) + int (length (filter (frame_is ''error'') (reader_frames s)))"
    "int (length samples') - int (length samples) \<le> recv c' - recv c"
proof -
  let ?c1 = "c\<lparr>attempted := attempted c + 1\<rparr>"
  have ok1: "c_ok ?c1" using assms(1) by (simp add: c_ok_def)
  consider (dial) err where "dial_err s = Some err" | (early) "dial_err s = None" "\<not> hello_ok s \<or> \<not> sub_ok s"
    | (refused) "dial_err s = None" "hello_ok s" "sub_ok s" "\<not> acked (ack_frames s)" | (est) "established s"
    by (cases "dial_err s") (auto simp: established_def)
  then have "c_ok c' \<and> attempted c' = attempted c + 1 \<and>
    dialFailed c' = dialFailed c + one_if (dial_err s \<noteq> None) \<and>
    total (dialErrKinds c') = total (dialErrKinds c) + one_if (dial_err s \<noteq> None) \<and>
    connected c' = connected c + one_if (established s) \<and>
    subFailed c' = subFailed c + one_if (dial_err s = None \<and> \<not> established s) \<and>
    diedEarly c' = diedEarly c + one_if (established s \<and> died_early lc s) \<and>
    sent c' = sent c + (if established s \<and> lc_publisher lc then int (writes (pub_turns s)) else 0) \<and>
    recv c' = recv c + (if established s then int (length (filter (frame_is ''event'') (reader_frames s))) else 0) \<and>
    total (errByCode c) \<le> total (errByCode c') \<and>
    (established s \<longrightarrow> total (errByCode c') = total (errByCode c) + int (length (filter (frame_is ''error'') (reader_frames s)))) \<and>
    int (length samples') - int (length samples) \<le> recv c' - recv c"
  proof cases
    case dial
    then have "c' = countDialErr err (?c1\<lparr>dialFailed := dialFailed c + 1\<rparr>)" "samples' = samples" "\<not> established s"
      using assms(2) by (auto simp: runConn_def established_def)
    with dial assms(1) show ?thesis by (simp add: one_if_def c_ok_def countDialErr_def Let_def total_inc)
  next
    case early
    then have "c' = ?c1\<lparr>subFailed := subFailed c + 1\<rparr>" "samples' = samples" "\<not> established s"
      using assms(2) by (auto simp: runConn_def established_def Let_def split: if_splits)
    with early(1) assms(1) show ?thesis by (simp add: one_if_def c_ok_def)
  next
    case refused
    from await_ack_fail [OF refused(4) ok1] obtain c2 where a: "await_ack (ack_frames s) ?c1 = (False, c2)" "c_ok c2"
      "total (errByCode ?c1) \<le> total (errByCode c2)" "subFailed c2 = subFailed ?c1 + 1" "recv c2 = recv ?c1" "others c2 = others ?c1" .
    then have "c' = c2" "samples' = samples" using refused assms(2) by (simp_all add: runConn_def)
    with a refused show ?thesis by (simp add: established_def one_if_def others_def)
  next
    case est
    then have e: "dial_err s = None" "hello_ok s" "sub_ok s" "acked (ack_frames s)" by (simp_all add: established_def)
    let ?c2 = "?c1\<lparr>connected := connected c + 1\<rparr>"
    obtain c3 s3 where r: "fold read_frame (reader_frames s) (?c2, samples) = (c3, s3)" by fastforce
    have "c_ok ?c2" using assms(1) by (simp add: c_ok_def)
    note t = read_frames_tally [OF this r]
    have "c' = (if lc_publisher lc then publish_loop (pub_turns s) c3 else wait_out (sub_end s) c3)" "samples' = s3"
      using e r assms(2) await_ack_ok [OF e(4), of ?c1] by (auto simp: runConn_def)
    with t est e(1) assms(1) show ?thesis
      by (cases "lc_publisher lc") (simp_all add: publish_loop_tally wait_out_tally died_early_def one_if_def others_def c_ok_def)
  qed
  then show "c_ok c'" "attempted c' = attempted c + 1"
    "dialFailed c' = dialFailed c + one_if (dial_err s \<noteq> None)"
    "total (dialErrKinds c') = total (dialErrKinds c) + one_if (dial_err s \<noteq> None)"
    "connected c' = connected c + one_if (established s)"
    "subFailed c' = subFailed c + one_if (dial_err s = None \<and> \<not> established s)"
    "diedEarly c' = diedEarly c + one_if (established s \<and> died_early lc s)"
    "sent c' = sent c + (if established s \<and> lc_publisher lc then int (writes (pub_turns s)) else 0)"
    "recv c' = recv c + (if established s then int (length (filter (frame_is ''event'') (reader_frames s))) else 0)"
    "total (errByCode c) \<le> total (errByCode c')"
    "established s \<Longrightarrow> total (errByCode c') = total (errByCode c) + int (length (filter (frame_is ''error'') (reader_frames s)))"
    "int (length samples') - int (length samples) \<le> recv c' - recv c" by blast+
qed

text \<open>The run as a whole, over the list of its connections.\<close>

definition many :: "(lt_conn \<times> conn_script \<Rightarrow> bool) \<Rightarrow> (lt_conn \<times> conn_script) list \<Rightarrow> int" where
  "many P cs = int (length (filter P cs))"

lemma many_snoc [simp]: "many P (cs @ [x]) = many P cs + one_if (P x)"
  by (simp add: many_def one_if_def)

lemma load_run_snoc: "load_run (cs @ [(lc, s)]) = runConn lc s (load_run cs)"
  by (simp add: load_run_def)

lemma load_run_tally:
  assumes "load_run cs = (c, samples)"
  shows "c_ok c \<and> attempted c = int (length cs) \<and>
    dialFailed c = many (\<lambda>(lc, s). dial_err s \<noteq> None) cs \<and> total (dialErrKinds c) = dialFailed c \<and>
    connected c = many (\<lambda>(lc, s). established s) cs \<and>
    subFailed c = many (\<lambda>(lc, s). dial_err s = None \<and> \<not> established s) cs \<and>
    diedEarly c = many (\<lambda>(lc, s). established s \<and> died_early lc s) cs \<and>
    int (length samples) \<le> recv c \<and> 0 \<le> total (errByCode c) \<and> 0 \<le> sent c \<and> 0 \<le> recv c"
  using assms
proof (induction cs arbitrary: c samples rule: rev_induct)
  case Nil
  then show ?case by (auto simp: load_run_def counters_zero_def c_ok_def many_def total_def)
next
  case (snoc x cs)
  obtain lc s where x: "x = (lc, s)" by (cases x)
  obtain c0 s0 where r: "load_run cs = (c0, s0)" by fastforce
  note t = snoc.IH [OF r]
  have "runConn lc s (c0, s0) = (c, samples)" using snoc.prems r by (simp add: x load_run_snoc)
  note u = runConn_tally [OF conjunct1 [OF t] this]
  show ?case using t u(1-10,12) by (simp add: x)
qed

text \<open>
  The load generator accounts for every connection. Whatever the network does, each attempted dial is
  counted as exactly one of a failed dial, a failed subscribe, or a connection; the dial errors shown by
  kind add up to the failed dials; no more connections die early than were made, and no more latencies
  are sampled than events were received.
\<close>

theorem load_accounts:
  "let (c, samples) = load_run cs in
     attempted c = int (length cs) \<and> attempted c = dialFailed c + subFailed c + connected c \<and>
     connected c = int (length (filter (\<lambda>(lc, s). established s) cs)) \<and> total (dialErrKinds c) = dialFailed c \<and>
     0 \<le> diedEarly c \<and> diedEarly c \<le> connected c \<and> int (length samples) \<le> recv c"
proof -
  obtain c samples where r: "load_run cs = (c, samples)" by fastforce
  have "many (\<lambda>(lc, s). dial_err s \<noteq> None) cs + many (\<lambda>(lc, s). dial_err s = None \<and> \<not> established s) cs
      + many (\<lambda>(lc, s). established s) cs = int (length cs)"
    by (induction cs) (auto simp: many_def established_def)
  moreover have "many (\<lambda>(lc, s). established s \<and> died_early lc s) cs \<le> many (\<lambda>(lc, s). established s) cs"
    by (induction cs) (auto simp: many_def)
  moreover have "0 \<le> many (\<lambda>(lc, s). established s \<and> died_early lc s) cs" by (simp add: many_def)
  ultimately show ?thesis using load_run_tally [OF r] by (simp add: r many_def)
qed

subsection \<open>The exit code\<close>

lemma many_zero: "many P cs = 0 \<longleftrightarrow> list_all (\<lambda>x. \<not> P x) cs"
  by (simp add: many_def filter_empty_conv list_all_iff)

lemma all_ex: "list_all (\<lambda>(x, y). \<not> P x y) cs \<longleftrightarrow> \<not> list_ex (\<lambda>(x, y). P x y) cs"
  "list_all (\<lambda>(x, y). Q x \<longrightarrow> R y) cs \<longleftrightarrow> \<not> list_ex (\<lambda>(x, y). Q x \<and> \<not> R y) cs"
  by (induction cs) auto

lemma all_split: "list_all (\<lambda>(x, y). P x y \<and> Q x y \<and> R x y) cs \<longleftrightarrow>
    list_all (\<lambda>(x, y). P x y) cs \<and> list_all (\<lambda>(x, y). Q x y) cs \<and> list_all (\<lambda>(x, y). R x y) cs"
  by (induction cs) auto

lemma established_tally:
  assumes "load_run cs = (c, samples)" "list_all (\<lambda>(lc, s). established s) cs"
  shows "(total (errByCode c) = 0 \<longleftrightarrow> list_all (\<lambda>(lc, s). \<not> list_ex (frame_is ''error'') (reader_frames s)) cs) \<and>
    (sent c = 0 \<longleftrightarrow> list_all (\<lambda>(lc, s). lc_publisher lc \<longrightarrow> writes (pub_turns s) = 0) cs) \<and>
    (recv c = 0 \<longleftrightarrow> list_all (\<lambda>(lc, s). \<not> list_ex (frame_is ''event'') (reader_frames s)) cs)"
  using assms
proof (induction cs arbitrary: c samples rule: rev_induct)
  case Nil
  then show ?case by (auto simp: load_run_def counters_zero_def total_def)
next
  case (snoc x cs)
  obtain lc s where x: "x = (lc, s)" by (cases x)
  obtain c0 s0 where r: "load_run cs = (c0, s0)" by fastforce
  have est: "established s" "list_all (\<lambda>(lc, s). established s) cs" using snoc.prems(2) by (simp_all add: x)
  have run: "runConn lc s (c0, s0) = (c, samples)" using snoc.prems(1) r by (simp add: x load_run_snoc)
  note t = load_run_tally [OF r]
  note u = runConn_tally [OF conjunct1 [OF t] run]
  have e: "filter (frame_is k) fs = [] \<longleftrightarrow> \<not> list_ex (frame_is k) fs" for k fs
    by (simp add: filter_empty_conv list_ex_iff)
  have p: "0 \<le> total (errByCode c0)" "0 \<le> sent c0" "0 \<le> recv c0" using t by simp_all
  have z: "a + int n = 0 \<longleftrightarrow> a = 0 \<and> n = 0" if "0 \<le> a" for a n using that by linarith
  show ?case using snoc.IH [OF r est(2)] u(8,9) u(11) [OF est(1)] est(1) p by (simp add: x z e)
qed

text \<open>
  C29: The load generator exits with zero exactly for a clean run: there was a connection, every
  connection was established, no subscriber's read and no publisher's write failed before its time,
  the server sent no error frame, an event arrived, and something was published if publishers were
  asked for.
\<close>

theorem exit_zero_iff_clean:
  "exit_code f (fst (load_run cs)) = 0 \<longleftrightarrow>
    cs \<noteq> [] \<and> list_all (\<lambda>(lc, s). established s \<and> \<not> died_early lc s \<and> \<not> list_ex (frame_is ''error'') (reader_frames s)) cs \<and>
    list_ex (\<lambda>(lc, s). list_ex (frame_is ''event'') (reader_frames s)) cs \<and>
    (lt_publishers f \<le> 0 \<or> list_ex (\<lambda>(lc, s). lc_publisher lc \<and> writes (pub_turns s) \<noteq> 0) cs)"
proof -
  obtain c samples where r: "load_run cs = (c, samples)" by fastforce
  note t = load_run_tally [OF r]
  have n: "0 \<le> many P cs" for P by (simp add: many_def)
  have est: "connected c \<noteq> 0 \<and> \<not> (0 < dialFailed c \<or> 0 < subFailed c) \<longleftrightarrow> cs \<noteq> [] \<and> list_all (\<lambda>(lc, s). established s) cs"
  proof -
    have "\<not> (0 < dialFailed c \<or> 0 < subFailed c) \<longleftrightarrow> dialFailed c = 0 \<and> subFailed c = 0"
      using t n by (metis order.strict_iff_order order.asym)
    also have "\<dots> \<longleftrightarrow> list_all (\<lambda>(lc, s). established s) cs"
    proof -
      have "list_all (\<lambda>x. \<not> (case x of (lc, s) \<Rightarrow> dial_err s \<noteq> None)) cs \<and>
          list_all (\<lambda>x. \<not> (case x of (lc, s) \<Rightarrow> dial_err s = None \<and> \<not> established s)) cs \<longleftrightarrow> list_all (\<lambda>(lc, s). established s) cs"
        by (induction cs) (auto simp: established_def)
      moreover have "dialFailed c = many (\<lambda>(lc, s). dial_err s \<noteq> None) cs"
        "subFailed c = many (\<lambda>(lc, s). dial_err s = None \<and> \<not> established s) cs" using t by blast+
      ultimately show ?thesis unfolding many_zero [symmetric] by simp
    qed
    finally have 1: "\<not> (0 < dialFailed c \<or> 0 < subFailed c) \<longleftrightarrow> list_all (\<lambda>(lc, s). established s) cs" .
    have "connected c \<noteq> 0 \<longleftrightarrow> cs \<noteq> []" if "list_all (\<lambda>(lc, s). established s) cs"
      using t that by (cases cs) (auto simp: many_zero)
    with 1 show ?thesis by blast
  qed
  show ?thesis
  proof (cases "cs \<noteq> [] \<and> list_all (\<lambda>(lc, s). established s) cs")
    case False
    then have "exit_code f c \<noteq> 0" using est by (auto simp: exit_code_def)
    with False r show ?thesis by (auto simp: list_all_iff)
  next
    case True
    then have all: "list_all (\<lambda>(lc, s). established s) cs" by simp
    note e = established_tally [OF r all]
    have died: "\<not> 0 < diedEarly c \<longleftrightarrow> list_all (\<lambda>(lc, s). \<not> died_early lc s) cs"
    proof -
      have "\<not> 0 < diedEarly c \<longleftrightarrow> diedEarly c = 0" using t n by (metis order.strict_iff_order order.asym)
      then show ?thesis using t all by (auto simp: many_zero list_all_iff)
    qed
    have err: "\<not> 0 < errTotal c \<longleftrightarrow> total (errByCode c) = 0" using t by (auto simp: errTotal_total)
    have "exit_code f c = 0 \<longleftrightarrow> \<not> 0 < diedEarly c \<and> \<not> (0 < lt_publishers f \<and> sent c = 0) \<and> \<not> 0 < errTotal c \<and> recv c \<noteq> 0"
      using True est by (auto simp: exit_code_def)
    also have "\<dots> \<longleftrightarrow> list_all (\<lambda>(lc, s). \<not> died_early lc s) cs \<and>
        (lt_publishers f \<le> 0 \<or> list_ex (\<lambda>(lc, s). lc_publisher lc \<and> writes (pub_turns s) \<noteq> 0) cs) \<and>
        list_all (\<lambda>(lc, s). \<not> list_ex (frame_is ''error'') (reader_frames s)) cs \<and>
        list_ex (\<lambda>(lc, s). list_ex (frame_is ''event'') (reader_frames s)) cs"
      unfolding died err using e by (simp add: not_less all_ex)
    finally show ?thesis using True r by (simp add: all_split conj_ac)
  qed
qed

subsection \<open>Percentiles\<close>

lemma to_us_mono: "a \<le> b \<Longrightarrow> to_us a \<le> to_us b"
  unfolding to_us_def by (intro fl_mono divide_right_mono) simp_all

lemma percentile_index_less: "0 < n \<Longrightarrow> percentile_index n q < n"
  by (auto simp: percentile_index_def Let_def)

lemma percentile_index_mono:
  assumes "q \<le> q'"
  shows "percentile_index n q \<le> percentile_index n q'"
proof -
  have "go_trunc (fl (fl (fl (of_nat n) * fl q) + 1/2)) \<le> go_trunc (fl (fl (fl (of_nat n) * fl q') + 1/2))"
    by (intro go_trunc_mono fl_mono add_right_mono mult_left_mono fl_nonneg assms) simp
  then show ?thesis by (simp add: percentile_index_def Let_def nat_le_iff)
qed

text \<open>
  The reported latencies are samples in order. With at least one sample, p50, p99, p999 and the maximum are
  each a sampled latency in microseconds, none is below the one before, and the maximum is not below
  any sample; without samples all are zero. The index never leaves the list, whatever rounding does.
\<close>

theorem percentiles_ordered:
  "let r = lat_report samples in
     p50us r \<le> p99us r \<and> p99us r \<le> p999us r \<and> p999us r \<le> maxus r \<and>
     (if samples = [] then maxus r = 0
      else set [p50us r, p99us r, p999us r, maxus r] \<subseteq> to_us ` set samples \<and> list_all (\<lambda>s. to_us s \<le> maxus r) samples)"
proof (cases "samples = []")
  case False
  let ?l = "sort samples" and ?n = "length samples"
  have n: "0 < ?n" using False by simp
  have le: "to_us (?l ! i) \<le> to_us (?l ! j)" if "i \<le> j" "j < ?n" for i j
    by (intro to_us_mono sorted_nth_mono) (use that in simp_all)
  have "percentile ?l q \<le> percentile ?l q'" if "q \<le> q'" for q q'
    unfolding percentile_def using le [OF percentile_index_mono [OF that]] percentile_index_less [OF n] by simp
  moreover have "percentile ?l q \<le> to_us (?l ! (?n - 1))" for q
    unfolding percentile_def using le [of "percentile_index ?n q" "?n - 1"] percentile_index_less [OF n, of q] n by simp
  moreover have "percentile ?l q \<in> to_us ` set samples" for q
    unfolding percentile_def using nth_mem [of "percentile_index ?n q" ?l] percentile_index_less [OF n, of q] by simp
  moreover have "to_us (?l ! (?n - 1)) \<in> to_us ` set samples" using nth_mem [of "?n - 1" ?l] n by simp
  moreover have "to_us s \<le> to_us (?l ! (?n - 1))" if "s \<in> set samples" for s
  proof -
    have "s \<in> set ?l" using that by simp
    then obtain i where "i < ?n" "s = ?l ! i" unfolding in_set_conv_nth by auto
    with le [of i "?n - 1"] show ?thesis by simp
  qed
  ultimately show ?thesis using False by (simp add: lat_report_def Let_def list_all_iff)
qed (simp add: lat_report_def)

subsection \<open>Publishers\<close>

text \<open>The connections of a key: every \<open>k\<close>-th one, so its group is as long as \<open>s * k + j < n\<close> allows.\<close>

definition group_size :: "nat \<Rightarrow> nat \<Rightarrow> nat \<Rightarrow> nat" where
  "group_size n k j = (n + k - 1 - j) div k"

lemma group_size_iff: "j < k \<Longrightarrow> s < group_size n k j \<longleftrightarrow> s * k + j < n"
proof -
  assume j: "j < k"
  then have "s < group_size n k j \<longleftrightarrow> Suc s * k \<le> n + k - 1 - j"
    by (simp add: group_size_def Suc_le_eq [symmetric] less_eq_div_iff_mult_less_eq)
  also have "\<dots> \<longleftrightarrow> s * k + j < n" using j by auto
  finally show ?thesis .
qed

lemma group_size_even: "j < k \<Longrightarrow> j' < k \<Longrightarrow> group_size n k j \<le> group_size n k j' + 1"
proof -
  assume j: "j < k" "j' < k"
  then have "(n + k - 1 - j) div k \<le> (n + k - 1 - j' + k) div k" by (intro div_le_mono) simp
  also have "\<dots> = (n + k - 1 - j') div k + 1" using j by (intro div_add_self2) simp
  finally show ?thesis by (simp add: group_size_def)
qed

lemma group_count:
  assumes "j < k"
  shows "length (filter (\<lambda>i. i mod k = j \<and> P (i div k)) [0..<n]) = card {s. s < group_size n k j \<and> P s}"
proof -
  have "length (filter (\<lambda>i. i mod k = j \<and> P (i div k)) [0..<n]) = card (set (filter (\<lambda>i. i mod k = j \<and> P (i div k)) [0..<n]))"
    by (rule distinct_card [symmetric]) simp
  also have "set (filter (\<lambda>i. i mod k = j \<and> P (i div k)) [0..<n]) = (\<lambda>s. s * k + j) ` {s. s < group_size n k j \<and> P s}"
  proof (intro set_eqI iffI)
    fix i assume "i \<in> set (filter (\<lambda>i. i mod k = j \<and> P (i div k)) [0..<n])"
    then have i: "i < n" "i mod k = j" "P (i div k)" by auto
    then have e: "i = i div k * k + j" by (metis div_mult_mod_eq)
    then have "i div k < group_size n k j" using i(1) group_size_iff [OF assms] by simp
    with e i(3) show "i \<in> (\<lambda>s. s * k + j) ` {s. s < group_size n k j \<and> P s}" by blast
  next
    fix i assume "i \<in> (\<lambda>s. s * k + j) ` {s. s < group_size n k j \<and> P s}"
    then obtain s where "i = s * k + j" "s < group_size n k j" "P s" by blast
    with assms show "i \<in> set (filter (\<lambda>i. i mod k = j \<and> P (i div k)) [0..<n])" by (simp add: group_size_iff)
  qed
  also have "card \<dots> = card {s. s < group_size n k j \<and> P s}"
    by (rule card_image) (use assms in \<open>simp add: inj_on_def\<close>)
  finally show ?thesis .
qed

lemma card_less_Suc: "card {s. s < Suc m \<and> P s} = card {s. s < m \<and> P s} + (if P m then 1 else 0)"
proof -
  have "{s. s < Suc m \<and> P s} = (if P m then insert m {s. s < m \<and> P s} else {s. s < m \<and> P s})"
    by (auto simp: less_Suc_eq)
  then show ?thesis by simp
qed

lemma publishers_bound:
  assumes "0 \<le> p"
  shows "int (card {s. s < m \<and> isPublisher p s}) \<le> go_trunc (fl (fl (of_nat m) * p))"
proof (induction m)
  case (Suc m)
  have "go_trunc (fl (fl (of_nat m) * p)) \<le> go_trunc (fl (fl (of_nat (Suc m)) * p))"
    by (intro go_trunc_mono fl_mono mult_right_mono assms) simp
  moreover have "isPublisher p m \<Longrightarrow> go_trunc (fl (fl (of_nat m) * p)) + 1 \<le> go_trunc (fl (fl (of_nat (Suc m)) * p))"
    by (simp add: isPublisher_def)
  ultimately show ?case using Suc.IH by (cases "isPublisher p m") (simp_all add: card_less_Suc)
qed (simp add: fl_def go_trunc_def)

text \<open>
  The publishers are spread evenly over the keys. When every key has at least two connections, any two
  keys carry the same number of publishers up to one, and no key more than its share of its connections
  rounded down, as \<open>float64\<close> computes it; so no key's rate limit is overloaded by chance.
\<close>

theorem publishers_stratified:
  assumes "2 \<le> lt_conns f div int (length pool)" "0 \<le> lt_publishers f" "j < length pool" "j' < length pool"
  shows "let k = length pool; n = nat (lt_conns f);
      count = (\<lambda>j. length (filter (\<lambda>i. i mod k = j \<and> lc_publisher (dial_conn f pool i)) [0..<n])) in
    count j \<le> count j' + 1 \<and> int (count j) \<le> go_trunc (fl (fl (of_nat (group_size n k j)) * lt_publishers f))"
proof -
  let ?k = "length pool" and ?n = "nat (lt_conns f)" and ?p = "lt_publishers f"
  have pub: "lc_publisher (dial_conn f pool i) = isPublisher ?p (i div ?k)" for i
    using assms(1) by (simp add: dial_conn_def lt_seq_def)
  have c: "length (filter (\<lambda>i. i mod ?k = x \<and> lc_publisher (dial_conn f pool i)) [0..<?n]) =
      card {s. s < group_size ?n ?k x \<and> isPublisher ?p s}" if "x < ?k" for x
    unfolding pub by (rule group_count [OF that])
  have "card {s. s < group_size ?n ?k j \<and> isPublisher ?p s} \<le> card {s. s < Suc (group_size ?n ?k j') \<and> isPublisher ?p s}"
    using group_size_even [OF assms(3,4), of ?n] by (intro card_mono) auto
  also have "\<dots> \<le> card {s. s < group_size ?n ?k j' \<and> isPublisher ?p s} + 1" by (simp add: card_less_Suc)
  finally show ?thesis using c [OF assms(3)] c [OF assms(4)] publishers_bound [OF assms(2)] by (simp add: Let_def)
qed

theorem publishers_stratified_witness:
  "let f = lt_defaults\<lparr>lt_conns := 5\<rparr>; pool = [''a'', ''b''] in
     length (filter (\<lambda>i. i mod 2 = 0 \<and> lc_publisher (dial_conn f pool i)) [0..<5])
     \<le> length (filter (\<lambda>i. i mod 2 = 1 \<and> lc_publisher (dial_conn f pool i)) [0..<5]) + 1"
proof -
  let ?f = "lt_defaults\<lparr>lt_conns := 5\<rparr>"
  have h: "2 \<le> lt_conns ?f div int (length [''a'', ''b''])" "0 \<le> lt_publishers ?f" "0 < length [''a'', ''b'']" "1 < length [''a'', ''b'']"
    by (simp_all add: lt_defaults_def)
  have "nat (lt_conns ?f) = 5" "length [''a'', ''b''] = 2" by (simp_all add: lt_defaults_def)
  with publishers_stratified [OF h] show ?thesis unfolding Let_def by metis
qed

end
