(* ===== verification/Loadtest_Wire.thy ===== *)
theory Loadtest_Wire
  imports Loadtest_Props
begin

text \<open>
  The load generator against the server: the messages it sends as the server decodes them, and the
  server's frames as its handshake and its reader take them.
\<close>

declare map_of_eq_Some_iff [simp del] Some_eq_map_of_iff [simp del] parse_val.simps(2) [simp del]

lemma lt_fields [simp]:
  "field_of incoming_fields ''channel'' = Some (''channel'', FString)" "field_of incoming_fields ''data'' = Some (''data'', FRaw)"
  "field_of incoming_fields ''type'' = Some (''type'', FString)"
  "field_of ack_fields ''channel'' = None" "field_of ack_fields ''data'' = None" "field_of ack_fields ''id'' = None"
  "field_of ack_fields ''type'' = Some (''type'', FString)" "field_of ack_fields ''code'' = Some (''code'', FString)"
  "field_of ack_fields ''message'' = None" "field_of ack_fields ''op'' = None"
  "field_of frame_fields ''channel'' = Some (''channel'', FString)" "field_of frame_fields ''data'' = Some (''data'', FRaw)"
  "field_of frame_fields ''id'' = None" "field_of frame_fields ''type'' = Some (''type'', FString)"
  "field_of [(''t'', FRaw)] ''t'' = Some (''t'', FRaw)"
  by code_simp+

lemma parse_object:
  assumes "kvs \<noteq> []" "\<forall>(k, e, v) \<in> set kvs. plain_key k \<and> enc_val (Suc 0) e v"
  shows "json_parse (json_object (map (\<lambda>(k, e, v). (k, e)) kvs)) = Some (JObj (map (\<lambda>(k, e, v). (k, v, e)) kvs))"
  by (rule enc_val_parse, rule enc_val_object) (use assms in \<open>simp_all add: maxNestingDepth_def\<close>)

subsection \<open>The timestamp\<close>

definition stamp :: "int \<Rightarrow> bytes" where
  "stamp t = json_object [(''t'', FormatInt t)]"

lemma enc_stamp: "d < maxNestingDepth \<Longrightarrow> enc_val d (stamp t) (JObj [(''t'', JNum (FormatInt t), FormatInt t)])"
  using enc_val_object [of "[(''t'', FormatInt t, JNum (FormatInt t))]" d] enc_val_int
  by (simp add: stamp_def plain_key_def)

lemma stamp_piece:
  assumes d: "d < maxNestingDepth"
  shows "\<exists>m u. parse_val m d (stamp t) = Some (JObj [(''t'', JNum (FormatInt t), FormatInt t)], u) \<and> stamp t = consumed (skip_ws (stamp t)) u"
proof -
  obtain m where "\<forall>x. delim x \<longrightarrow> parse_val m d (stamp t @ x) = Some (JObj [(''t'', JNum (FormatInt t), FormatInt t)], x)"
    using enc_stamp [OF d, of t] unfolding enc_val_def by blast
  moreover have "delim []" by (simp add: delim_def)
  ultimately have "parse_val m d (stamp t @ []) = Some (JObj [(''t'', JNum (FormatInt t), FormatInt t)], [])" by blast
  moreover have "stamp t = consumed (skip_ws (stamp t)) []" by (simp add: stamp_def json_object_def consumed_def)
  ultimately show ?thesis by auto
qed

lemma Unmarshal_stamp:
  assumes "- (2 ^ 63) \<le> t" "t < 2 ^ 63"
  shows "Unmarshal_T (Json.compact False (stamp t)) = Some t"
proof -
  obtain m u where "parse_val m 0 (stamp t) = Some (JObj [(''t'', JNum (FormatInt t), FormatInt t)], u)" "stamp t = consumed (skip_ws (stamp t)) u"
    using stamp_piece [of 0 t] by (auto simp: maxNestingDepth_def)
  from enc_val_parse [OF enc_val_compact [OF this(1)]] this(2)
  have "json_parse (Json.compact False (stamp t)) = Some (JObj [(''t'', JNum (FormatInt t), Json.compact False (FormatInt t))])" by simp
  then show ?thesis by (simp add: Unmarshal_T_def ParseInt_FormatInt [OF assms])
qed

text \<open>The server's view of the load generator's messages.\<close>

lemma server_reads_publish:
  assumes "utf8_Valid ch"
  shows "Unmarshal_incoming (publish_payload ch t) =
    Some \<lparr>msg_Type = ''publish'', msg_Channel = ch, msg_Token = [], msg_Data = stamp t\<rparr>"
proof -
  let ?ms = "[(''channel'', json_string True ch, JStr ch), (''data'', stamp t, JObj [(''t'', JNum (FormatInt t), FormatInt t)]),
    (''type'', json_string True ''publish'', JStr ''publish'')]"
  have "\<forall>(k, e, v) \<in> set ?ms. plain_key k \<and> enc_val (Suc 0) e v"
    using assms enc_stamp [of "Suc 0" t] by (simp add: enc_val_str plain_utf8 plain_key_def maxNestingDepth_def)
  from parse_object [OF _ this] have "json_parse (publish_payload ch t) = Some (JObj (map (\<lambda>(k, e, v). (k, v, e)) ?ms))"
    by (simp add: publish_payload_def stamp_def)
  then show ?thesis by (simp add: Unmarshal_incoming_def json_Unmarshal_def decode_struct_def str_field_def)
qed

lemma server_reads_subscribe:
  assumes "utf8_Valid ch"
  shows "Unmarshal_incoming (subscribe_payload ch) =
    Some \<lparr>msg_Type = ''subscribe'', msg_Channel = ch, msg_Token = [], msg_Data = []\<rparr>"
proof -
  let ?ms = "[(''channel'', json_string True ch, JStr ch), (''type'', json_string True ''subscribe'', JStr ''subscribe'')]"
  have "\<forall>(k, e, v) \<in> set ?ms. plain_key k \<and> enc_val (Suc 0) e v"
    using assms by (simp add: enc_val_str plain_utf8 plain_key_def)
  from parse_object [OF _ this] have "json_parse (subscribe_payload ch) = Some (JObj (map (\<lambda>(k, e, v). (k, v, e)) ?ms))"
    by (simp add: subscribe_payload_def)
  then show ?thesis by (simp add: Unmarshal_incoming_def json_Unmarshal_def decode_struct_def str_field_def)
qed

text \<open>
  C28: The load generator measures what it says. A publish it sends is decoded by the server as a publish on
  its channel; and when the event frame the server makes of it reaches a reader of the load generator,
  one event is counted and the latency sampled is exactly the time of arrival less the time that
  was stamped into the message, through both encodings and the server's compaction.
\<close>

theorem latency_measured:
  assumes "utf8_Valid ch" "utf8_Valid ident" "0 < t" "t < 2 ^ 63"
  shows "\<exists>msg. Unmarshal_incoming (publish_payload ch t) = Some msg \<and> msg_Type msg = ''publish'' \<and> msg_Channel msg = ch \<and>
    read_frame (event_frame (msg_Channel msg) (msg_Data msg) ident, now, True) (c, samples) =
      (c\<lparr>recv := recv c + 1\<rparr>, samples @ [now - t])"
proof -
  obtain m u where p: "parse_val m 1 (stamp t) = Some (JObj [(''t'', JNum (FormatInt t), FormatInt t)], u)" "stamp t = consumed (skip_ws (stamp t)) u"
    using stamp_piece [of 1 t] by (auto simp: maxNestingDepth_def)
  have "json_parse (event_frame ch (stamp t) ident) = Some (JObj [(''channel'', JStr ch, json_string False ch),
      (''data'', compact_json (JObj [(''t'', JNum (FormatInt t), FormatInt t)]), Json.compact False (stamp t)),
      (''id'', JStr ident, json_string False ident), (''type'', JStr ''event'', json_string False ''event'')])"
    by (rule parse_event [OF assms(1,2)]) (use p in blast)
  then have "read_frame (event_frame ch (stamp t) ident, now, True) (c, samples) = (c\<lparr>recv := recv c + 1\<rparr>, samples @ [now - t])"
    using assms(3) Unmarshal_stamp [of t] assms(4)
    by (simp add: read_frame_def json_Unmarshal_def decode_struct_def str_field_def)
  with server_reads_publish [OF assms(1)] show ?thesis by (intro exI [of _ "\<lparr>msg_Type = ''publish'', msg_Channel = ch, msg_Token = [], msg_Data = stamp t\<rparr>"]) simp
qed

theorem latency_measured_witness:
  "\<exists>msg. Unmarshal_incoming (publish_payload ''loadtest-7'' 1700) = Some msg \<and>
     snd (read_frame (event_frame ''loadtest-7'' (msg_Data msg) ''01'', 1950, True) (counters_zero, [3])) = [3, 250]"
proof -
  have u: "utf8_Valid ''loadtest-7''" "utf8_Valid ''01''" by simp_all
  from latency_measured [OF u, of 1700 1950 counters_zero "[3]"] show ?thesis by auto
qed

subsection \<open>The handshake\<close>

lemma ack_of_event:
  assumes "Unmarshal_incoming raw = Some msg" "utf8_Valid ident"
  shows "\<exists>st. json_Unmarshal ack_fields (event_frame (msg_Channel msg) (msg_Data msg) ident) = Some st \<and> str_field ''type'' st = ''event''"
proof -
  have "\<exists>e v. msg_Data msg = [] \<and> e = ''null'' \<and> v = JNull \<or> (\<exists>m w t u. parse_val m 1 t = Some (w, u) \<and>
      msg_Data msg = consumed (skip_ws t) u \<and> v = compact_json w \<and> e = Json.compact False (msg_Data msg))"
    using data_piece [OF assms(1)] by (cases "msg_Data msg = []") blast+
  then obtain e v where "json_parse (event_frame (msg_Channel msg) (msg_Data msg) ident) =
      Some (JObj [(''channel'', JStr (msg_Channel msg), json_string False (msg_Channel msg)),
        (''data'', v, e), (''id'', JStr ident, json_string False ident), (''type'', JStr ''event'', json_string False ''event'')])"
    using parse_event [OF conjunct1 [OF msg_fields_utf8 [OF assms(1)]] assms(2)] by metis
  then show ?thesis by (simp add: json_Unmarshal_def decode_struct_def str_field_def)
qed

lemma parse_strings:
  assumes "kvs \<noteq> []" "list_all (\<lambda>(k, v). plain_key k \<and> utf8_Valid v) kvs"
  shows "json_parse (json_object (map (\<lambda>(k, v). (k, json_string h v)) kvs)) = Some (JObj (map (\<lambda>(k, v). (k, JStr v, json_string h v)) kvs))"
proof -
  let ?kvs = "map (\<lambda>(k, v). (k, json_string h v, JStr v)) kvs"
  have "\<forall>(k, e, v) \<in> set ?kvs. plain_key k \<and> enc_val (Suc 0) e v" using assms(2) by (auto simp: list_all_iff enc_val_str)
  from parse_object [OF _ this] assms(1) show ?thesis by (simp add: case_prod_unfold comp_def)
qed

lemma ack_of_ack:
  assumes "utf8_Valid ch"
  shows "\<exists>st. json_Unmarshal ack_fields (ack_frame ''subscribed'' ch) = Some st \<and> str_field ''type'' st = ''subscribed''"
proof -
  have "ack_frame ''subscribed'' ch = json_object (map (\<lambda>(k, v). (k, json_string False v)) [(''channel'', ch), (''type'', ''subscribed'')])"
    using marshalFrame_strings [of "[(''channel'', ch), (''type'', ''subscribed'')]"] by (simp add: ack_frame_def)
  with parse_strings [of "[(''channel'', ch), (''type'', ''subscribed'')]" False] assms
  have "json_parse (ack_frame ''subscribed'' ch) = Some (JObj [(''channel'', JStr ch, json_string False ch), (''type'', JStr ''subscribed'', json_string False ''subscribed'')])"
    by (simp add: plain_key_def)
  then show ?thesis by (simp add: json_Unmarshal_def decode_struct_def str_field_def)
qed

lemma ack_of_error:
  assumes "ef_Type f = ''error''" "list_all utf8_Valid [ef_Code f, ef_Message f, ef_Op f, ef_Channel f]"
  shows "\<exists>st. json_Unmarshal ack_fields (marshal_errorFrame f) = Some st \<and> str_field ''type'' st = ''error'' \<and> str_field ''code'' st = ef_Code f"
proof -
  have "list_all (\<lambda>(k, v). plain_key k \<and> utf8_Valid v) (error_members f)"
    using assms by (simp add: error_members_def plain_key_def)
  then have "json_parse (marshal_errorFrame f) = Some (JObj (map (\<lambda>(k, v). (k, JStr v, json_string False v)) (error_members f)))"
    unfolding marshal_errorFrame_object by (intro parse_strings) (simp_all add: error_members_def)
  then show ?thesis using assms(1)
    by (cases "ef_Op f = []"; cases "ef_Channel f = []")
      (simp_all add: json_Unmarshal_def decode_struct_def str_field_def error_members_def)
qed

lemma await_skips:
  assumes "\<forall>b \<in> set evs. \<exists>st. json_Unmarshal ack_fields b = Some st \<and> str_field ''type'' st = ''event''"
  shows "await_ack (evs @ rest) c = await_ack rest c"
  using assms by (induction evs) fastforce+

text \<open>
  The load generator's handshake understands the server. However many events of other clients arrive on the
  busy channel first, the server's acknowledgement of the subscribe establishes the connection, and an
  error frame instead of it fails the connection and is tallied under the code the server gave.
\<close>

theorem handshake_understands_server:
  assumes evs: "\<forall>b \<in> set evs. \<exists>raw msg ident. Unmarshal_incoming raw = Some msg \<and> utf8_Valid ident \<and>
      b = event_frame (msg_Channel msg) (msg_Data msg) ident"
    and "utf8_Valid ch" "list_all utf8_Valid [code, message]" "code \<noteq> []" "Unmarshal_incoming sub = Some msg"
  shows "await_ack (evs @ ack_frame ''subscribed'' ch # rest) c = (True, c) \<and>
    await_ack (evs @ marshal_errorFrame (op_error_frame msg code message) # rest) c =
      (False, countErr code (c\<lparr>subFailed := subFailed c + 1\<rparr>))"
proof -
  have skip: "await_ack (evs @ r) c = await_ack r c" for r
    using evs ack_of_event by (intro await_skips) fastforce
  let ?f = "op_error_frame msg code message"
  have f: "ef_Type ?f = ''error''" "ef_Code ?f = code" "list_all utf8_Valid [ef_Code ?f, ef_Message ?f, ef_Op ?f, ef_Channel ?f]"
    using assms(3) msg_fields_utf8 [OF assms(5)] by (auto simp: op_error_frame_def Let_def)
  obtain st where "json_Unmarshal ack_fields (marshal_errorFrame ?f) = Some st" "str_field ''type'' st = ''error''" "str_field ''code'' st = code"
    using ack_of_error [OF f(1,3)] f(2) by auto
  with ack_of_ack [OF assms(2)] assms(4) skip show ?thesis by auto
qed

theorem handshake_understands_server_witness:
  "await_ack [event_frame ''a'' (stamp 7) ''01'', ack_frame ''subscribed'' ''a''] counters_zero = (True, counters_zero) \<and>
   fst (await_ack [event_frame ''a'' (stamp 7) ''01'', marshal_errorFrame (op_error_frame
     \<lparr>msg_Type = ''subscribe'', msg_Channel = ''a'', msg_Token = [], msg_Data = []\<rparr> ''RATE_LIMITED'' ''x'')] counters_zero) = False"
proof -
  let ?p = "\<lparr>msg_Type = ''publish'', msg_Channel = ''a'', msg_Token = [], msg_Data = stamp 7\<rparr>"
  let ?s = "\<lparr>msg_Type = ''subscribe'', msg_Channel = ''a'', msg_Token = [], msg_Data = []\<rparr>"
  have u: "utf8_Valid ''a''" "utf8_Valid ''01''" "list_all utf8_Valid [''RATE_LIMITED'', ''x'']" "''RATE_LIMITED'' \<noteq> []" by simp_all
  have p: "Unmarshal_incoming (publish_payload ''a'' 7) = Some ?p" by (rule server_reads_publish [OF u(1)])
  have s: "Unmarshal_incoming (subscribe_payload ''a'') = Some ?s" by (rule server_reads_subscribe [OF u(1)])
  have e: "\<forall>b \<in> set [event_frame ''a'' (stamp 7) ''01'']. \<exists>raw msg ident. Unmarshal_incoming raw = Some msg \<and> utf8_Valid ident \<and>
      b = event_frame (msg_Channel msg) (msg_Data msg) ident"
    using p u(2) by fastforce
  from handshake_understands_server [OF e u(1,3,4) s, of "[]" counters_zero] show ?thesis by simp
qed

end
