(* ===== verification/Store.thy ===== *)
theory Store
  imports Auth
begin

text \<open>
  \<open>internal/store\<close>: the API keys. \<open>store.go\<close> has the interface, \<open>memory.go\<close> and \<open>sqlite.go\<close> its two
  implementations. Clock readings and fresh ULIDs are arguments.

  The SQLite store runs four SQL statements on the table \<open>keys\<close>. A statement either fails, which is an
  argument (\<open>fault\<close>, the driver's error) and leaves the table as it was, or has the effect its text
  says; \<open>id\<close> is the primary key, so an \<open>INSERT\<close> of an id that is present also fails. Neither a Go map nor
  a \<open>SELECT\<close> promises an order: the theorems speak of the set of keys listed, never of their order.

  \<open>key_store\<close> is what the rest of the program relies on; both stores are shown to provide it, so over
  any history they hold the same keys, to the millisecond SQLite stores.
\<close>

datatype store_error = ErrKeyNotFound | StoreFailed string

record Key =
  ID :: string
  KName :: string
  SecretHash :: string
  CreatedAt :: int
  RevokedAt :: "int option"

subsection \<open>Memory\<close>

type_synonym memoryStore = "(string, Key) gomap"

definition NewMemory :: memoryStore where
  "NewMemory = []"

definition memory_CreateKey :: "string \<Rightarrow> int \<Rightarrow> string \<Rightarrow> string \<Rightarrow> memoryStore \<Rightarrow> (store_error + Key) \<times> memoryStore" where
  "memory_CreateKey ulid now name secretHash m =
    (let k = \<lparr>ID = ulid, KName = name, SecretHash = secretHash, CreatedAt = now, RevokedAt = None\<rparr>
     in (Inr k, gm_put (ID k) k m))"

definition memory_LookupKey :: "string \<Rightarrow> memoryStore \<Rightarrow> store_error + Key" where
  "memory_LookupKey i m = (case gm_get m i of None \<Rightarrow> Inl ErrKeyNotFound | Some k \<Rightarrow> Inr k)"

definition memory_ListKeys :: "memoryStore \<Rightarrow> store_error + Key list" where
  "memory_ListKeys m = Inr (map snd m)"

definition memory_RevokeKey :: "int \<Rightarrow> string \<Rightarrow> memoryStore \<Rightarrow> store_error option \<times> memoryStore" where
  "memory_RevokeKey now i m =
    (case gm_get m i of
       None \<Rightarrow> (Some ErrKeyNotFound, m)
     | Some k \<Rightarrow> (None, gm_put i (k\<lparr>RevokedAt := Some now\<rparr>) m))"

subsection \<open>SQLite\<close>

record keyColumn =
  col_name :: string
  notNull :: int
  pk :: int

record row =
  r_id :: string
  r_name :: string
  r_secret_hash :: string
  r_created_at :: int
  r_revoked_at :: "int option"

text \<open>
  A database file: its schema version, whether its header says WAL journaling, its tables with their
  columns, and the rows of \<open>keys\<close>.
\<close>

record database =
  user_version :: int
  journal_wal :: bool
  tables :: "(string \<times> keyColumn list) list"
  key_rows :: "row list"

definition sqlite_CreateKey ::
  "string option \<Rightarrow> string \<Rightarrow> int \<Rightarrow> string \<Rightarrow> string \<Rightarrow> database \<Rightarrow> (store_error + Key) \<times> database" where
  "sqlite_CreateKey fault ulid now name secretHash db =
    (let k = \<lparr>ID = ulid, KName = name, SecretHash = secretHash, CreatedAt = now, RevokedAt = None\<rparr>
     in case fault of
          Some e \<Rightarrow> (Inl (StoreFailed e), db)
        | None \<Rightarrow>
            if ulid \<in> r_id ` set (key_rows db) then (Inl (StoreFailed ''UNIQUE constraint failed: keys.id''), db)
            else (Inr k, db\<lparr>key_rows := key_rows db @
              [\<lparr>r_id = ID k, r_name = KName k, r_secret_hash = SecretHash k, r_created_at = UnixMilli (CreatedAt k), r_revoked_at = None\<rparr>]\<rparr>))"

text \<open>\<open>Scan\<close> of one row.\<close>

definition scan_key :: "row \<Rightarrow> Key" where
  "scan_key r = \<lparr>ID = r_id r, KName = r_name r, SecretHash = r_secret_hash r,
     CreatedAt = time_UnixMilli (r_created_at r), RevokedAt = map_option time_UnixMilli (r_revoked_at r)\<rparr>"

definition sqlite_LookupKey :: "string option \<Rightarrow> string \<Rightarrow> database \<Rightarrow> store_error + Key" where
  "sqlite_LookupKey fault i db =
    (case fault of
       Some e \<Rightarrow> Inl (StoreFailed e)
     | None \<Rightarrow> (case find (\<lambda>r. r_id r = i) (key_rows db) of
         None \<Rightarrow> Inl ErrKeyNotFound
       | Some r \<Rightarrow> Inr (scan_key r)))"

definition sqlite_ListKeys :: "string option \<Rightarrow> database \<Rightarrow> store_error + Key list" where
  "sqlite_ListKeys fault db = (case fault of Some e \<Rightarrow> Inl (StoreFailed e) | None \<Rightarrow> Inr (map scan_key (key_rows db)))"

definition sqlite_RevokeKey :: "string option \<Rightarrow> int \<Rightarrow> string \<Rightarrow> database \<Rightarrow> store_error option \<times> database" where
  "sqlite_RevokeKey fault now i db =
    (case fault of
       Some e \<Rightarrow> (Some (StoreFailed e), db)
     | None \<Rightarrow>
         let db' = db\<lparr>key_rows := map (\<lambda>r. if r_id r = i then r\<lparr>r_revoked_at := Some (UnixMilli now)\<rparr> else r) (key_rows db)\<rparr>;
             n = length (filter (\<lambda>r. r_id r = i) (key_rows db))
         in if n = 0 then (Some ErrKeyNotFound, db') else (None, db'))"

subsection \<open>The interface\<close>

datatype store = MemoryStore memoryStore | SqliteStore database

fun st_CreateKey :: "string option \<Rightarrow> string \<Rightarrow> int \<Rightarrow> string \<Rightarrow> string \<Rightarrow> store \<Rightarrow> (store_error + Key) \<times> store" where
  "st_CreateKey fault ulid now name h (MemoryStore m) = (case memory_CreateKey ulid now name h m of (r, m') \<Rightarrow> (r, MemoryStore m'))"
| "st_CreateKey fault ulid now name h (SqliteStore d) = (case sqlite_CreateKey fault ulid now name h d of (r, d') \<Rightarrow> (r, SqliteStore d'))"

fun st_LookupKey :: "string option \<Rightarrow> string \<Rightarrow> store \<Rightarrow> store_error + Key" where
  "st_LookupKey fault i (MemoryStore m) = memory_LookupKey i m"
| "st_LookupKey fault i (SqliteStore d) = sqlite_LookupKey fault i d"

fun st_ListKeys :: "string option \<Rightarrow> store \<Rightarrow> store_error + Key list" where
  "st_ListKeys fault (MemoryStore m) = memory_ListKeys m"
| "st_ListKeys fault (SqliteStore d) = sqlite_ListKeys fault d"

fun st_RevokeKey :: "string option \<Rightarrow> int \<Rightarrow> string \<Rightarrow> store \<Rightarrow> store_error option \<times> store" where
  "st_RevokeKey fault now i (MemoryStore m) = (case memory_RevokeKey now i m of (r, m') \<Rightarrow> (r, MemoryStore m'))"
| "st_RevokeKey fault now i (SqliteStore d) = (case sqlite_RevokeKey fault now i d of (r, d') \<Rightarrow> (r, SqliteStore d'))"

subsection \<open>What a key store promises\<close>

text \<open>The times of a key as SQLite keeps them.\<close>

definition to_ms :: "int \<Rightarrow> int" where
  "to_ms t = time_UnixMilli (UnixMilli t)"

definition ms_key :: "Key \<Rightarrow> Key" where
  "ms_key k = k\<lparr>CreatedAt := to_ms (CreatedAt k), RevokedAt := map_option to_ms (RevokedAt k)\<rparr>"

definition new_key :: "string \<Rightarrow> int \<Rightarrow> string \<Rightarrow> string \<Rightarrow> Key" where
  "new_key ulid now name h = \<lparr>ID = ulid, KName = name, SecretHash = h, CreatedAt = now, RevokedAt = None\<rparr>"

text \<open>A history, and the map of keys it describes.\<close>

datatype store_op = OpCreate string int string string | OpRevoke int string

fun store_step ::
  "(string \<Rightarrow> int \<Rightarrow> string \<Rightarrow> string \<Rightarrow> 's \<Rightarrow> (store_error + Key) \<times> 's) \<Rightarrow> (int \<Rightarrow> string \<Rightarrow> 's \<Rightarrow> store_error option \<times> 's) \<Rightarrow>
   store_op \<Rightarrow> 's \<Rightarrow> 's" where
  "store_step create revoke (OpCreate i t n h) s = snd (create i t n h s)"
| "store_step create revoke (OpRevoke t i) s = snd (revoke t i s)"

fun spec_step :: "store_op \<Rightarrow> (string \<rightharpoonup> Key) \<Rightarrow> (string \<rightharpoonup> Key)" where
  "spec_step (OpCreate i t n h) m = m(i \<mapsto> ms_key (new_key i t n h))"
| "spec_step (OpRevoke t i) m = (case m i of None \<Rightarrow> m | Some k \<Rightarrow> m(i \<mapsto> k\<lparr>RevokedAt := Some (to_ms t)\<rparr>))"

fun fresh_ops :: "store_op list \<Rightarrow> string set \<Rightarrow> bool" where
  "fresh_ops [] D = True"
| "fresh_ops (OpCreate i t n h # ops) D = (i \<notin> D \<and> fresh_ops ops (insert i D))"
| "fresh_ops (OpRevoke t i # ops) D = fresh_ops ops D"

text \<open>
  A key store holds a finite map from ids to keys. Keys are compared with their times cut to
  milliseconds.
\<close>

locale key_store =
  fixes create :: "string \<Rightarrow> int \<Rightarrow> string \<Rightarrow> string \<Rightarrow> 's \<Rightarrow> (store_error + Key) \<times> 's"
    and lookup :: "string \<Rightarrow> 's \<Rightarrow> store_error + Key"
    and list_keys :: "'s \<Rightarrow> store_error + Key list"
    and revoke :: "int \<Rightarrow> string \<Rightarrow> 's \<Rightarrow> store_error option \<times> 's"
    and abs :: "'s \<Rightarrow> (string \<rightharpoonup> Key)"
    and ok :: "'s \<Rightarrow> bool"
  assumes create_fresh: "ok s \<Longrightarrow> abs s i = None \<Longrightarrow> \<exists>s'. create i t n h s = (Inr (new_key i t n h), s') \<and>
      ok s' \<and> abs s' = (abs s)(i \<mapsto> ms_key (new_key i t n h))"
    and lookup_abs: "ok s \<Longrightarrow> map_sum id ms_key (lookup i s) = (case abs s i of None \<Rightarrow> Inl ErrKeyNotFound | Some k \<Rightarrow> Inr k)"
    and list_abs: "ok s \<Longrightarrow> \<exists>ks. list_keys s = Inr ks \<and> distinct (map ID ks) \<and> ms_key ` set ks = ran (abs s)"
    and revoke_none: "ok s \<Longrightarrow> abs s i = None \<Longrightarrow> revoke t i s = (Some ErrKeyNotFound, s)"
    and revoke_some: "ok s \<Longrightarrow> abs s i = Some k \<Longrightarrow> \<exists>s'. revoke t i s = (None, s') \<and>
      ok s' \<and> abs s' = (abs s)(i \<mapsto> k\<lparr>RevokedAt := Some (to_ms t)\<rparr>)"
    and abs_id: "ok s \<Longrightarrow> abs s i = Some k \<Longrightarrow> ID k = i"
begin

text \<open>Over any history in which new ids are fresh, the store is the map the history describes.\<close>

lemma run_abs:
  "ok s \<Longrightarrow> fresh_ops ops (dom (abs s)) \<Longrightarrow>
   ok (fold (store_step create revoke) ops s) \<and> abs (fold (store_step create revoke) ops s) = fold spec_step ops (abs s)"
proof (induction ops arbitrary: s)
  case (Cons x ops)
  show ?case
  proof (cases x)
    case (OpCreate i t n h)
    then have "abs s i = None" using Cons.prems(2) by auto
    from create_fresh [OF Cons.prems(1) this, of t n h] obtain s'
      where s': "create i t n h s = (Inr (new_key i t n h), s')" "ok s'" "abs s' = (abs s)(i \<mapsto> ms_key (new_key i t n h))" by blast
    have "dom (abs s') = insert i (dom (abs s))" unfolding s'(3) by simp
    then have "fresh_ops ops (dom (abs s'))" using Cons.prems(2) OpCreate by simp
    from Cons.IH [OF s'(2) this] show ?thesis
      unfolding OpCreate fold_Cons comp_def store_step.simps spec_step.simps s'(1) snd_conv s'(3) .
  next
    case (OpRevoke t i)
    show ?thesis
    proof (cases "abs s i")
      case None
      then show ?thesis using Cons.IH [OF Cons.prems(1)] Cons.prems OpRevoke revoke_none [OF Cons.prems(1) None, of t] by simp
    next
      case (Some k)
      from revoke_some [OF Cons.prems(1) Some, of t] obtain s'
        where s': "revoke t i s = (None, s')" "ok s'" "abs s' = (abs s)(i \<mapsto> k\<lparr>RevokedAt := Some (to_ms t)\<rparr>)" by blast
      have "dom (abs s') = dom (abs s)" using Some s'(3) by auto
      then have "fresh_ops ops (dom (abs s'))" using Cons.prems(2) OpRevoke by simp
      from Cons.IH [OF s'(2) this] show ?thesis
        unfolding OpRevoke fold_Cons comp_def store_step.simps spec_step.simps s'(1) snd_conv Some option.case s'(3) .
    qed
  qed
qed simp

lemma revoke_answer: "ok s \<Longrightarrow> fst (revoke t i s) = (if abs s i = None then Some ErrKeyNotFound else None)"
  using revoke_none [of s i t] revoke_some [of s i _ t] by (cases "abs s i") fastforce+

end

subsection \<open>Both stores keep the promise\<close>

text \<open>\<open>AList.update\<close> on a key that is present keeps the others; its values are the updated map's.\<close>

lemma gm_ran: "gm_ok m \<Longrightarrow> snd ` set m = ran (gm_get m)"
  by (simp add: ran_distinct)

definition memory_ok :: "memoryStore \<Rightarrow> bool" where
  "memory_ok m \<longleftrightarrow> gm_ok m \<and> (\<forall>(i, k) \<in> set m. ID k = i)"

definition memory_abs :: "memoryStore \<Rightarrow> (string \<rightharpoonup> Key)" where
  "memory_abs m = map_option ms_key \<circ> gm_get m"

lemma memory_okD: "memory_ok m \<Longrightarrow> gm_get m i = Some k \<Longrightarrow> ID k = i"
  unfolding memory_ok_def by (metis (mono_tags, lifting) case_prodD map_of_SomeD)

lemma memory_ok_put:
  assumes "memory_ok m" "ID k = i"
  shows "memory_ok (gm_put i k m)"
proof -
  have ok: "gm_ok m" "gm_ok (gm_put i k m)" using assms(1) by (simp_all add: memory_ok_def)
  have "ID k' = j" if "(j, k') \<in> set (gm_put i k m)" for j k'
  proof -
    have "gm_get (gm_put i k m) j = Some k'" using gm_get_in_set [OF ok(2), of j k'] that by blast
    then show ?thesis using assms memory_okD [OF assms(1), of j k'] by (simp split: if_splits)
  qed
  with ok(2) show ?thesis by (auto simp: memory_ok_def)
qed

interpretation mem: key_store memory_CreateKey memory_LookupKey memory_ListKeys memory_RevokeKey memory_abs memory_ok
proof (unfold_locales, goal_cases)
  case (1 s i t n h)
  then show ?case
    by (auto simp: memory_CreateKey_def Let_def new_key_def memory_abs_def fun_eq_iff intro: memory_ok_put)
next
  case (2 s i)
  then show ?case by (auto simp: memory_LookupKey_def memory_abs_def split: option.split)
next
  case (3 s)
  have "map (ID \<circ> snd) s = map fst s" using 3 by (auto simp: memory_ok_def)
  then have "distinct (map ID (map snd s))" using 3 by (simp add: memory_ok_def del: map_eq_conv)
  moreover have "ms_key ` snd ` set s = ran (memory_abs s)"
    using 3 by (auto simp: memory_ok_def gm_ran memory_abs_def ran_def)
  ultimately show ?case by (simp add: memory_ListKeys_def image_comp)
next
  case (4 s i t)
  then show ?case by (simp add: memory_RevokeKey_def memory_abs_def)
next
  case (5 s i k t)
  then obtain k0 where k0: "gm_get s i = Some k0" "k = ms_key k0" by (auto simp: memory_abs_def)
  have "ID (k0\<lparr>RevokedAt := Some t\<rparr>) = i" using memory_okD [OF 5(1) k0(1)] by simp
  then show ?case using 5(1) k0 by (auto simp: memory_RevokeKey_def memory_abs_def fun_eq_iff ms_key_def intro: memory_ok_put)
next
  case (6 s i k)
  then show ?case using memory_okD by (auto simp: memory_abs_def ms_key_def)
qed

definition sqlite_ok :: "database \<Rightarrow> bool" where
  "sqlite_ok db \<longleftrightarrow> distinct (map r_id (key_rows db))"

definition sqlite_abs :: "database \<Rightarrow> (string \<rightharpoonup> Key)" where
  "sqlite_abs db i = map_option scan_key (find (\<lambda>r. r_id r = i) (key_rows db))"

lemma find_append: "find P (xs @ ys) = (case find P xs of None \<Rightarrow> find P ys | Some x \<Rightarrow> Some x)"
  by (induction xs) auto

lemma find_map_row:
  "(\<And>r. r_id (f r) = r_id r) \<Longrightarrow> find (\<lambda>r. r_id r = i) (map f rs) = map_option f (find (\<lambda>r. r_id r = i) rs)"
  by (induction rs) auto

lemma find_row: "find (\<lambda>r. r_id r = i) rs = Some r \<Longrightarrow> r \<in> set rs \<and> r_id r = i"
  by (auto simp: find_Some_iff)

lemma find_row_distinct: "distinct (map r_id rs) \<Longrightarrow> r \<in> set rs \<Longrightarrow> find (\<lambda>x. r_id x = r_id r) rs = Some r"
  by (induction rs) auto

lemma to_ms_stored [simp]: "to_ms (time_UnixMilli x) = time_UnixMilli x"
  by (simp add: to_ms_def UnixMilli_def time_UnixMilli_def)

lemma ms_scan [simp]: "ms_key (scan_key r) = scan_key r"
  by (simp add: ms_key_def scan_key_def option.map_comp comp_def)

interpretation sql: key_store "sqlite_CreateKey None" "sqlite_LookupKey None" "sqlite_ListKeys None" "sqlite_RevokeKey None" sqlite_abs sqlite_ok
proof (unfold_locales, goal_cases)
  case (1 s i t n h)
  have "i \<notin> r_id ` set (key_rows s)" using 1(2) by (auto simp: sqlite_abs_def find_None_iff)
  then show ?case using 1
    by (auto simp: sqlite_CreateKey_def Let_def new_key_def sqlite_ok_def sqlite_abs_def fun_eq_iff find_append
        ms_key_def scan_key_def to_ms_def split: option.split)
next
  case (2 s i)
  then show ?case by (auto simp: sqlite_LookupKey_def sqlite_abs_def split: option.split)
next
  case (3 s)
  have "map (ID \<circ> scan_key) (key_rows s) = map r_id (key_rows s)" by (simp add: scan_key_def)
  then have "distinct (map ID (map scan_key (key_rows s)))" using 3 by (simp add: sqlite_ok_def del: map_eq_conv)
  moreover have "scan_key ` set (key_rows s) = ran (sqlite_abs s)"
  proof
    show "scan_key ` set (key_rows s) \<subseteq> ran (sqlite_abs s)"
    proof
      fix k assume "k \<in> scan_key ` set (key_rows s)"
      then obtain r where r: "r \<in> set (key_rows s)" "k = scan_key r" by blast
      have "find (\<lambda>x. r_id x = r_id r) (key_rows s) = Some r" using 3 r(1) by (intro find_row_distinct) (simp_all add: sqlite_ok_def)
      then have "sqlite_abs s (r_id r) = Some k" using r(2) by (simp add: sqlite_abs_def)
      then show "k \<in> ran (sqlite_abs s)" by (rule ranI)
    qed
    show "ran (sqlite_abs s) \<subseteq> scan_key ` set (key_rows s)"
      by (auto simp: ran_def sqlite_abs_def dest: find_row)
  qed
  moreover have "ms_key ` set (map scan_key (key_rows s)) = scan_key ` set (key_rows s)" by (simp add: image_image)
  ultimately show ?case unfolding sqlite_ListKeys_def by (intro exI [of _ "map scan_key (key_rows s)"]) simp
next
  case (4 s i t)
  then have "\<forall>r \<in> set (key_rows s). r_id r \<noteq> i" by (auto simp: sqlite_abs_def find_None_iff)
  then have "filter (\<lambda>r. r_id r = i) (key_rows s) = []"
    "map (\<lambda>r. if r_id r = i then r\<lparr>r_revoked_at := Some (UnixMilli t)\<rparr> else r) (key_rows s) = key_rows s"
    by (auto simp: filter_empty_conv intro: map_idI)
  then show ?case by (simp add: sqlite_RevokeKey_def)
next
  case (5 s i k t)
  then obtain r where r: "find (\<lambda>r. r_id r = i) (key_rows s) = Some r" "k = scan_key r" by (auto simp: sqlite_abs_def)
  let ?f = "\<lambda>r. if r_id r = i then r\<lparr>r_revoked_at := Some (UnixMilli t)\<rparr> else r"
  have ne: "filter (\<lambda>r. r_id r = i) (key_rows s) \<noteq> []" using find_row [OF r(1)] by (auto simp: filter_empty_conv)
  have ids: "map (r_id \<circ> ?f) (key_rows s) = map r_id (key_rows s)" by auto
  have ab: "sqlite_abs (s\<lparr>key_rows := map ?f (key_rows s)\<rparr>) = (sqlite_abs s)(i \<mapsto> k\<lparr>RevokedAt := Some (to_ms t)\<rparr>)"
  proof
    fix j
    have kr: "key_rows (s\<lparr>key_rows := x\<rparr>) = x" for x by simp
    have "find (\<lambda>r. r_id r = j) (map ?f (key_rows s)) = map_option ?f (find (\<lambda>r. r_id r = j) (key_rows s))"
      by (rule find_map_row) simp
    then have eq: "sqlite_abs (s\<lparr>key_rows := map ?f (key_rows s)\<rparr>) j =
        map_option (scan_key \<circ> ?f) (find (\<lambda>r. r_id r = j) (key_rows s))"
      by (simp only: sqlite_abs_def kr option.map_comp)
    show "sqlite_abs (s\<lparr>key_rows := map ?f (key_rows s)\<rparr>) j = ((sqlite_abs s)(i \<mapsto> k\<lparr>RevokedAt := Some (to_ms t)\<rparr>)) j"
    proof (cases "j = i")
      case True
      have "scan_key (?f r) = k\<lparr>RevokedAt := Some (to_ms t)\<rparr>"
        using find_row [OF r(1)] by (simp add: r(2) scan_key_def to_ms_def)
      with True show ?thesis unfolding eq by (simp add: r(1))
    next
      case False
      have "?f x = x" if "find (\<lambda>r. r_id r = j) (key_rows s) = Some x" for x
        using find_row [OF that] False by simp
      with False show ?thesis unfolding eq
        by (cases "find (\<lambda>r. r_id r = j) (key_rows s)") (simp_all add: sqlite_abs_def)
    qed
  qed
  have "sqlite_RevokeKey None t i s = (None, s\<lparr>key_rows := map ?f (key_rows s)\<rparr>)"
    using ne by (simp add: sqlite_RevokeKey_def)
  moreover have "sqlite_ok (s\<lparr>key_rows := map ?f (key_rows s)\<rparr>)"
    using 5(1) ids by (simp add: sqlite_ok_def del: map_eq_conv)
  ultimately show ?case using ab by blast
next
  case (6 s i k)
  then obtain r where r: "find (\<lambda>r. r_id r = i) (key_rows s) = Some r" "k = scan_key r" by (auto simp: sqlite_abs_def)
  show ?case using find_row [OF r(1)] r(2) by (simp add: scan_key_def)
qed

subsection \<open>The two stores agree\<close>

text \<open>
  C33: The memory store and the SQLite store are interchangeable. After any history of creates and
  revokes with fresh ids and no driver error, both refine the same map: every lookup gives the same
  answer, the lists hold the same keys, each once, and a further revoke answers alike, with times
  compared as SQLite keeps them, in milliseconds.
\<close>

theorem stores_agree:
  assumes "fresh_ops ops {}" "key_rows db = []"
  shows "let m = fold (store_step memory_CreateKey memory_RevokeKey) ops NewMemory;
             d = fold (store_step (sqlite_CreateKey None) (sqlite_RevokeKey None)) ops db
         in map_sum id ms_key (memory_LookupKey i m) = sqlite_LookupKey None i d \<and>
            (\<exists>ks ls. memory_ListKeys m = Inr ks \<and> sqlite_ListKeys None d = Inr ls \<and>
               ms_key ` set ks = set ls \<and> distinct (map ID ks) \<and> distinct (map ID ls)) \<and>
            fst (memory_RevokeKey t i m) = fst (sqlite_RevokeKey None t i d)"
proof -
  define m where "m = fold (store_step memory_CreateKey memory_RevokeKey) ops NewMemory"
  define d where "d = fold (store_step (sqlite_CreateKey None) (sqlite_RevokeKey None)) ops db"
  have i: "memory_ok NewMemory" "sqlite_ok db" "memory_abs NewMemory = Map.empty" "sqlite_abs db = Map.empty"
    using assms(2) by (simp_all add: memory_ok_def NewMemory_def sqlite_ok_def memory_abs_def sqlite_abs_def fun_eq_iff)
  have rm: "memory_ok m" "memory_abs m = fold spec_step ops Map.empty"
    using mem.run_abs [OF i(1)] assms(1) i(3) by (simp_all add: m_def)
  have rs: "sqlite_ok d" "sqlite_abs d = fold spec_step ops Map.empty"
    using sql.run_abs [OF i(2)] assms(1) i(4) by (simp_all add: d_def)
  have ab: "memory_abs m = sqlite_abs d" using rm rs by simp
  have ms: "map_sum id ms_key (sqlite_LookupKey None i d) = sqlite_LookupKey None i d"
    by (simp add: sqlite_LookupKey_def split: option.split)
  obtain ks where ks: "memory_ListKeys m = Inr ks" "distinct (map ID ks)" "ms_key ` set ks = ran (memory_abs m)"
    using mem.list_abs [OF rm(1)] by blast
  obtain ls where ls: "sqlite_ListKeys None d = Inr ls" "distinct (map ID ls)" "ms_key ` set ls = ran (sqlite_abs d)"
    using sql.list_abs [OF rs(1)] by blast
  have "ms_key ` set ls = set ls" using ls(1) by (auto simp: sqlite_ListKeys_def image_image)
  with ks ls ab have "\<exists>ks ls. memory_ListKeys m = Inr ks \<and> sqlite_ListKeys None d = Inr ls \<and>
      ms_key ` set ks = set ls \<and> distinct (map ID ks) \<and> distinct (map ID ls)" by auto
  moreover have "map_sum id ms_key (memory_LookupKey i m) = sqlite_LookupKey None i d"
    using mem.lookup_abs [OF rm(1), of i] sql.lookup_abs [OF rs(1), of i] ab ms by simp
  moreover have "fst (memory_RevokeKey t i m) = fst (sqlite_RevokeKey None t i d)"
    using mem.revoke_answer [OF rm(1), of t i] sql.revoke_answer [OF rs(1), of t i] ab by simp
  ultimately show ?thesis unfolding Let_def m_def d_def by blast
qed

theorem stores_agree_witness:
  "map_sum id ms_key (memory_LookupKey ''a'' (snd (memory_RevokeKey 1999999 ''a'' (snd (memory_CreateKey ''a'' 1234567 ''n'' ''h'' NewMemory))))) =
   Inr \<lparr>ID = ''a'', KName = ''n'', SecretHash = ''h'', CreatedAt = 1000000, RevokedAt = Some 1000000\<rparr>"
proof -
  let ?db = "\<lparr>user_version = 1, journal_wal = True, tables = [], key_rows = []\<rparr>"
  have "fresh_ops [OpCreate ''a'' 1234567 ''n'' ''h'', OpRevoke 1999999 ''a''] {}" by simp
  from stores_agree [OF this, of ?db "''a''"]
  have "map_sum id ms_key (memory_LookupKey ''a'' (snd (memory_RevokeKey 1999999 ''a'' (snd (memory_CreateKey ''a'' 1234567 ''n'' ''h'' NewMemory))))) =
    sqlite_LookupKey None ''a'' (snd (sqlite_RevokeKey None 1999999 ''a'' (snd (sqlite_CreateKey None ''a'' 1234567 ''n'' ''h'' ?db))))"
    unfolding Let_def by simp
  also have "\<dots> = Inr \<lparr>ID = ''a'', KName = ''n'', SecretHash = ''h'', CreatedAt = 1000000, RevokedAt = Some 1000000\<rparr>" by code_simp
  finally show ?thesis .
qed

subsection \<open>Revocation is final\<close>

datatype any_op = AnyCreate "string option" string int string string | AnyRevoke "string option" int string

fun any_step :: "any_op \<Rightarrow> store \<Rightarrow> store" where
  "any_step (AnyCreate f i t n h) s = snd (st_CreateKey f i t n h s)"
| "any_step (AnyRevoke f t i) s = snd (st_RevokeKey f t i s)"

fun creates :: "string \<Rightarrow> any_op \<Rightarrow> bool" where
  "creates i (AnyCreate f j t n h) \<longleftrightarrow> j = i"
| "creates i (AnyRevoke f t j) \<longleftrightarrow> False"

fun revoked_in :: "string \<Rightarrow> store \<Rightarrow> bool" where
  "revoked_in i (MemoryStore m) \<longleftrightarrow> (\<exists>k. gm_get m i = Some k \<and> RevokedAt k \<noteq> None)"
| "revoked_in i (SqliteStore d) \<longleftrightarrow> (\<exists>r. find (\<lambda>r. r_id r = i) (key_rows d) = Some r \<and> r_revoked_at r \<noteq> None)"

lemma revoked_in_lookup: "revoked_in i s \<Longrightarrow> st_LookupKey f i s = Inr k \<Longrightarrow> RevokedAt k \<noteq> None"
  by (cases s; cases f) (auto simp: memory_LookupKey_def sqlite_LookupKey_def scan_key_def)

lemma revoke_revokes:
  assumes "st_RevokeKey f t i s = (None, s')"
  shows "revoked_in i s'"
proof (cases s)
  case (MemoryStore m)
  then show ?thesis using assms by (auto simp: memory_RevokeKey_def split: option.splits)
next
  case (SqliteStore d)
  let ?f = "\<lambda>r. if r_id r = i then r\<lparr>r_revoked_at := Some (UnixMilli t)\<rparr> else r"
  have s': "f = None" "filter (\<lambda>r. r_id r = i) (key_rows d) \<noteq> []" "s' = SqliteStore (d\<lparr>key_rows := map ?f (key_rows d)\<rparr>)"
    using assms SqliteStore by (auto simp: sqlite_RevokeKey_def Let_def split: option.splits if_splits prod.splits)
  then obtain r where r: "find (\<lambda>r. r_id r = i) (key_rows d) = Some r"
    by (cases "find (\<lambda>r. r_id r = i) (key_rows d)") (auto simp: find_None_iff filter_empty_conv)
  have "find (\<lambda>r. r_id r = i) (map ?f (key_rows d)) = map_option ?f (find (\<lambda>r. r_id r = i) (key_rows d))"
    by (rule find_map_row) simp
  then show ?thesis using r find_row [OF r] s'(3) by simp
qed

lemma revoked_in_step: "revoked_in i s \<Longrightarrow> \<not> creates i x \<Longrightarrow> revoked_in i (any_step x s)"
proof (cases s)
  case (MemoryStore m)
  assume "revoked_in i s" "\<not> creates i x"
  with MemoryStore show ?thesis
    by (cases x) (auto simp: memory_CreateKey_def memory_RevokeKey_def Let_def split: option.splits)
next
  case (SqliteStore d)
  assume a: "revoked_in i s" "\<not> creates i x"
  then obtain r where r: "find (\<lambda>r. r_id r = i) (key_rows d) = Some r" "r_revoked_at r \<noteq> None" using SqliteStore by auto
  show ?thesis
  proof (cases x)
    case (AnyCreate f j t n h)
    then show ?thesis using SqliteStore r
      by (auto simp: sqlite_CreateKey_def Let_def find_append split: option.splits)
  next
    case (AnyRevoke f t j)
    let ?f = "\<lambda>r. if r_id r = j then r\<lparr>r_revoked_at := Some (UnixMilli t)\<rparr> else r"
    have "find (\<lambda>r. r_id r = i) (map ?f (key_rows d)) = map_option ?f (find (\<lambda>r. r_id r = i) (key_rows d))"
      by (rule find_map_row) simp
    then show ?thesis using SqliteStore r AnyRevoke
      by (auto simp: sqlite_RevokeKey_def Let_def split: option.splits)
  qed
qed

text \<open>
  Revoking a key is final. Once \<open>RevokeKey\<close> has returned no error, no later history of creates
  (whose fresh ids are other ids) and revokes, with whatever driver errors in between, makes a lookup
  of that id return a key that is not revoked. This holds for both stores.
\<close>

theorem revoked_key_stays_revoked:
  assumes "st_RevokeKey f t i s = (None, s')" "\<forall>x \<in> set ops. \<not> creates i x"
    "st_LookupKey f' i (fold any_step ops s') = Inr k"
  shows "RevokedAt k \<noteq> None"
proof -
  have "revoked_in i (fold any_step ops s')" if "revoked_in i s'"
    using assms(2) that by (induction ops arbitrary: s') (auto simp: revoked_in_step)
  then show ?thesis using revoke_revokes [OF assms(1)] assms(3) revoked_in_lookup by blast
qed

theorem revoked_key_stays_revoked_witness:
  "let s1 = snd (st_CreateKey None ''a'' 5 ''n'' ''h'' (MemoryStore NewMemory));
       s2 = snd (st_RevokeKey None 7 ''a'' s1); s3 = snd (st_CreateKey None ''b'' 8 ''n'' ''h'' s2)
   in \<exists>k. st_LookupKey None ''a'' s3 = Inr k \<and> RevokedAt k \<noteq> None"
proof -
  define s1 where "s1 = snd (st_CreateKey None ''a'' 5 ''n'' ''h'' (MemoryStore NewMemory))"
  define s2 where "s2 = snd (st_RevokeKey None 7 ''a'' s1)"
  have r: "st_RevokeKey None 7 ''a'' s1 = (None, s2)"
    by (simp add: s2_def s1_def memory_CreateKey_def memory_RevokeKey_def NewMemory_def Let_def)
  have l: "st_LookupKey None ''a'' (fold any_step [AnyCreate None ''b'' 8 ''n'' ''h''] s2) =
      Inr \<lparr>ID = ''a'', KName = ''n'', SecretHash = ''h'', CreatedAt = 5, RevokedAt = Some 7\<rparr>"
    by (simp add: s2_def s1_def memory_CreateKey_def memory_RevokeKey_def memory_LookupKey_def NewMemory_def Let_def)
  from revoked_key_stays_revoked [OF r _ l] l show ?thesis by (simp add: Let_def s2_def s1_def)
qed

end
