(* ===== verification/Netip.thy ===== *)
theory Netip
  imports Go_Encoding
begin

text \<open>
  The part of \<open>net/netip\<close> that \<open>internal/server/upgrade.go\<close> uses: parsing and printing of addresses and
  prefixes, \<open>Unmap\<close>, \<open>WithZone\<close>, masking and \<open>Contains\<close>. An IPv4 address is its four octets, an IPv6
  address its eight 16-bit groups and its zone. The parsers follow the library's loops; \<open>None\<close> is its
  error.
\<close>

datatype addr = V4 "nat list" | V6 "nat list" string

fun Is4 :: "addr \<Rightarrow> bool" where
  "Is4 (V4 os) = True"
| "Is4 (V6 gs z) = False"

subsection \<open>Parsing\<close>

definition parse_octet :: "string \<Rightarrow> nat option" where
  "parse_octet s =
    (if s \<noteq> [] \<and> (length s > 1 \<longrightarrow> hd s \<noteq> CHR ''0'')
     then (case digits_val 0 s of Some v \<Rightarrow> if v \<le> 255 then Some v else None | None \<Rightarrow> None) else None)"

definition parseIPv4 :: "string \<Rightarrow> nat list option" where
  "parseIPv4 s = (let fs = Split s (CHR ''.'') in
     if length fs = 4 \<and> list_all (\<lambda>f. parse_octet f \<noteq> None) fs then Some (map (\<lambda>f. the (parse_octet f)) fs) else None)"

definition nibble :: "char \<Rightarrow> nat option" where
  "nibble c = (let b = byte_val c in
     if 48 \<le> b \<and> b \<le> 57 then Some (b - 48)
     else if 97 \<le> b \<and> b \<le> 102 then Some (b - 87)
     else if 65 \<le> b \<and> b \<le> 70 then Some (b - 55)
     else None)"

definition hex_group :: "string \<Rightarrow> nat" where
  "hex_group ds = foldl (\<lambda>acc c. acc * 16 + the (nibble c)) 0 ds"

text \<open>The loop of \<open>parseIPv6\<close>: groups left, input, groups so far, position of the ellipsis.\<close>

fun parse6_loop :: "nat \<Rightarrow> string \<Rightarrow> nat list \<Rightarrow> nat option \<Rightarrow> (nat list \<times> nat option) option" where
  "parse6_loop 0 s gs ell = (if s = [] then Some (gs, ell) else None)"
| "parse6_loop (Suc n) s gs ell =
    (let ds = takeWhile (\<lambda>c. nibble c \<noteq> None) s;
         r = dropWhile (\<lambda>c. nibble c \<noteq> None) s;
         gs' = gs @ [hex_group ds]
     in if ds = [] \<or> length ds > 4 then None
        else case r of
            [] \<Rightarrow> Some (gs', ell)
          | c # r' \<Rightarrow>
             if c = CHR ''.'' then
               (if (ell = None \<and> length gs \<noteq> 6) \<or> length gs > 6 then None
                else map_option (\<lambda>f. (gs @ [f ! 0 * 256 + f ! 1, f ! 2 * 256 + f ! 3], ell)) (parseIPv4 s))
             else if c \<noteq> CHR '':'' \<or> r' = [] then None
             else if hd r' = CHR '':'' then
               (if ell \<noteq> None then None
                else if tl r' = [] then Some (gs', Some (length gs'))
                else parse6_loop n (tl r') gs' (Some (length gs')))
             else parse6_loop n r' gs' ell)"

definition expand_ellipsis :: "nat list \<times> nat option \<Rightarrow> nat list option" where
  "expand_ellipsis = (\<lambda>(gs, ell).
     if length gs < 8
     then map_option (\<lambda>e. take e gs @ replicate (8 - length gs) 0 @ drop e gs) ell
     else if ell \<noteq> None then None else Some gs)"

definition parseIPv6 :: "string \<Rightarrow> addr option" where
  "parseIPv6 s0 =
    (let (s, zone) = (case cut (CHR ''%'') s0 of Some (a, z) \<Rightarrow> (a, Some z) | None \<Rightarrow> (s0, None))
     in if zone = Some [] then None
        else let z = (case zone of Some z \<Rightarrow> z | None \<Rightarrow> []) in
          if HasPrefix s ''::'' then
            (if length s = 2 then Some (V6 (replicate 8 0) z)
             else map_option (\<lambda>gs. V6 gs z) (Option.bind (parse6_loop 8 (drop 2 s) [] (Some 0)) expand_ellipsis))
          else map_option (\<lambda>gs. V6 gs z) (Option.bind (parse6_loop 8 s [] None) expand_ellipsis))"

definition ParseAddr :: "string \<Rightarrow> addr option" where
  "ParseAddr s =
    (case find (\<lambda>c. c \<in> set ''.:%'') s of
       None \<Rightarrow> None
     | Some c \<Rightarrow>
        if c = CHR ''.'' then map_option V4 (parseIPv4 s)
        else if c = CHR '':'' then parseIPv6 s
        else None)"

subsection \<open>Printing\<close>

fun lower_hex :: "nat \<Rightarrow> string" where
  "lower_hex n = (if n < 16 then [hex_digit n] else lower_hex (n div 16) @ [hex_digit (n mod 16)])"

declare lower_hex.simps [simp del]

definition zero_run :: "nat list \<Rightarrow> nat \<Rightarrow> nat" where
  "zero_run gs i = length (takeWhile (\<lambda>g. g = 0) (drop i gs))"

text \<open>The first longest run of at least two zero groups, as start and end.\<close>

definition longest_run :: "nat list \<Rightarrow> nat \<times> nat" where
  "longest_run gs = fold (\<lambda>i (a, b). let l = zero_run gs i in if l \<ge> 2 \<and> l > b - a then (i, i + l) else (a, b)) [0..<8] (255, 255)"

definition string6 :: "nat list \<Rightarrow> string" where
  "string6 gs =
    (let (a, b) = longest_run gs
     in if a < 8 then Join (map lower_hex (take a gs)) '':'' @ ''::'' @ Join (map lower_hex (drop b gs)) '':''
        else Join (map lower_hex gs) '':'')"

definition string4 :: "nat list \<Rightarrow> string" where
  "string4 os = Join (map utoa os) ''.''"

definition Is4In6 :: "nat list \<Rightarrow> bool" where
  "Is4In6 gs \<longleftrightarrow> take 6 gs = [0, 0, 0, 0, 0, 0xFFFF]"

definition mapped_octets :: "nat list \<Rightarrow> nat list" where
  "mapped_octets gs = [gs ! 6 div 256, gs ! 6 mod 256, gs ! 7 div 256, gs ! 7 mod 256]"

fun addr_String :: "addr \<Rightarrow> string" where
  "addr_String (V4 os) = string4 os"
| "addr_String (V6 gs z) =
    (if Is4In6 gs then ''::ffff:'' @ string4 (mapped_octets gs) else string6 gs) @ (if z = [] then [] else CHR ''%'' # z)"

subsection \<open>Prefixes\<close>

fun Unmap :: "addr \<Rightarrow> addr" where
  "Unmap (V4 os) = V4 os"
| "Unmap (V6 gs z) = (if Is4In6 gs then V4 (mapped_octets gs) else V6 gs z)"

fun WithZone :: "string \<Rightarrow> addr \<Rightarrow> addr" where
  "WithZone z (V4 os) = V4 os"
| "WithZone z (V6 gs z0) = V6 gs z"

text \<open>The first \<open>n\<close> bits of units of \<open>w\<close> bits, the others zero.\<close>

fun mask_units :: "nat \<Rightarrow> nat \<Rightarrow> nat list \<Rightarrow> nat list" where
  "mask_units w n [] = []"
| "mask_units w n (u # us) =
    (if n \<ge> w then u # mask_units w (n - w) us
     else (u div 2 ^ (w - n) * 2 ^ (w - n)) # mask_units w 0 us)"

type_synonym prefix = "addr \<times> nat"

fun addr_bits :: "addr \<Rightarrow> nat" where
  "addr_bits (V4 os) = 32"
| "addr_bits (V6 gs z) = 128"

fun mask_addr :: "nat \<Rightarrow> addr \<Rightarrow> addr" where
  "mask_addr n (V4 os) = V4 (mask_units 8 n os)"
| "mask_addr n (V6 gs z) = V6 (mask_units 16 n gs) []"

text \<open>\<open>Addr.Prefix\<close> masks the address and drops its zone; \<open>ParsePrefix\<close> does neither.\<close>

definition addr_Prefix :: "nat \<Rightarrow> addr \<Rightarrow> prefix option" where
  "addr_Prefix n a = (if n > addr_bits a then None else Some (mask_addr n a, n))"

definition prefix_String :: "prefix \<Rightarrow> string" where
  "prefix_String p = addr_String (fst p) @ ''/'' @ utoa (snd p)"

definition ParsePrefix :: "string \<Rightarrow> prefix option" where
  "ParsePrefix s =
    (case LastIndex s (CHR ''/'') of
       None \<Rightarrow> None
     | Some i \<Rightarrow>
        (let bitsStr = drop (i + 1) s in
         case ParseAddr (take i s) of
           None \<Rightarrow> None
         | Some a \<Rightarrow>
            if (case a of V6 gs z \<Rightarrow> z \<noteq> [] | V4 os \<Rightarrow> False) then None
            else if length bitsStr > 1 \<and> \<not> (49 \<le> byte_val (hd bitsStr) \<and> byte_val (hd bitsStr) \<le> 57) then None
            else if bitsStr = [] then None
            else (case digits_val 0 bitsStr of
                None \<Rightarrow> None
              | Some bits \<Rightarrow> if bits > addr_bits a then None else Some (a, bits))))"

text \<open>\<open>Prefix.Contains\<close>: an address with a zone is in no prefix, and the families must agree.\<close>

fun prefix_Contains :: "prefix \<Rightarrow> addr \<Rightarrow> bool" where
  "prefix_Contains (V4 ps, n) (V4 os) \<longleftrightarrow> mask_units 8 n ps = mask_units 8 n os"
| "prefix_Contains (V6 ps z, n) (V6 gs z') \<longleftrightarrow> z' = [] \<and> mask_units 16 n ps = mask_units 16 n gs"
| "prefix_Contains p a \<longleftrightarrow> False"

end
