(* ===== verification/Client_IP.thy ===== *)
theory Client_IP
  imports Frames Netip
begin

text \<open>
  The address handling of \<open>internal/server/upgrade.go\<close>: which address a request is charged to, which
  bucket of the per-address connection cap that is, and what a client-supplied string looks like in
  the log.

  A request carries what \<open>net/http\<close> has parsed: the peer's address, the header values by name in the
  order they arrived, the \<open>key\<close> parameter of the query, the \<open>id\<close> segment of the path, and the body.
\<close>

record request =
  RemoteAddr :: string
  header :: "(string \<times> string list) list"
  query_key :: string
  path_id :: string
  req_body :: bytes

definition Header_Get :: "string \<Rightarrow> request \<Rightarrow> string" where
  "Header_Get name r = (case map_of (header r) name of Some (v # vs) \<Rightarrow> v | _ \<Rightarrow> [])"

definition defaultIPCap :: int where "defaultIPCap = 200"
definition ipv6CapPrefixBits :: nat where "ipv6CapPrefixBits = 64"

definition ipCapKey :: "string \<Rightarrow> string" where
  "ipCapKey ip =
    (case ParseAddr ip of
       None \<Rightarrow> ip
     | Some a0 \<Rightarrow>
        (let a = Unmap a0 in
         if Is4 a then addr_String a
         else case addr_Prefix ipv6CapPrefixBits (WithZone [] a) of
             None \<Rightarrow> ip
           | Some p \<Rightarrow> prefix_String p))"

definition parseIPCap :: "string \<Rightarrow> int" where
  "parseIPCap raw0 =
    (let raw = TrimSpace raw0 in
     if raw = [] then defaultIPCap
     else case ParseInt raw of
         None \<Rightarrow> defaultIPCap
       | Some n \<Rightarrow> if n \<le> 0 then defaultIPCap else n)"

definition log_bad :: "nat \<Rightarrow> bool" where
  "log_bad r \<longleftrightarrow> (r = 0x0A \<or> r = 0x0D \<or> r = 0 \<or> r = 0x1B \<or> r = 0x7F \<or> r < 0x20) \<and> r \<noteq> 0x09"

definition sanitizeLogValue :: "string \<Rightarrow> string" where
  "sanitizeLogValue s0 =
    (let s = (if length s0 > 1024 then take 1024 s0 else s0) in
     if \<not> list_ex log_bad (runes s) then s
     else concat (map (\<lambda>r. encode_rune (if log_bad r then 63 else r)) (runes s)))"

definition parseTrustedProxies :: "string \<Rightarrow> prefix list" where
  "parseTrustedProxies raw =
    (if raw = [] then []
     else concat (map (\<lambda>s0. let s = TrimSpace s0 in
        if s = [] then []
        else case ParsePrefix s of
            Some p \<Rightarrow> [p]
          | None \<Rightarrow> (case ParseAddr s of
              None \<Rightarrow> []
            | Some a \<Rightarrow>
               (let bits = (if Is4 a then 32 else 128) in
                case addr_Prefix bits a of Some p \<Rightarrow> [p] | None \<Rightarrow> []))) (Split raw (CHR '',''))))"

text \<open>Every address of the model is valid, so \<open>IsValid\<close> holds.\<close>

definition addrInPrefixes :: "addr \<Rightarrow> prefix list \<Rightarrow> bool" where
  "addrInPrefixes a ps = list_ex (\<lambda>p. prefix_Contains p a) ps"

text \<open>The address, \<open>None\<close> when the host does not parse, and the host.\<close>

definition stripHostPort :: "string \<Rightarrow> addr option \<times> string" where
  "stripHostPort s0 =
    (let s = TrimSpace s0 in
     if s = [] then (None, [])
     else let host =
         (if HasPrefix s ''['' then
            (case LastIndex s (CHR '']'') of
               Some e \<Rightarrow> if e > 0 then take (e - 1) (drop 1 s) else s
             | None \<Rightarrow> s)
          else (case LastIndex s (CHR '':'') of
               Some i \<Rightarrow> if i > 0 \<and> CountByte s (CHR '':'') = 1 then take i s else s
             | None \<Rightarrow> s))
       in (ParseAddr host, host))"

text \<open>The loop over the hops, which are given last first.\<close>

fun first_untrusted :: "prefix list \<Rightarrow> string list \<Rightarrow> string option" where
  "first_untrusted tps [] = None"
| "first_untrusted tps (h # hs) =
    (case stripHostPort h of
       (None, _) \<Rightarrow> first_untrusted tps hs
     | (Some a, host) \<Rightarrow> if \<not> addrInPrefixes a tps then Some host else first_untrusted tps hs)"

definition clientIP :: "request \<Rightarrow> prefix list \<Rightarrow> string" where
  "clientIP r tps =
    (case stripHostPort (RemoteAddr r) of
       (None, _) \<Rightarrow> RemoteAddr r
     | (Some raAddr, raStr) \<Rightarrow>
        if length tps = 0 \<or> \<not> addrInPrefixes raAddr tps then raStr
        else let xff = Header_Get ''X-Forwarded-For'' r in
          if xff = [] then raStr
          else let hops = Split xff (CHR '','') in
            case first_untrusted tps (rev hops) of
              Some host \<Rightarrow> host
            | None \<Rightarrow> (case stripHostPort (hops ! 0) of (Some _, leftStr) \<Rightarrow> leftStr | (None, _) \<Rightarrow> raStr))"

subsection \<open>Forwarded addresses\<close>

lemma Split_append2: "Split (x @ c # y) c = Split x c @ Split y c"
proof (induction x c rule: Split.induct)
  case (1 x c)
  show ?case
  proof (cases "cut c x")
    case None
    then have "c \<notin> set x" by (simp add: cut_None_iff)
    then show ?thesis by (simp add: Split_append Split_single)
  next
    case (Some ab)
    then obtain a b where ab: "cut c x = Some (a, b)" by (cases ab) auto
    then have x: "x = a @ c # b" "c \<notin> set a" using cut_Some by blast+
    have "Split (b @ c # y) c = Split b c @ Split y c" using 1 ab by blast
    then show ?thesis by (simp add: x Split_append)
  qed
qed

lemma first_untrusted_append:
  "first_untrusted tps (xs @ ys) = (case first_untrusted tps xs of Some h \<Rightarrow> Some h | None \<Rightarrow> first_untrusted tps ys)"
  by (induction xs) (auto split: prod.splits option.splits)

lemma first_untrusted_Some:
  "first_untrusted tps hs = Some host \<Longrightarrow> \<exists>pre h post a. hs = pre @ h # post \<and> stripHostPort h = (Some a, host) \<and>
     \<not> addrInPrefixes a tps \<and> (\<forall>p \<in> set pre. \<forall>b. fst (stripHostPort p) = Some b \<longrightarrow> addrInPrefixes b tps)"
proof (induction hs)
  case (Cons h hs)
  show ?case
  proof (cases "fst (stripHostPort h)")
    case (Some a)
    then obtain ho where st: "stripHostPort h = (Some a, ho)" by (metis prod.collapse)
    show ?thesis
    proof (cases "addrInPrefixes a tps")
      case False
      with Cons.prems st have "ho = host" by simp
      with st False have "h # hs = [] @ h # hs \<and> stripHostPort h = (Some a, host) \<and> \<not> addrInPrefixes a tps \<and>
        (\<forall>p \<in> set []. \<forall>b. fst (stripHostPort p) = Some b \<longrightarrow> addrInPrefixes b tps)" by simp
      then show ?thesis by blast
    next
      case True
      with Cons st obtain pre h' post b where "hs = pre @ h' # post" "stripHostPort h' = (Some b, host)" "\<not> addrInPrefixes b tps"
        "\<forall>p \<in> set pre. \<forall>b. fst (stripHostPort p) = Some b \<longrightarrow> addrInPrefixes b tps" by auto
      with True st have "h # hs = (h # pre) @ h' # post \<and> stripHostPort h' = (Some b, host) \<and> \<not> addrInPrefixes b tps \<and>
        (\<forall>p \<in> set (h # pre). \<forall>b. fst (stripHostPort p) = Some b \<longrightarrow> addrInPrefixes b tps)" by simp
      then show ?thesis by blast
    qed
  next
    case None
    then obtain ho where st: "stripHostPort h = (None, ho)" by (metis prod.collapse)
    with Cons obtain pre h' post b where "hs = pre @ h' # post" "stripHostPort h' = (Some b, host)" "\<not> addrInPrefixes b tps"
        "\<forall>p \<in> set pre. \<forall>b. fst (stripHostPort p) = Some b \<longrightarrow> addrInPrefixes b tps" by auto
    with st have "h # hs = (h # pre) @ h' # post \<and> stripHostPort h' = (Some b, host) \<and> \<not> addrInPrefixes b tps \<and>
        (\<forall>p \<in> set (h # pre). \<forall>b. fst (stripHostPort p) = Some b \<longrightarrow> addrInPrefixes b tps)" by simp
    then show ?thesis by blast
  qed
qed simp

text \<open>
  C20: A client cannot choose the address it is charged to. A request whose peer is not a trusted proxy
  is charged to the peer, whatever headers it carries. Behind a trusted proxy, once the part \<open>y\<close> that
  the proxies appended to \<open>X-Forwarded-For\<close> names an address that is not a trusted proxy, the request is
  charged to the rightmost such address, and everything the client put before it (\<open>x\<close>) is irrelevant.
\<close>

theorem clientIP_not_spoofable:
  assumes "stripHostPort (RemoteAddr r) = (Some ra, raStr)"
  shows "(\<not> addrInPrefixes ra tps \<longrightarrow> clientIP r tps = raStr) \<and>
    (\<forall>x y more host. addrInPrefixes ra tps \<longrightarrow> map_of (header r) ''X-Forwarded-For'' = Some ((x @ CHR '','' # y) # more) \<longrightarrow>
      first_untrusted tps (rev (Split y (CHR '',''))) = Some host \<longrightarrow>
      clientIP r tps = host \<and>
      (\<exists>before h after a. Split y (CHR '','') = before @ h # after \<and> stripHostPort h = (Some a, host) \<and> \<not> addrInPrefixes a tps \<and>
        (\<forall>p \<in> set after. \<forall>b. fst (stripHostPort p) = Some b \<longrightarrow> addrInPrefixes b tps)))"
proof (intro conjI allI impI)
  show "clientIP r tps = raStr" if "\<not> addrInPrefixes ra tps" using that assms by (simp add: clientIP_def)
next
  fix x y more host
  assume a: "addrInPrefixes ra tps" "map_of (header r) ''X-Forwarded-For'' = Some ((x @ CHR '','' # y) # more)"
    "first_untrusted tps (rev (Split y (CHR '',''))) = Some host"
  have "tps \<noteq> []" using a(1) by (auto simp: addrInPrefixes_def)
  moreover have "first_untrusted tps (rev (Split (x @ CHR '','' # y) (CHR '',''))) = Some host"
    unfolding Split_append2 rev_append first_untrusted_append a(3) by simp
  ultimately show "clientIP r tps = host" using assms a(1,2) by (simp add: clientIP_def Header_Get_def)
  from first_untrusted_Some [OF a(3)] obtain pre h post b where
    h: "rev (Split y (CHR '','')) = pre @ h # post" "stripHostPort h = (Some b, host)" "\<not> addrInPrefixes b tps"
      "\<forall>p \<in> set pre. \<forall>b. fst (stripHostPort p) = Some b \<longrightarrow> addrInPrefixes b tps" by blast
  have "Split y (CHR '','') = rev post @ h # rev pre" using arg_cong [OF h(1), of rev] by simp
  with h(2-) show "\<exists>before h after a. Split y (CHR '','') = before @ h # after \<and> stripHostPort h = (Some a, host) \<and> \<not> addrInPrefixes a tps \<and>
      (\<forall>p \<in> set after. \<forall>b. fst (stripHostPort p) = Some b \<longrightarrow> addrInPrefixes b tps)" by (metis set_rev)
qed

definition demo_request :: request where
  "demo_request = \<lparr>RemoteAddr = ''10.0.0.1:5555'', header = [(''X-Forwarded-For'', [''6.6.6.6, 1.2.3.4, 10.0.0.9''])],
     query_key = ''k'', path_id = [], req_body = []\<rparr>"

theorem clientIP_not_spoofable_witness:
  "clientIP demo_request (parseTrustedProxies ''10.0.0.0/8'') = ''1.2.3.4''"
proof -
  let ?tps = "parseTrustedProxies ''10.0.0.0/8''"
  have s: "stripHostPort (RemoteAddr demo_request) = (Some (V4 [10, 0, 0, 1]), ''10.0.0.1'')" by code_simp
  have t: "addrInPrefixes (V4 [10, 0, 0, 1]) ?tps" by code_simp
  have h: "map_of (header demo_request) ''X-Forwarded-For'' = Some ((''6.6.6.6'' @ CHR '','' # '' 1.2.3.4, 10.0.0.9'') # [])"
    by (simp add: demo_request_def)
  have f: "first_untrusted ?tps (rev (Split '' 1.2.3.4, 10.0.0.9'' (CHR '',''))) = Some ''1.2.3.4''" by code_simp
  show ?thesis using clientIP_not_spoofable [OF s, of ?tps] t h f by blast
qed

text \<open>
  Only the first \<open>X-Forwarded-For\<close> line is read: behind a trusted proxy that adds a line of its own, the
  address is the one the client sent.
\<close>

lemma clientIP_first_line_only:
  "clientIP (demo_request\<lparr>header := [(''X-Forwarded-For'', [''6.6.6.6'', ''1.2.3.4''])]\<rparr>) (parseTrustedProxies ''10.0.0.0/8'') = ''6.6.6.6''"
  by code_simp

subsection \<open>Buckets of the cap\<close>

lemma lower_hex_chars: "c \<in> set (lower_hex n) \<Longrightarrow> is_lower_hex c"
proof (induction n rule: lower_hex.induct)
  case (1 n)
  then show ?case by (subst (asm) (2) lower_hex.simps) (auto split: if_splits)
qed

lemma lower_hex_nonempty [simp]: "lower_hex n \<noteq> []"
  by (subst lower_hex.simps) simp

lemma lower_hex_inj: "lower_hex m = lower_hex n \<Longrightarrow> m = n"
proof (induction m arbitrary: n rule: lower_hex.induct)
  case (1 m)
  have last: "last (lower_hex k) = hex_digit (k mod 16)" and but: "butlast (lower_hex k) = (if k < 16 then [] else lower_hex (k div 16))" for k
    by (subst lower_hex.simps; simp)+
  have d: "m mod 16 = n mod 16" using last [of m] last [of n] 1(2) by (auto intro: hex_digit_inj)
  have b: "(if m < 16 then [] else lower_hex (m div 16)) = (if n < 16 then [] else lower_hex (n div 16))"
    using but [of m] but [of n] 1(2) by simp
  show ?case
  proof (cases "m < 16")
    case True
    with b have "n < 16" by (auto split: if_splits) (metis lower_hex_nonempty)
    with True d show ?thesis by simp
  next
    case False
    with b have "n \<ge> 16" "lower_hex (m div 16) = lower_hex (n div 16)" by (auto split: if_splits)
    with 1(1) [OF False] have "m div 16 = n div 16" by blast
    with d show ?thesis by (metis div_mult_mod_eq)
  qed
qed

lemma Join_eq_Nil: "\<forall>x \<in> set xs. x \<noteq> [] \<Longrightarrow> Join xs sep = [] \<longleftrightarrow> xs = []"
  by (induction xs sep rule: Join.induct) auto

lemma Join_inj:
  assumes "\<forall>x \<in> set xs. c \<notin> set x \<and> x \<noteq> []" "\<forall>y \<in> set ys. c \<notin> set y \<and> y \<noteq> []" "Join xs [c] = Join ys [c]"
  shows "xs = ys"
proof (cases "xs = [] \<or> ys = []")
  case True
  then show ?thesis using assms Join_eq_Nil [of xs "[c]"] Join_eq_Nil [of ys "[c]"] by auto
next
  case False
  then show ?thesis using assms Split_Join [of xs c] Split_Join [of ys c] by metis
qed

text \<open>The printed \<open>/64\<close> of four groups: its nonzero leading groups, then the ellipsis.\<close>

fun strip0 :: "nat list \<Rightarrow> nat list" where
  "strip0 gs = rev (dropWhile (\<lambda>g. g = 0) (rev gs))"

lemma string6_net:
  "string6 [a, b, c, d, 0, 0, 0, 0] = Join (map lower_hex (strip0 [a, b, c, d])) '':'' @ ''::''"
proof -
  have up: "[0..<8] = [0, 1, 2, 3, 4, 5, 6, 7::nat]" by (simp add: upt_rec)
  have "longest_run [a, b, c, d, 0, 0, 0, 0] = (length (strip0 [a, b, c, d]), 8)"
    by (cases "a = 0"; cases "b = 0"; cases "c = 0"; cases "d = 0")
       (simp_all add: longest_run_def up zero_run_def Let_def)
  moreover have "take (length (strip0 [a, b, c, d])) [a, b, c, d, 0, 0, 0, 0] = strip0 [a, b, c, d]" "length (strip0 [a, b, c, d]) < 8"
    by (cases "a = 0"; cases "b = 0"; cases "c = 0"; cases "d = 0"; simp)+
  ultimately show ?thesis by (simp add: string6_def del: strip0.simps)
qed

lemma strip0_inj: "strip0 [a, b, c, d] = strip0 [a', b', c', d'] \<Longrightarrow> [a, b, c, d] = [a', b', c', d']"
  by (cases "a = 0"; cases "b = 0"; cases "c = 0"; cases "d = 0"; cases "a' = 0"; cases "b' = 0"; cases "c' = 0"; cases "d' = 0") simp_all

lemma lower_hex_no_colon: "CHR '':'' \<notin> set (lower_hex n)"
  using lower_hex_chars [of "CHR '':''" n] by (auto simp: is_lower_hex_def)

lemma string6_net_inj:
  assumes "string6 [a, b, c, d, 0, 0, 0, 0] = string6 [a', b', c', d', 0, 0, 0, 0]"
  shows "[a, b, c, d] = [a', b', c', d']"
proof -
  have "Join (map lower_hex (strip0 [a, b, c, d])) '':'' = Join (map lower_hex (strip0 [a', b', c', d'])) '':''"
    using assms unfolding string6_net by simp
  then have "map lower_hex (strip0 [a, b, c, d]) = map lower_hex (strip0 [a', b', c', d'])"
    by (intro Join_inj [of _ "CHR '':''"]) (auto simp: lower_hex_no_colon simp del: strip0.simps)
  then have "strip0 [a, b, c, d] = strip0 [a', b', c', d']"
    by (metis (no_types, lifting) inj_map_eq_map injI lower_hex_inj)
  then show ?thesis by (rule strip0_inj)
qed

subsection \<open>Parsed addresses are well formed\<close>

fun addr_ok :: "addr \<Rightarrow> bool" where
  "addr_ok (V4 os) \<longleftrightarrow> length os = 4"
| "addr_ok (V6 gs z) \<longleftrightarrow> length gs = 8 \<and> (\<forall>g \<in> set gs. g < 65536)"

lemma nibble_less: "nibble c = Some v \<Longrightarrow> v < 16"
  by (auto simp: nibble_def Let_def split: if_splits)

lemma hex_group_less: "\<forall>c \<in> set ds. nibble c \<noteq> None \<Longrightarrow> hex_group ds < 16 ^ length ds"
proof (induction ds rule: rev_induct)
  case (snoc c ds)
  then obtain v where v: "nibble c = Some v" "v < 16" using nibble_less by fastforce
  have "hex_group ds < 16 ^ length ds" using snoc by simp
  then have "hex_group ds * 16 + v < 16 ^ Suc (length ds)" using v(2) by simp
  with v show ?case by (simp add: hex_group_def)
qed (simp add: hex_group_def)

lemma hex_group_4: "\<forall>c \<in> set ds. nibble c \<noteq> None \<Longrightarrow> length ds \<le> 4 \<Longrightarrow> hex_group ds < 65536"
proof -
  assume a: "\<forall>c \<in> set ds. nibble c \<noteq> None" "length ds \<le> 4"
  have "hex_group ds < 16 ^ length ds" by (rule hex_group_less [OF a(1)])
  also have "\<dots> \<le> 16 ^ 4" using a(2) by (intro power_increasing) auto
  finally show ?thesis by simp
qed

lemma parse_octet_le: "parse_octet s = Some v \<Longrightarrow> v \<le> 255"
  by (auto simp: parse_octet_def split: if_splits option.splits)

lemma parseIPv4_ok: "parseIPv4 s = Some os \<Longrightarrow> length os = 4 \<and> (\<forall>v \<in> set os. v \<le> 255)"
  using parse_octet_le by (fastforce simp: parseIPv4_def Let_def list_all_iff split: if_splits)

definition groups_ok :: "nat list \<Rightarrow> bool" where
  "groups_ok gs \<longleftrightarrow> length gs \<le> 8 \<and> (\<forall>g \<in> set gs. g < 65536)"

lemma parse6_v4_ok:
  assumes "parseIPv4 s = Some f" "length gs \<le> 6" "\<forall>g \<in> set gs. g < 65536"
  shows "groups_ok (gs @ [f ! 0 * 256 + f ! 1, f ! 2 * 256 + f ! 3])"
proof -
  have f: "length f = 4" "\<forall>v \<in> set f. v \<le> 255" using parseIPv4_ok [OF assms(1)] by auto
  then have "f ! i \<le> 255" if "i < 4" for i using that by (metis nth_mem)
  from this [of 0] this [of 1] this [of 2] this [of 3] assms(2,3) show ?thesis by (auto simp: groups_ok_def)
qed

lemma parse6_loop_ok:
  "length gs + n \<le> 8 \<Longrightarrow> \<forall>g \<in> set gs. g < 65536 \<Longrightarrow> parse6_loop n s gs ell = Some (gs', ell') \<Longrightarrow> groups_ok gs'"
proof (induction n s gs ell rule: parse6_loop.induct)
  case (1 s gs ell)
  then show ?case by (auto simp: groups_ok_def split: if_splits)
next
  case (2 n s gs ell)
  define ds where "ds = takeWhile (\<lambda>c. nibble c \<noteq> None) s"
  define r where "r = dropWhile (\<lambda>c. nibble c \<noteq> None) s"
  note eq = "2.prems"(3) [unfolded parse6_loop.simps Let_def ds_def [symmetric] r_def [symmetric]]
  have ne: "\<not> (ds = [] \<or> length ds > 4)" using eq by (auto split: if_splits)
  have "hex_group ds < 65536" using ne by (intro hex_group_4) (auto simp: ds_def dest: set_takeWhileD)
  then have g': "length (gs @ [hex_group ds]) + n \<le> 8" "\<forall>g \<in> set (gs @ [hex_group ds]). g < 65536" "groups_ok (gs @ [hex_group ds])"
    using "2.prems"(1,2) by (auto simp: groups_ok_def)
  show ?case
  proof (cases r)
    case Nil
    then show ?thesis using eq ne g'(3) by simp
  next
    case (Cons c r')
    note IH = "2.IH" [OF ds_def r_def refl ne Cons]
    show ?thesis
    proof (cases "c = CHR ''.''")
      case True
      then show ?thesis using eq ne Cons parse6_v4_ok "2.prems"(1,2) by (auto split: if_splits)
    next
      case False
      have c: "\<not> (c \<noteq> CHR '':'' \<or> r' = [])" using eq ne Cons False by (auto split: if_splits)
      show ?thesis
      proof (cases "hd r' = CHR '':''")
        case True
        show ?thesis
        proof (cases "ell \<noteq> None \<or> tl r' = []")
          case True
          then show ?thesis using eq ne Cons False c g'(3) \<open>hd r' = CHR '':''\<close> by (auto split: if_splits)
        next
          case t: False
          then show ?thesis using IH(1) [OF False c True] eq ne Cons False c g' True by simp
        qed
      next
        case h: False
        then show ?thesis using IH(2) [OF False c h] eq ne Cons False c g' by simp
      qed
    qed
  qed
qed

lemma expand_ok: "groups_ok gs \<Longrightarrow> expand_ellipsis (gs, ell) = Some hs \<Longrightarrow> length hs = 8 \<and> (\<forall>g \<in> set hs. g < 65536)"
  using in_set_takeD [of _ _ gs] in_set_dropD [of _ _ gs]
  by (auto simp: expand_ellipsis_def groups_ok_def split: if_splits)

lemma parse6_ok:
  assumes "Option.bind (parse6_loop 8 s [] ell) expand_ellipsis = Some hs"
  shows "length hs = 8 \<and> (\<forall>g \<in> set hs. g < 65536)"
proof -
  obtain gs e where p: "parse6_loop 8 s [] ell = Some (gs, e)" "expand_ellipsis (gs, e) = Some hs"
    using assms by (cases "parse6_loop 8 s [] ell") auto
  show ?thesis using expand_ok [OF parse6_loop_ok [OF _ _ p(1)] p(2)] by simp
qed

lemma ParseAddr_ok: "ParseAddr s = Some a \<Longrightarrow> addr_ok a"
  using parseIPv4_ok parse6_ok
  by (auto simp: ParseAddr_def parseIPv6_def Let_def split: option.splits if_splits prod.splits)

text \<open>What counts as one client: an IPv4 address, mapped ones included, or an IPv6 \<open>/64\<close>.\<close>

definition bucket :: "addr \<Rightarrow> addr" where
  "bucket a = (case Unmap a of V4 os \<Rightarrow> V4 os | V6 gs z \<Rightarrow> V6 (take 4 gs) [])"

lemma Unmap_ok: "addr_ok a \<Longrightarrow> addr_ok (Unmap a)"
  by (cases a) (auto simp: mapped_octets_def)

lemma list8: "length gs = 8 \<Longrightarrow> \<exists>a b c d e f g h. gs = [a, b, c, d, e, f, g, h]"
  by (auto simp: length_Suc_conv numeral_eq_Suc)

lemma mask64:
  assumes "length gs = 8" "\<forall>g \<in> set gs. g < 65536"
  shows "\<exists>a b c d. take 4 gs = [a, b, c, d] \<and> mask_units 16 64 gs = [a, b, c, d, 0, 0, 0, 0]"
proof -
  obtain a b c d e f g h where gs: "gs = [a, b, c, d, e, f, g, h]" using list8 [OF assms(1)] by blast
  then show ?thesis using assms(2) by (intro exI [of _ a] exI [of _ b] exI [of _ c] exI [of _ d]) simp
qed

lemma Join_chars: "c \<in> set (Join xs sep) \<Longrightarrow> c \<in> set sep \<or> (\<exists>x \<in> set xs. c \<in> set x)"
  by (induction xs sep rule: Join.induct) auto

lemma string4_chars: "c \<in> set (string4 os) \<Longrightarrow> c = CHR ''.'' \<or> is_digit c"
  using Join_chars [of c "map utoa os" "''.''"] utoa_digits by (auto simp: string4_def)

lemma string4_inj: "string4 os = string4 os' \<Longrightarrow> os = os'"
proof -
  have dot: "CHR ''.'' \<notin> set (utoa n)" for n using utoa_digits [of "CHR ''.''" n] by (auto simp: is_digit_def digit_val_def)
  assume "string4 os = string4 os'"
  then have "map utoa os = map utoa os'"
    unfolding string4_def by (intro Join_inj [of _ "CHR ''.''"]) (auto simp: dot)
  then show ?thesis by (metis inj_map_eq_map injI utoa_inj)
qed

lemma ipCapKey_cases:
  assumes "ParseAddr x = Some a"
  obtains (v4) os where "bucket a = V4 os" "ipCapKey x = string4 os"
  | (v6) p q r s where "bucket a = V6 [p, q, r, s] []" "ipCapKey x = string6 [p, q, r, s, 0, 0, 0, 0] @ ''/64''"
proof (cases "Unmap a")
  case (V4 os)
  then show thesis using assms that(1) by (simp add: bucket_def ipCapKey_def)
next
  case (V6 gs z)
  have "addr_ok (V6 gs z)" using Unmap_ok [OF ParseAddr_ok [OF assms]] V6 by simp
  then obtain p q r s where g: "take 4 gs = [p, q, r, s]" "mask_units 16 64 gs = [p, q, r, s, 0, 0, 0, 0]"
    using mask64 [of gs] by auto
  have u: "utoa 64 = ''64''" by code_simp
  have "ipCapKey x = string6 [p, q, r, s, 0, 0, 0, 0] @ ''/64''"
    using assms V6 g by (simp add: ipCapKey_def addr_Prefix_def ipv6CapPrefixBits_def prefix_String_def Is4In6_def u)
  with V6 g that(2) show thesis by (simp add: bucket_def)
qed

text \<open>
  The connection cap counts clients, not spellings. Two client addresses share a bucket exactly
  when they are the same IPv4 address, written plainly or as an IPv4-mapped IPv6 address, or IPv6
  addresses of the same \<open>/64\<close>, however they are abbreviated and whatever their zone; no two different
  clients ever share a bucket.
\<close>

theorem ipCapKey_buckets:
  assumes "ParseAddr x = Some a" "ParseAddr y = Some b"
  shows "ipCapKey x = ipCapKey y \<longleftrightarrow> bucket a = bucket b"
proof -
  have colon: "CHR '':'' \<in> set (string6 [p, q, r, s, 0, 0, 0, 0] @ t)" for p q r s t by (simp add: string6_net)
  have no_colon: "CHR '':'' \<notin> set (string4 os)" for os using string4_chars [of "CHR '':''" os] by auto
  show ?thesis using assms(1)
  proof (cases rule: ipCapKey_cases)
    case (v4 os)
    note x = this
    show ?thesis using assms(2)
    proof (cases rule: ipCapKey_cases)
      case (v4 os')
      then show ?thesis using x string4_inj by auto
    next
      case (v6 p q r s)
      then show ?thesis using x colon no_colon by (metis addr.distinct(1))
    qed
  next
    case (v6 p q r s)
    note x = this
    show ?thesis using assms(2)
    proof (cases rule: ipCapKey_cases)
      case (v4 os')
      then show ?thesis using x colon no_colon by (metis addr.distinct(1))
    next
      case (v6 p' q' r' s')
      have "string6 [p, q, r, s, 0, 0, 0, 0] = string6 [p', q', r', s', 0, 0, 0, 0] \<longleftrightarrow> [p, q, r, s] = [p', q', r', s']"
        using string6_net_inj [of p q r s p' q' r' s'] by (metis list.inject)
      then show ?thesis unfolding x v6 append_same_eq by simp
    qed
  qed
qed

theorem ipCapKey_buckets_witness:
  "ipCapKey ''1:2::3'' = ipCapKey ''1:2:0:0:7::4%e'' \<and> ipCapKey ''1:2::3'' \<noteq> ipCapKey ''1:2:0:1::3''"
proof -
  have p: "ParseAddr ''1:2::3'' = Some (V6 [1, 2, 0, 0, 0, 0, 0, 3] [])"
    "ParseAddr ''1:2:0:0:7::4%e'' = Some (V6 [1, 2, 0, 0, 7, 0, 0, 4] ''e'')"
    "ParseAddr ''1:2:0:1::3'' = Some (V6 [1, 2, 0, 1, 0, 0, 0, 3] [])" by code_simp+
  show ?thesis
    using ipCapKey_buckets [OF p(1,2)] ipCapKey_buckets [OF p(1,3)] by (simp add: bucket_def Is4In6_def)
qed

subsection \<open>Log values\<close>

lemma high_byte: "0x80 \<le> (n::nat) \<Longrightarrow> n < 256 \<Longrightarrow> 0x80 \<le> byte_val (char_of n)"
  by simp

lemma encode_rune_high:
  assumes "0x80 \<le> r" "c \<in> set (encode_rune r)"
  shows "0x80 \<le> byte_val c"
proof -
  have m: "x mod 64 < 64" for x :: nat by simp
  consider "r < 0x800" | "(0xD800 \<le> r \<and> r \<le> 0xDFFF) \<or> 0x10FFFF < r" | "0x800 \<le> r" "\<not> ((0xD800 \<le> r \<and> r \<le> 0xDFFF) \<or> 0x10FFFF < r)" "r < 0x10000"
    | "\<not> ((0xD800 \<le> r \<and> r \<le> 0xDFFF) \<or> 0x10FFFF < r)" "0x10000 \<le> r" by linarith
  then show ?thesis
  proof cases
    case 1
    then have "r div 64 < 32" by (simp add: less_mult_imp_div_less)
    with 1 assms m [of r] show ?thesis by (auto simp: encode_rune_def intro!: high_byte simp del: of_char_of)
  next
    case 2
    with assms show ?thesis by (auto simp: encode_rune_def)
  next
    case 3
    then have "r div 4096 < 16" by (simp add: less_mult_imp_div_less)
    with 3 assms m [of r] m [of "r div 64"] show ?thesis by (auto simp: encode_rune_def intro!: high_byte simp del: of_char_of)
  next
    case 4
    then have "r div 262144 < 5" by (simp add: less_mult_imp_div_less)
    with 4 assms m [of r] m [of "r div 64"] m [of "r div 4096"] show ?thesis
      by (auto simp: encode_rune_def intro!: high_byte simp del: of_char_of)
  qed
qed

text \<open>
  No client-supplied value can forge a log line. Whatever bytes go in, what is logged holds no
  control character but tab: no line break, carriage return, NUL, escape or DEL. Short values without
  such characters are logged unchanged.
\<close>

theorem sanitizeLogValue_safe:
  "(\<forall>c \<in> set (sanitizeLogValue s). byte_val c = 9 \<or> (0x20 \<le> byte_val c \<and> byte_val c \<noteq> 0x7F)) \<and>
   (length s \<le> 1024 \<and> \<not> list_ex log_bad (runes s) \<longrightarrow> sanitizeLogValue s = s)"
proof (intro conjI ballI impI)
  show "sanitizeLogValue s = s" if "length s \<le> 1024 \<and> \<not> list_ex log_bad (runes s)"
    using that by (simp add: sanitizeLogValue_def)
next
  define t where "t = (if length s > 1024 then take 1024 s else s)"
  fix c assume c: "c \<in> set (sanitizeLogValue s)"
  have "\<not> log_bad (byte_val c)"
  proof (cases "list_ex log_bad (runes t)")
    case False
    then have "c \<in> set t" using c by (simp add: sanitizeLogValue_def t_def Let_def)
    then show ?thesis using False runes_ctl_byte [of c t] by (force simp: list_ex_iff log_bad_def)
  next
    case True
    then obtain r where r: "c \<in> set (encode_rune (if log_bad r then 63 else r))"
      using c by (auto simp: sanitizeLogValue_def t_def [symmetric] Let_def)
    let ?r = "if log_bad r then 63 else r"
    have "\<not> log_bad ?r" by (simp add: log_bad_def)
    then show ?thesis using r encode_rune_high [of ?r c]
      by (cases "?r < 0x80") (auto simp: encode_rune_def log_bad_def split: if_splits)
  qed
  then show "byte_val c = 9 \<or> (0x20 \<le> byte_val c \<and> byte_val c \<noteq> 0x7F)" by (auto simp: log_bad_def)
qed

theorem sanitizeLogValue_safe_witness:
  "sanitizeLogValue ''abc'' = ''abc'' \<and> sanitizeLogValue [CHR ''a'', CHR 0x0A] = ''a?''"
proof -
  have "length ''abc'' \<le> 1024 \<and> \<not> list_ex log_bad (runes ''abc'')" by code_simp
  moreover have "sanitizeLogValue [CHR ''a'', CHR 0x0A] = ''a?''" by code_simp
  ultimately show ?thesis using sanitizeLogValue_safe [of "''abc''"] by blast
qed

text \<open>The bound of 1 KiB is on what is read: each stray byte is written as a three-byte U+FFFD.\<close>

lemma sanitizeLogValue_grows: "length (sanitizeLogValue [CHR 0x0A, CHR 0xFF]) = 4"
proof -
  have "runes [CHR 0x0A, CHR 0xFF] = [10, 0xFFFD]" by (simp add: runes.simps(2) [of "CHR 0xFF"] decode_rune.simps(2) [of "CHR 0xFF"] Let_def)
  then show ?thesis by (simp add: sanitizeLogValue_def Let_def log_bad_def encode_rune_def)
qed

end
