(* ===== verification/Rest.thy ===== *)
theory Rest
  imports System Store Client_IP
begin

text \<open>
  \<open>internal/server/rest.go\<close> and \<open>health.go\<close>: the admin API for keys, the token-signing endpoint and the
  health check, as functions from a request and the server's state to a response and the new state.

  What the handlers draw from outside is \<open>rest_env\<close>: random bytes (\<open>None\<close> when the generator fails), the
  driver's error if the store call fails, the fresh ULID, the clock, and \<open>ulid.ParseStrict\<close>, which is a
  library's. \<open>http.MaxBytesReader\<close> ends the body after \<open>maxAdminBodyBytes\<close>; the decoder takes the first
  JSON value of what is left. JSON objects of strings are their pairs; a list of keys is the list of views,
  whose times \<open>encoding/json\<close> prints.
\<close>

declare map_of_eq_Some_iff [simp del] Some_eq_map_of_iff [simp del]

record 'l server =
  sworld :: "'l world"
  sstore :: store
  adminToken :: string
  health_draining :: bool
  trustedProxies :: "prefix list"
  ipCount :: "(string, int) gomap"
  ipCap :: int

record keyView =
  v_ID :: string
  v_Name :: string
  v_CreatedAt :: int
  v_RevokedAt :: "int option"

datatype resp_body = NoBody | Text string | Pairs "(string \<times> string) list" | Views "keyView list"

record response =
  status :: nat
  rbody :: resp_body

record rest_env =
  e_rnd :: "bytes option"
  e_jti :: "bytes option"
  e_fault :: "string option"
  e_ulid :: string
  e_now :: int
  e_ParseStrict :: "string \<Rightarrow> bool"

definition http_Error :: "string \<Rightarrow> nat \<Rightarrow> response" where
  "http_Error msg code = \<lparr>status = code, rbody = Text (msg @ [CHR 0x0A])\<rparr>"

definition writeJSON :: "nat \<Rightarrow> resp_body \<Rightarrow> response" where
  "writeJSON code v = \<lparr>status = code, rbody = v\<rparr>"

definition maxAdminBodyBytes :: nat where "maxAdminBodyBytes = 2 ^ 16"

definition toKeyView :: "Key \<Rightarrow> keyView" where
  "toKeyView k = \<lparr>v_ID = ID k, v_Name = KName k, v_CreatedAt = CreatedAt k, v_RevokedAt = RevokedAt k\<rparr>"

definition bearer :: string where "bearer = ''Bearer ''"

definition requireAdmin ::
  "(request \<Rightarrow> 'l server \<Rightarrow> response \<times> 'l server) \<Rightarrow> request \<Rightarrow> 'l server \<Rightarrow> response \<times> 'l server" where
  "requireAdmin handler r s =
    (let ah = Header_Get ''Authorization'' r in
     if \<not> HasPrefix ah bearer then (http_Error ''unauthorized'' 401, s)
     else let got = drop (length bearer) ah; want = adminToken s in
       if length got \<noteq> length want \<or> ConstantTimeCompare got want \<noteq> 1 then (http_Error ''unauthorized'' 401, s)
       else handler r s)"

definition rest_create :: "rest_env \<Rightarrow> request \<Rightarrow> 'l server \<Rightarrow> response \<times> 'l server" where
  "rest_create e r s =
    (case json_Decode [(''name'', FString)] True (take maxAdminBodyBytes (req_body r)) of
       None \<Rightarrow> (http_Error ''bad request'' 400, s)
     | Some b \<Rightarrow>
        if str_field ''name'' b = [] then (http_Error ''bad request'' 400, s)
        else case GenerateSecret (e_rnd e) of
            None \<Rightarrow> (http_Error ''internal error'' 500, s)
          | Some secret \<Rightarrow>
             (case st_CreateKey (e_fault e) (e_ulid e) (e_now e) (str_field ''name'' b) (HashSecret secret) (sstore s) of
                (Inl err, st) \<Rightarrow> (http_Error ''internal error'' 500, s\<lparr>sstore := st\<rparr>)
              | (Inr k, st) \<Rightarrow>
                 (writeJSON 201 (Pairs [(''id'', ID k), (''name'', KName k), (''secret'', secret)]), s\<lparr>sstore := st\<rparr>)))"

definition rest_list :: "rest_env \<Rightarrow> request \<Rightarrow> 'l server \<Rightarrow> response \<times> 'l server" where
  "rest_list e r s =
    (case st_ListKeys (e_fault e) (sstore s) of
       Inl err \<Rightarrow> (http_Error ''internal error'' 500, s)
     | Inr keys \<Rightarrow> (writeJSON 200 (Views (map toKeyView keys)), s))"

definition rest_revoke :: "rest_env \<Rightarrow> request \<Rightarrow> 'l server \<Rightarrow> response \<times> 'l server" where
  "rest_revoke e r s =
    (case st_RevokeKey (e_fault e) (e_now e) (path_id r) (sstore s) of
       (Some ErrKeyNotFound, st) \<Rightarrow> (http_Error ''not found'' 404, s\<lparr>sstore := st\<rparr>)
     | (Some err, st) \<Rightarrow> (http_Error ''internal error'' 500, s\<lparr>sstore := st\<rparr>)
     | (None, st) \<Rightarrow>
        (\<lparr>status = 204, rbody = NoBody\<rparr>,
         s\<lparr>sstore := st, sworld := world_CloseKey (path_id r) StatusPolicyViolation ''key revoked'' (sworld s)\<rparr>))"

text \<open>Five minutes in nanoseconds.\<close>

definition token_lifetime :: int where "token_lifetime = 300000000000"

definition rest_sign :: "rest_env \<Rightarrow> request \<Rightarrow> 'l server \<Rightarrow> response \<times> 'l server" where
  "rest_sign e r s =
    (let creds = TrimPrefix (Header_Get ''Authorization'' r) bearer in
     case SplitN creds (CHR '':'') 2 of
       [kid, secret] \<Rightarrow>
        (case st_LookupKey (e_fault e) kid (sstore s) of
           Inl err \<Rightarrow> (http_Error ''bad credentials'' 401, s)
         | Inr k \<Rightarrow>
            if RevokedAt k \<noteq> None \<or> \<not> VerifySecret secret (SecretHash k) then (http_Error ''bad credentials'' 401, s)
            else case json_Decode [(''socket_id'', FString), (''channel'', FString)] False (take maxAdminBodyBytes (req_body r)) of
                None \<Rightarrow> (http_Error ''bad request'' 400, s)
              | Some b \<Rightarrow>
                 (let sid = str_field ''socket_id'' b; ch = str_field ''channel'' b in
                  if \<not> e_ParseStrict e sid then (http_Error ''bad request: socket_id is not a valid socket id'' 400, s)
                  else if ValidateChannelName ch \<noteq> None \<or> \<not> ChannelRequiresAuth ch
                  then (http_Error ''bad request: channel must be a valid private- or presence- channel name'' 400, s)
                  else case SignToken (e_jti e) (signingSecret (sworld s)) sid ch (e_now e + token_lifetime) of
                      None \<Rightarrow> (http_Error ''internal error'' 500, s)
                    | Some token \<Rightarrow> (writeJSON 200 (Pairs [(''token'', token)]), s)))
     | _ \<Rightarrow> (http_Error ''bad credentials'' 401, s))"

subsection \<open>Health\<close>

definition SetDraining :: "bool \<Rightarrow> 'l server \<Rightarrow> 'l server" where
  "SetDraining d s = s\<lparr>health_draining := d\<rparr>"

definition health_Draining :: "'l server \<Rightarrow> bool" where
  "health_Draining s = health_draining s"

definition health_ServeHTTP :: "'l server \<Rightarrow> response" where
  "health_ServeHTTP s = (if health_draining s then http_Error ''draining'' 503 else \<lparr>status = 200, rbody = Text ''ok''\<rparr>)"

subsection \<open>Routes\<close>

datatype rest_endpoint = EpHealth | EpSign | EpCreate | EpList | EpRevoke

datatype endpoint = RestEp rest_endpoint | EpConnect | EpStatic | EpMetrics | EpPprof

definition RegisterPublic :: "(string \<times> endpoint) list \<Rightarrow> (string \<times> endpoint) list" where
  "RegisterPublic mux = mux @ [(''POST /v1/auth/sign'', RestEp EpSign)]"

definition RegisterAdmin :: "(string \<times> endpoint) list \<Rightarrow> (string \<times> endpoint) list" where
  "RegisterAdmin mux = mux @ [(''POST /v1/keys'', RestEp EpCreate), (''GET /v1/keys'', RestEp EpList), (''DELETE /v1/keys/{id}'', RestEp EpRevoke)]"

definition rest_Register :: "(string \<times> endpoint) list \<Rightarrow> (string \<times> endpoint) list" where
  "rest_Register mux = RegisterAdmin (RegisterPublic mux)"

text \<open>The handler behind an admin endpoint is always wrapped in \<open>requireAdmin\<close>.\<close>

fun serve_rest :: "rest_endpoint \<Rightarrow> rest_env \<Rightarrow> request \<Rightarrow> 'l server \<Rightarrow> response \<times> 'l server" where
  "serve_rest EpCreate e = requireAdmin (rest_create e)"
| "serve_rest EpList e = requireAdmin (rest_list e)"
| "serve_rest EpRevoke e = requireAdmin (rest_revoke e)"
| "serve_rest EpSign e = rest_sign e"
| "serve_rest EpHealth e = (\<lambda>r s. (health_ServeHTTP s, s))"

end
