(* ===== verification/Upgrade.thy ===== *)
theory Upgrade
  imports Rest Conn_Props
begin

text \<open>
  \<open>UpgradeHandler.ServeHTTP\<close> of \<open>internal/server/upgrade.go\<close>: the checks before a WebSocket is accepted, the
  count of connections per client address, and its release when the connection has ended.
\<close>

declare map_of_eq_Some_iff [simp del] Some_eq_map_of_iff [simp del]

definition srv_count :: "metric_call \<Rightarrow> 'l server \<Rightarrow> 'l server" where
  "srv_count m s = s\<lparr>sworld := count m (sworld s)\<rparr>"

definition ip_count :: "string \<Rightarrow> 'l server \<Rightarrow> int" where
  "ip_count ip s = (case gm_get (ipCount s) ip of Some n \<Rightarrow> n | None \<Rightarrow> 0)"

datatype admission = Rejected response | Admitted string string

definition upgrade_admit :: "string option \<Rightarrow> request \<Rightarrow> 'l server \<Rightarrow> admission \<times> 'l server" where
  "upgrade_admit fault r s =
    (if health_Draining s
     then (Rejected (http_Error ''draining'' 503), srv_count (UpgradeRej_Inc ''draining'') s)
     else let keyID = query_key r in
       if keyID = [] then (Rejected (http_Error ''missing key'' 401), srv_count (UpgradeRej_Inc ''bad_key'') s)
       else case st_LookupKey fault keyID (sstore s) of
           Inl err \<Rightarrow> (Rejected (http_Error ''invalid key'' 401), srv_count (UpgradeRej_Inc ''bad_key'') s)
         | Inr k \<Rightarrow>
            if RevokedAt k \<noteq> None
            then (Rejected (http_Error ''invalid key'' 401), srv_count (UpgradeRej_Inc ''bad_key'') s)
            else let ip = ipCapKey (clientIP r (trustedProxies s)) in
              if ip_count ip s \<ge> ipCap s
              then (Rejected (http_Error ''too many connections from this IP'' 429), srv_count (UpgradeRej_Inc ''phantom_cap'') s)
              else (Admitted ip (ID k), s\<lparr>ipCount := gm_put ip (ip_count ip s + 1) (ipCount s)\<rparr>))"

text \<open>The deferred release.\<close>

definition upgrade_release :: "string \<Rightarrow> 'l server \<Rightarrow> 'l server" where
  "upgrade_release ip s =
    (let s1 = s\<lparr>ipCount := gm_put ip (ip_count ip s - 1) (ipCount s)\<rparr>
     in if ip_count ip s1 \<le> 0 then s1\<lparr>ipCount := gm_del ip (ipCount s1)\<rparr> else s1)"

text \<open>
  The handler up to the pumps: \<open>acc\<close> is whether \<open>websocket.Accept\<close> succeeded. When it did not, or
  \<open>Run\<close> returned at once, the count is released.
\<close>

definition upgrade_ServeHTTP ::
  "'l rate_ops \<Rightarrow> policy \<Rightarrow> bool \<Rightarrow> bool \<Rightarrow> cid \<Rightarrow> string \<Rightarrow> string option \<Rightarrow> request \<Rightarrow> 'l server \<Rightarrow> (admission \<times> bool) \<times> 'l server" where
  "upgrade_ServeHTTP ops p acc nc c ulid fault r s =
    (case upgrade_admit fault r s of
       (Rejected resp, s1) \<Rightarrow> ((Rejected resp, False), s1)
     | (Admitted ip kid, s1) \<Rightarrow>
        if \<not> acc then ((Admitted ip kid, False), upgrade_release ip s1)
        else (case Run_start ops p nc c ulid kid (sworld s1) of
            (True, w) \<Rightarrow> ((Admitted ip kid, True), s1\<lparr>sworld := w\<rparr>)
          | (False, w) \<Rightarrow> ((Admitted ip kid, False), upgrade_release ip (s1\<lparr>sworld := w\<rparr>))))"

subsection \<open>The cap per client\<close>

text \<open>
  Requests and connections come and go in any order. \<open>live\<close> holds the bucket of every request that was
  admitted and has not been released. Everything else the server does, which \<open>rest\<close> stands for, leaves the
  counts alone.
\<close>

inductive cap_step :: "'l server \<times> string list \<Rightarrow> 'l server \<times> string list \<Rightarrow> bool" where
  admit: "upgrade_admit fault r s = (Admitted ip kid, s') \<Longrightarrow> cap_step (s, live) (s', ip # live)"
| reject: "upgrade_admit fault r s = (Rejected resp, s') \<Longrightarrow> cap_step (s, live) (s', live)"
| release: "ip \<in> set live \<Longrightarrow> cap_step (s, live) (upgrade_release ip s, remove1 ip live)"
| rest: "ipCount s' = ipCount s \<Longrightarrow> ipCap s' = ipCap s \<Longrightarrow> cap_step (s, live) (s', live)"

inductive cap_reach :: "'l server \<times> string list \<Rightarrow> bool" where
  init: "ipCount s = [] \<Longrightarrow> cap_reach (s, [])"
| next_step: "cap_reach x \<Longrightarrow> cap_step x y \<Longrightarrow> cap_reach y"

definition cap_inv :: "'l server \<Rightarrow> string list \<Rightarrow> bool" where
  "cap_inv s live \<longleftrightarrow> (\<forall>ip. gm_get (ipCount s) ip = (if count_list live ip = 0 then None else Some (int (count_list live ip))) \<and>
    (0 < count_list live ip \<longrightarrow> int (count_list live ip) \<le> ipCap s))"

lemma cap_inv_count: "cap_inv s live \<Longrightarrow> ip_count ip s = int (count_list live ip)"
  by (simp add: cap_inv_def ip_count_def)

lemma admit_rejected: "upgrade_admit fault r s = (Rejected resp, s') \<Longrightarrow> ipCount s' = ipCount s \<and> ipCap s' = ipCap s \<and> sstore s' = sstore s"
  by (auto simp: upgrade_admit_def srv_count_def Let_def split: if_splits sum.splits)

lemma admit_admitted:
  assumes "upgrade_admit fault r s = (Admitted ip kid, s')"
  shows "s' = s\<lparr>ipCount := gm_put ip (ip_count ip s + 1) (ipCount s)\<rparr>" "ip_count ip s < ipCap s"
    "ip = ipCapKey (clientIP r (trustedProxies s))" "\<not> health_draining s"
    "\<exists>k. st_LookupKey fault (query_key r) (sstore s) = Inr k \<and> RevokedAt k = None \<and> ID k = kid"
  using assms by (auto simp: upgrade_admit_def health_Draining_def Let_def split: if_splits sum.splits)

lemma count_list_remove1: "x \<in> set xs \<Longrightarrow> count_list (remove1 x xs) y = (if y = x then count_list xs y - 1 else count_list xs y)"
  by (induction xs) auto

lemma cap_inv_step: "cap_step x y \<Longrightarrow> cap_inv (fst x) (snd x) \<Longrightarrow> cap_inv (fst y) (snd y)"
proof (induction x y rule: cap_step.induct)
  case (admit fault r s ip kid s' live)
  note a = admit_admitted(1,2) [OF admit(1)]
  have c: "ip_count ip s = int (count_list live ip)" by (rule cap_inv_count) (use admit.prems in simp)
  show ?case using admit.prems a(2) c by (auto simp: cap_inv_def a(1))
next
  case (reject fault r s resp s' live)
  then show ?case using admit_rejected [OF reject(1)] by (simp add: cap_inv_def)
next
  case (release ip live s)
  let ?n = "count_list live ip"
  have c: "ip_count ip s = int ?n" by (rule cap_inv_count) (use release.prems in simp)
  have n: "0 < ?n" using release(1) by (induction live) auto
  have r: "gm_get (ipCount (upgrade_release ip s)) x = (if x = ip then if ?n = 1 then None else Some (int ?n - 1) else gm_get (ipCount s) x)"
    "ipCap (upgrade_release ip s) = ipCap s" for x
    using n by (auto simp: upgrade_release_def Let_def ip_count_def [of ip "s\<lparr>ipCount := y\<rparr>" for y] c)
  have inv: "cap_inv s live" using release.prems by simp
  show ?case unfolding cap_inv_def fst_conv snd_conv
  proof
    fix x
    show "gm_get (ipCount (upgrade_release ip s)) x =
        (if count_list (remove1 ip live) x = 0 then None else Some (int (count_list (remove1 ip live) x))) \<and>
      (0 < count_list (remove1 ip live) x \<longrightarrow> int (count_list (remove1 ip live) x) \<le> ipCap (upgrade_release ip s))"
      using inv n unfolding r count_list_remove1 [OF release(1)] cap_inv_def by (auto simp: of_nat_diff dest: spec [of _ x])
  qed
next
  case (rest s' s live)
  then show ?case by (simp add: cap_inv_def)
qed

lemma cap_reach_inv: "cap_reach x \<Longrightarrow> cap_inv (fst x) (snd x)"
proof (induction rule: cap_reach.induct)
  case (init s)
  then show ?case by (simp add: cap_inv_def)
next
  case (next_step x y)
  then show ?case using cap_inv_step by blast
qed

text \<open>
  C19: The per-client connection cap holds and leaks nothing. However requests, connections and releases
  interleave, the number of admitted connections of a client that have not ended never exceeds the cap,
  the count kept for the client is exactly that number, and a client with no connection has no entry.
\<close>

theorem ip_cap_respected:
  assumes "cap_reach (s, live)"
  shows "(0 < count_list live ip \<longrightarrow> int (count_list live ip) \<le> ipCap s) \<and>
    gm_get (ipCount s) ip = (if ip \<in> set live then Some (int (count_list live ip)) else None)"
proof -
  have "count_list live ip = 0 \<longleftrightarrow> ip \<notin> set live" by (simp add: count_list_0_iff)
  then show ?thesis using cap_reach_inv [OF assms] by (simp add: cap_inv_def)
qed

definition demo_server :: "unit server" where
  "demo_server = \<lparr>sworld = demo_world, sstore = MemoryStore [(''k'', \<lparr>ID = ''k'', KName = ''n'', SecretHash = HashSecret ''x'', CreatedAt = 0, RevokedAt = None\<rparr>)],
     adminToken = ''adm'', health_draining = False, trustedProxies = [], ipCount = [], ipCap = 1\<rparr>"

definition direct_request :: request where
  "direct_request = \<lparr>RemoteAddr = ''1.2.3.4:5'', header = [], query_key = ''k'', path_id = [], req_body = []\<rparr>"

lemma direct_key: "ipCapKey (clientIP direct_request []) = ''1.2.3.4''"
  by code_simp

lemma demo_admit: "upgrade_admit None direct_request demo_server = (Admitted ''1.2.3.4'' ''k'', demo_server\<lparr>ipCount := [(''1.2.3.4'', 1)]\<rparr>)"
proof -
  have "trustedProxies demo_server = []" by (simp add: demo_server_def)
  then show ?thesis
    using direct_key by (simp add: upgrade_admit_def health_Draining_def demo_server_def direct_request_def memory_LookupKey_def ip_count_def Let_def)
qed

theorem ip_cap_respected_witness:
  "gm_get (ipCount (demo_server\<lparr>ipCount := [(''1.2.3.4'', 1)]\<rparr>)) ''1.2.3.4'' = Some 1"
proof -
  have "cap_reach (demo_server, [])" by (rule cap_reach.init) (simp add: demo_server_def)
  then have "cap_reach (demo_server\<lparr>ipCount := [(''1.2.3.4'', 1)]\<rparr>, [''1.2.3.4''])"
    by (rule cap_reach.next_step [OF _ cap_step.admit [OF demo_admit]])
  from ip_cap_respected [OF this, of "''1.2.3.4''"] show ?thesis by simp
qed

end
