(* ===== verification/Server.thy ===== *)
theory Server
  imports Upgrade
begin

text \<open>
  \<open>internal/server/server.go\<close>: how a server is put together, and how it stops. What other goroutines
  do between two steps of the shutdown are the functions of \<open>shutdown_env\<close>, which take steps of \<open>serve_step\<close>
  (connections, requests, upgrades) and, inside the drain, of \<open>hub_act\<close>; what the standard library's
  listeners answer are values.
\<close>

declare map_of_eq_Some_iff [simp del] Some_eq_map_of_iff [simp del]

subsection \<open>Construction\<close>

record srv_config =
  Addr :: string
  AdminAddr :: string
  AllowedOrigins :: "string list"

text \<open>The fields of an \<open>http.Server\<close> that are set, in seconds; \<open>ConnContext\<close> says whether it is \<open>conn.WithNetConn\<close>.\<close>

record http_server =
  http_Addr :: string
  Handler :: "(string \<times> endpoint) list"
  ReadHeaderTimeout :: int
  IdleTimeout :: int
  ConnContext :: bool

record 'l proc =
  cfg :: srv_config
  core :: "'l server"
  mux :: "(string \<times> endpoint) list"
  adminMux :: "(string \<times> endpoint) list"
  publicSrv :: http_server
  adminSrv :: "http_server option"
  drainGrace :: int
  listenerGrace :: int

definition NewUpgradeHandler :: "(string \<Rightarrow> string) \<Rightarrow> 'l server \<Rightarrow> 'l server" where
  "NewUpgradeHandler getenv s = s\<lparr>trustedProxies := parseTrustedProxies (getenv ''WIREFAN_TRUSTED_PROXIES''),
     ipCount := [], ipCap := parseIPCap (getenv ''WIREFAN_IP_CAP'')\<rparr>"

text \<open>\<open>None\<close> is the panic of \<open>metrics.Register\<close>, which never happens in a fresh process. Seconds.\<close>

definition Server_New :: "(string \<Rightarrow> string) \<Rightarrow> srv_config \<Rightarrow> store \<Rightarrow> string \<Rightarrow> 'l world \<Rightarrow> 'l proc option" where
  "Server_New getenv c st token w =
    (case Register (mets w) of
       None \<Rightarrow> None
     | Some m \<Rightarrow>
        let pub = RegisterPublic [(''/v1/health'', RestEp EpHealth)] @ [(''/v1/connect'', EpConnect), (''/'', EpStatic)];
            adm = RegisterAdmin [(''/metrics'', EpMetrics), (''/debug/pprof/'', EpPprof), (''/debug/pprof/cmdline'', EpPprof),
              (''/debug/pprof/profile'', EpPprof), (''/debug/pprof/symbol'', EpPprof), (''/debug/pprof/trace'', EpPprof)]
        in Some \<lparr>cfg = c,
          core = NewUpgradeHandler getenv
            \<lparr>sworld = w\<lparr>mets := m, cache := Some NewReplayCache\<rparr>, sstore = st, adminToken = token, health_draining = False,
             trustedProxies = [], ipCount = [], ipCap = 0\<rparr>,
          mux = pub, adminMux = adm,
          publicSrv = \<lparr>http_Addr = Addr c, Handler = pub, ReadHeaderTimeout = 10, IdleTimeout = 120, ConnContext = True\<rparr>,
          adminSrv = (if AdminAddr c = [] then None
            else Some \<lparr>http_Addr = AdminAddr c, Handler = adm, ReadHeaderTimeout = 10, IdleTimeout = 120, ConnContext = False\<rparr>),
          drainGrace = 30, listenerGrace = 5\<rparr>)"

definition Server_ReplayCache :: "'l proc \<Rightarrow> replay_cache option" where
  "Server_ReplayCache p = cache (sworld (core p))"

subsection \<open>Shutdown\<close>

datatype shutdown_result = ShutdownOk | DeadlineExceeded | ShutdownFailed string

datatype listener = AdminListener | PublicListener

datatype listener_call = Shutdown listener | CloseListener listener

text \<open>
  \<open>res\<close> is what \<open>Shutdown\<close> returned and \<open>close_err\<close> what \<open>Close\<close> would; the calls made are part of the result.
\<close>

definition shutdownListener :: "listener \<Rightarrow> shutdown_result \<Rightarrow> string option \<Rightarrow> string option \<times> listener_call list" where
  "shutdownListener l res close_err =
    (case res of ShutdownOk \<Rightarrow> (None, [Shutdown l])
     | DeadlineExceeded \<Rightarrow> (close_err, [Shutdown l, CloseListener l])
     | ShutdownFailed e \<Rightarrow> (Some e, [Shutdown l]))"

text \<open>
  The functions are what other goroutines do: before the drain, inside it, and while either listener is
  shutting down. The pairs are the answers of the two listeners to \<open>Shutdown\<close> and \<open>Close\<close>.
\<close>

record 'l shutdown_env =
  before_drain :: "'l server \<Rightarrow> 'l server"
  drain_gap :: "hub \<Rightarrow> hub"
  drain_start :: "hub \<Rightarrow> hub"
  drain_ticks :: "(hub \<Rightarrow> hub) list"
  during_admin :: "'l server \<Rightarrow> 'l server"
  admin_down :: "shutdown_result \<times> string option"
  during_public :: "'l server \<Rightarrow> 'l server"
  public_down :: "shutdown_result \<times> string option"

definition server_drain :: "(hub \<Rightarrow> hub) \<Rightarrow> (hub \<Rightarrow> hub) \<Rightarrow> (hub \<Rightarrow> hub) list \<Rightarrow> 'l server \<Rightarrow> 'l server" where
  "server_drain gap start ticks s =
    (let (cs, h) = hub_Drain gap start ticks (hubst (sworld s))
     in s\<lparr>sworld := fold run_close cs ((sworld s)\<lparr>hubst := h\<rparr>)\<rparr>)"

definition close_fanout :: "'l server \<Rightarrow> 'l server" where
  "close_fanout s =
    (let w = sworld s in
     case fan_Close deliver (chans w) (fan w, w) of (f, w') \<Rightarrow> s\<lparr>sworld := w'\<lparr>fan := f\<rparr>\<rparr>)"

text \<open>The admin listener, where there is one, is stopped before the public one, and its result is ignored.\<close>

definition stop_listeners :: "bool \<Rightarrow> 'l shutdown_env \<Rightarrow> 'l server \<Rightarrow> string option \<times> listener_call list \<times> 'l server" where
  "stop_listeners adm e s =
    (let (ignored, acalls) = (if adm then shutdownListener AdminListener (fst (admin_down e)) (snd (admin_down e)) else (None, []));
         s1 = (if adm then during_admin e s else s);
         (err, pcalls) = shutdownListener PublicListener (fst (public_down e)) (snd (public_down e))
     in (err, acalls @ pcalls, during_public e s1))"

text \<open>
  \<open>Run\<close> after its \<open>select\<close>: a listener failed, and its error is returned, or the context was cancelled.
  \<open>adm\<close> says whether there is an admin listener.
\<close>

definition Server_Run :: "bool \<Rightarrow> string option \<Rightarrow> 'l shutdown_env \<Rightarrow> 'l server \<Rightarrow> string option \<times> listener_call list \<times> 'l server" where
  "Server_Run adm listen_err e s =
    (case listen_err of
       Some err \<Rightarrow> (Some err, [], s)
     | None \<Rightarrow>
        let s1 = SetDraining True s;
            s2 = server_drain (drain_gap e) (drain_start e) (drain_ticks e) (before_drain e s1);
            (err, calls, s3) = stop_listeners adm e s2
        in (err, calls, close_fanout s3))"

definition sweepReplayCache :: "int list \<Rightarrow> replay_cache \<Rightarrow> replay_cache" where
  "sweepReplayCache ticks seen = fold (\<lambda>now m. snd (ReplayCache_Sweep now m)) ticks seen"

subsection \<open>The other goroutines\<close>

text \<open>
  What runs beside the shutdown: the connections, the garbage collectors, the workers and the statistics
  (\<open>sys_step\<close>), the REST handlers, the upgrades and the releases after them.
\<close>

inductive serve_step :: "'l rate_ops \<Rightarrow> 'l server \<Rightarrow> 'l server \<Rightarrow> bool" for ops where
  world: "sys_step ops (sworld s) w \<Longrightarrow> serve_step ops s (s\<lparr>sworld := w\<rparr>)"
| request: "serve_step ops s (snd (serve_rest ep e r s))"
| upgrade: "serve_step ops s (snd (upgrade_ServeHTTP ops p acc nc c ulid fault r s))"
| upgrade_end: "serve_step ops s (upgrade_release ip s)"

text \<open>What they do to the hub while \<open>Drain\<close> is under way.\<close>

inductive hub_act :: "hub \<Rightarrow> hub \<Rightarrow> bool" where
  add: "hub_act h (snd (hub_Add key c h))"
| remove: "hub_act h (hub_Remove c h)"
| close_key: "hub_act h (snd (snd (hub_CloseKey key keyID code reason h)))"
| mark: "hub_act h (drain_mark h)"

text \<open>Between the steps of the shutdown, any number of these happen, and nothing else.\<close>

definition others_run :: "'l rate_ops \<Rightarrow> 'l shutdown_env \<Rightarrow> bool" where
  "others_run ops e \<longleftrightarrow>
    (\<forall>g \<in> {before_drain e, during_admin e, during_public e}. \<forall>s. (serve_step ops)\<^sup>*\<^sup>* s (g s)) \<and>
    (\<forall>g \<in> {drain_gap e, drain_start e} \<union> set (drain_ticks e). \<forall>h. hub_act\<^sup>*\<^sup>* h (g h))"

text \<open>None of them takes a shutdown back.\<close>

lemma hub_act_draining: "hub_act h h' \<Longrightarrow> draining h \<Longrightarrow> draining h'"
  by (induction rule: hub_act.induct) (auto simp: hub_Add_def hub_Remove_def hub_CloseKey_def drain_mark_def Let_def split: option.split)

lemma hub_acts_draining: "hub_act\<^sup>*\<^sup>* h h' \<Longrightarrow> draining h \<Longrightarrow> draining h'"
  by (induction rule: rtranclp_induct) (auto dest: hub_act_draining)

lemma frame_draining: "frame w w' \<Longrightarrow> draining (hubst w) \<Longrightarrow> draining (hubst w')"
  by (simp add: frame_def calm_def)

lemma Run_start_draining: "draining (hubst w) \<Longrightarrow> draining (hubst (snd (Run_start ops p nc c sid key w)))"
  by (auto simp: Run_start_def hub_Add_def hub_Remove_def cancel_def Conn_CloseFrame_def ws_call_def split: prod.split bool.split option.split)

lemma CloseKey_draining: "draining (hubst w) \<Longrightarrow> draining (hubst (world_CloseKey keyID code reason w))"
proof -
  assume d: "draining (hubst w)"
  obtain n cs h where k: "hub_CloseKey (APIKeyID w) keyID code reason (hubst w) = (n, cs, h)" by (metis prod_cases3)
  then have "draining h" using d by (auto simp: hub_CloseKey_def Let_def)
  with frame_draining [OF frame_run_closes [of "w\<lparr>hubst := h\<rparr>" cs]] show ?thesis by (simp add: world_CloseKey_def k)
qed

lemma sys_step_draining: "sys_step ops w w' \<Longrightarrow> draining (hubst w) \<Longrightarrow> draining (hubst w')"
proof (induction rule: sys_step.induct)
  case (start w c p nc sid key)
  then show ?case using Run_start_draining by blast
next
  case (reading w c itf e res)
  then show ?case using calm_handle [of w ops itf e c "the res"] by (cases res) (simp_all add: readPump_step_def calm_def)
next
  case (writing w c ev)
  then show ?case using frame_draining [OF frame_writePump] by blast
next
  case (finish w c slow)
  then show ?case by (simp add: Run_finish_hub hub_Remove_def)
next
  case (stats w rd r m ident)
  obtain ch r' h where g: "reg_GetOrCreate statsChannel (reg w, chans w) = (ch, r', h)" by (metis prod_cases3)
  show ?case using stats frame_draining [OF fr.R_Broadcast [of "w\<lparr>reg := r', chans := h\<rparr>"]] by (simp add: PublishStats_tick_def g Let_def)
next
  case (worker w p i p' w')
  have "frame w w'" using worker(3) fr.R_Broadcast frame_refl by (auto simp: pool_run_def split: option.splits)
  then show ?case using worker.prems by (simp add: frame_def calm_def)
next
  case (close_key w keyID code reason)
  then show ?case by (rule CloseKey_draining)
next
  case (close_conn w cl)
  then show ?case using frame_draining [OF frame_run_close] by blast
next
  case (close_timer w c)
  then show ?case using frame_draining [OF frame_closeNetConn] by blast
qed (simp_all add: drain_mark_def)

definition stopping :: "'l server \<Rightarrow> bool" where
  "stopping s \<longleftrightarrow> health_draining s \<and> draining (hubst (sworld s))"

lemma rest_draining:
  "health_draining (snd (requireAdmin h r s)) = health_draining s"
  "draining (hubst (sworld s)) \<Longrightarrow> draining (hubst (sworld (snd (requireAdmin h r s))))"
  if "health_draining (snd (h r s)) = health_draining s"
    "draining (hubst (sworld s)) \<Longrightarrow> draining (hubst (sworld (snd (h r s))))"
  using that by (simp_all add: requireAdmin_def Let_def)

lemma sign_keeps: "snd (rest_sign e r s) = s"
proof -
  have two: "snd (case xs of [kid, secret] \<Rightarrow> f kid secret | _ \<Rightarrow> (resp, s)) = s" if "\<And>k t. snd (f k t) = s" for xs f resp
    using that by (auto split: list.split)
  have key: "snd (case x of Inl a \<Rightarrow> (p, s) | Inr k \<Rightarrow> g k) = s" if "\<And>k. snd (g k) = s" for x :: "'x + 'y" and p g
    using that by (cases x) simp_all
  have opt: "snd (case x of None \<Rightarrow> (p, s) | Some b \<Rightarrow> g b) = s" if "\<And>b. snd (g b) = s" for x :: "'x option" and p g
    using that by (cases x) simp_all
  have ite: "snd (if b then (p, s) else y) = s" if "snd y = s" for b p y using that by simp
  show ?thesis unfolding rest_sign_def Let_def
    by (rule two, rule key, rule ite, rule opt, rule ite, rule ite, rule opt) simp
qed

lemma create_keeps: "health_draining (snd (rest_create e r s)) = health_draining s" "sworld (snd (rest_create e r s)) = sworld s"
  by (simp_all add: rest_create_def split: option.split prod.split sum.split)

lemma revoke_keeps:
  "health_draining (snd (rest_revoke e r s)) = health_draining s"
  "draining (hubst (sworld s)) \<Longrightarrow> draining (hubst (sworld (snd (rest_revoke e r s))))"
  by (simp_all add: rest_revoke_def CloseKey_draining split: prod.split option.split store_error.split)

lemma list_keeps: "snd (rest_list e r s) = s"
  by (simp add: rest_list_def split: sum.split)

lemmas rest_handlers_draining = sign_keeps create_keeps revoke_keeps list_keeps

lemma serve_rest_flags:
  "health_draining (snd (serve_rest ep e r s)) = health_draining s"
  "draining (hubst (sworld s)) \<Longrightarrow> draining (hubst (sworld (snd (serve_rest ep e r s))))"
  by (cases ep; simp add: rest_draining rest_handlers_draining)+

lemma admit_flags:
  "health_draining (snd (upgrade_admit fault r s)) = health_draining s"
  "hubst (sworld (snd (upgrade_admit fault r s))) = hubst (sworld s)"
  by (auto simp: upgrade_admit_def srv_count_def Let_def split: option.split sum.split)

lemma release_flags:
  "health_draining (upgrade_release ip s) = health_draining s" "sworld (upgrade_release ip s) = sworld s"
  by (simp_all add: upgrade_release_def Let_def)

lemma upgrade_flags:
  "health_draining (snd (upgrade_ServeHTTP ops p acc nc c ulid fault r s)) = health_draining s"
  "draining (hubst (sworld s)) \<Longrightarrow> draining (hubst (sworld (snd (upgrade_ServeHTTP ops p acc nc c ulid fault r s))))"
proof -
  obtain adm s1 where a: "upgrade_admit fault r s = (adm, s1)" by fastforce
  have s1: "health_draining s1 = health_draining s" "hubst (sworld s1) = hubst (sworld s)"
    using admit_flags [of fault r s] by (simp_all add: a)
  show "health_draining (snd (upgrade_ServeHTTP ops p acc nc c ulid fault r s)) = health_draining s"
    by (cases adm) (simp_all add: upgrade_ServeHTTP_def a s1 release_flags split: prod.split bool.split)
  assume "draining (hubst (sworld s))"
  with s1(2) have d: "draining (hubst (sworld s1))" by simp
  have "draining (hubst w)" if "Run_start ops p nc c ulid kid (sworld s1) = (ok, w)" for kid ok w
    using Run_start_draining [OF d, of ops p nc c ulid kid] that by simp
  with d show "draining (hubst (sworld (snd (upgrade_ServeHTTP ops p acc nc c ulid fault r s))))"
    by (cases adm) (simp_all add: upgrade_ServeHTTP_def a release_flags split: prod.split bool.split)
qed

lemma serve_step_flags:
  assumes "serve_step ops s s'"
  shows "health_draining s' = health_draining s" "draining (hubst (sworld s)) \<Longrightarrow> draining (hubst (sworld s'))"
  using assms
  by (induction rule: serve_step.induct)
    (auto simp: serve_rest_flags upgrade_flags release_flags dest: sys_step_draining)

lemma serve_steps_flags:
  assumes "(serve_step ops)\<^sup>*\<^sup>* s s'"
  shows "health_draining s' = health_draining s" "draining (hubst (sworld s)) \<Longrightarrow> draining (hubst (sworld s'))"
  using assms by (induction rule: rtranclp_induct) (auto dest: serve_step_flags)

subsection \<open>What a client meets during a shutdown\<close>

lemma run_closes_hub: "hubst (fold run_close cs w) = hubst w"
  using frame_run_closes [of w cs] by (simp add: frame_def calm_def)

lemma drain_wait_keeps: "\<forall>g \<in> set ticks. \<forall>h. draining h \<longrightarrow> draining (g h) \<Longrightarrow> draining h \<Longrightarrow> draining (snd (drain_wait ticks h))"
  by (induction ticks h rule: drain_wait.induct) auto

lemma server_drain_stopping:
  assumes "others_run ops e" "health_draining s"
  shows "stopping (server_drain (drain_gap e) (drain_start e) (drain_ticks e) s)"
proof -
  have acts: "draining (g h)" if "g \<in> {drain_gap e, drain_start e} \<union> set (drain_ticks e)" "draining h" for g h
    using assms(1) that hub_acts_draining unfolding others_run_def by blast
  obtain cs h where d: "hub_Drain (drain_gap e) (drain_start e) (drain_ticks e) (hubst (sworld s)) = (cs, h)" by fastforce
  let ?h0 = "drain_start e (drain_gap e (drain_mark (hubst (sworld s))))"
  have ticks: "draining (g h)" if "g \<in> set (drain_ticks e)" "draining h" for g h using acts [of g h] that by simp
  have "draining (drain_gap e (drain_mark (hubst (sworld s))))" by (rule acts [of "drain_gap e"]) (simp_all add: drain_mark_def)
  then have "draining ?h0" by (rule acts [of "drain_start e", rotated]) simp
  then have "draining (snd (drain_wait (drain_ticks e) ?h0))" by (intro drain_wait_keeps) (simp_all add: ticks)
  moreover have "h = snd (drain_wait (drain_ticks e) ?h0)" using d by (auto simp: hub_Drain_def Let_def split: prod.splits)
  ultimately show ?thesis using assms(2) d by (simp add: stopping_def server_drain_def run_closes_hub)
qed

text \<open>
  C21: A stopped server lets nothing in and loses nothing it accepted. Suppose \<open>Run\<close>'s context was cancelled
  and between the steps of the shutdown the other goroutines took any number of their steps, on the
  server and inside the drain (\<open>others_run\<close>: connections, sweeps, workers, statistics, REST requests, upgrades,
  in any order; that none of these takes the shutdown back is proved, not assumed). When \<open>Run\<close> returns, the health check and
  every upgrade answer 503 before any other check, and the hub refuses every connection. If a sharded fanout
  was still open when the listeners were down, each of its queues has been broadcast to the end and is empty,
  and it is closed. Both listeners have been shut down, the admin one first and only if there is one, each
  closed if it ran out of time; and the result is that of the public one alone: no error if it
  stopped, \<open>Close\<close>'s if it ran out of time, its own otherwise.
\<close>

theorem shutdown_complete:
  assumes "others_run ops e" "Server_Run adm None e s = (err, lcalls, s')"
  shows "let s3 = snd (snd (stop_listeners adm e (server_drain (drain_gap e) (drain_start e) (drain_ticks e) (before_drain e (SetDraining True s))))) in
    status (health_ServeHTTP s') = 503 \<and>
    (\<forall>fault r. fst (upgrade_admit fault r s') = Rejected (http_Error ''draining'' 503)) \<and>
    (\<forall>key c. fst (hub_Add key c (hubst (sworld s'))) = Some drainClose) \<and>
    (\<forall>p. fan (sworld s3) = Pool p \<and> \<not> pool_closed p \<longrightarrow>
      conns (sworld s') = conns (fold (pool_drain_queue deliver (chans (sworld s3))) (queues p) (sworld s3)) \<and>
      (\<exists>p'. fan (sworld s') = Pool p' \<and> pool_closed p' \<and> (\<forall>q \<in> set (queues p'). q = []))) \<and>
    lcalls = (if adm then Shutdown AdminListener # (if fst (admin_down e) = DeadlineExceeded then [CloseListener AdminListener] else []) else []) @
      Shutdown PublicListener # (if fst (public_down e) = DeadlineExceeded then [CloseListener PublicListener] else []) \<and>
    err = (case fst (public_down e) of ShutdownOk \<Rightarrow> None | DeadlineExceeded \<Rightarrow> snd (public_down e) | ShutdownFailed x \<Rightarrow> Some x)"
proof -
  define s2 where "s2 = server_drain (drain_gap e) (drain_start e) (drain_ticks e) (before_drain e (SetDraining True s))"
  define s3 where "s3 = snd (snd (stop_listeners adm e s2))"
  have others: "(serve_step ops)\<^sup>*\<^sup>* x (g x)" if "g \<in> {before_drain e, during_admin e, during_public e}" for g x
    using assms(1) that unfolding others_run_def by blast
  have "health_draining (before_drain e (SetDraining True s))"
    using serve_steps_flags(1) [OF others] by (simp add: SetDraining_def)
  from server_drain_stopping [OF assms(1) this] have "stopping s2" by (simp add: s2_def)
  moreover have keep: "stopping x \<Longrightarrow> stopping (g x)" if "g \<in> {during_admin e, during_public e}" for g x
    using serve_steps_flags [OF others, of g x] that by (auto simp: stopping_def)
  ultimately have f3: "health_draining s3" "draining (hubst (sworld s3))"
    by (simp_all add: s3_def stop_listeners_def stopping_def [symmetric] Let_def case_prod_unfold) (simp_all add: stopping_def)
  have s': "s' = close_fanout s3" and res: "err = fst (stop_listeners adm e s2)" "lcalls = fst (snd (stop_listeners adm e s2))"
    using assms(2) by (simp_all add: Server_Run_def s3_def s2_def Let_def case_prod_unfold)
  obtain f w where c: "fan_Close deliver (chans (sworld s3)) (fan (sworld s3), sworld s3) = (f, w)" by fastforce
  have "hubst w = hubst (sworld s3)"
    using fr.R_fan_Close [of "sworld s3" "chans (sworld s3)" "fan (sworld s3)"] c by (simp add: frame_def calm_def)
  with f3 c have d: "health_draining s'" "draining (hubst (sworld s'))" "fan (sworld s') = f" "conns (sworld s') = conns w"
    by (simp_all add: s' close_fanout_def)
  have "w = fold (pool_drain_queue deliver (chans (sworld s3))) (queues p) (sworld s3) \<and>
      (\<exists>p'. f = Pool p' \<and> pool_closed p' \<and> (\<forall>q \<in> set (queues p'). q = []))"
    if "fan (sworld s3) = Pool p \<and> \<not> pool_closed p" for p
    using c that by (auto simp: pool_Close_def)
  then have drained: "\<forall>p. fan (sworld s3) = Pool p \<and> \<not> pool_closed p \<longrightarrow>
      conns (sworld s') = conns (fold (pool_drain_queue deliver (chans (sworld s3))) (queues p) (sworld s3)) \<and>
      (\<exists>p'. fan (sworld s') = Pool p' \<and> pool_closed p' \<and> (\<forall>q \<in> set (queues p'). q = []))" unfolding d(3,4) by blast
  have "status (health_ServeHTTP s') = 503" using d(1) by (simp add: health_ServeHTTP_def http_Error_def)
  moreover have "fst (upgrade_admit fault r s') = Rejected (http_Error ''draining'' 503)" for fault r
    using d(1) by (simp add: upgrade_admit_def health_Draining_def)
  moreover have "fst (hub_Add key c (hubst (sworld s'))) = Some drainClose" for key c
    using d(2) by (simp add: hub_Add_def)
  moreover have "lcalls = (if adm then Shutdown AdminListener # (if fst (admin_down e) = DeadlineExceeded then [CloseListener AdminListener] else []) else []) @
      Shutdown PublicListener # (if fst (public_down e) = DeadlineExceeded then [CloseListener PublicListener] else []) \<and>
    err = (case fst (public_down e) of ShutdownOk \<Rightarrow> None | DeadlineExceeded \<Rightarrow> snd (public_down e) | ShutdownFailed x \<Rightarrow> Some x)"
    unfolding res stop_listeners_def by (auto simp: shutdownListener_def Let_def split: shutdown_result.split prod.split)
  ultimately show ?thesis using drained unfolding Let_def s3_def s2_def by blast
qed

text \<open>A shutdown with an admin listener, in which a connection leaves the hub before the drain looks.\<close>

definition quiet_shutdown :: "unit shutdown_env" where
  "quiet_shutdown = \<lparr>before_drain = id, drain_gap = id, drain_start = hub_Remove 1, drain_ticks = [hub_Remove 2], during_admin = id,
     admin_down = (ShutdownFailed ''admin'', None), during_public = upgrade_release ''1.2.3.4'', public_down = (DeadlineExceeded, None)\<rparr>"

theorem shutdown_complete_witness:
  "status (health_ServeHTTP (snd (snd (Server_Run True None quiet_shutdown demo_server)))) = 503 \<and>
   fst (Server_Run True None quiet_shutdown demo_server) = None \<and>
   fst (snd (Server_Run True None quiet_shutdown demo_server)) = [Shutdown AdminListener, Shutdown PublicListener, CloseListener PublicListener]"
proof -
  have k: "others_run free_ops quiet_shutdown"
    by (auto simp: others_run_def quiet_shutdown_def intro: serve_step.intros hub_act.intros)
  obtain err lcalls s' where r: "Server_Run True None quiet_shutdown demo_server = (err, lcalls, s')" by (metis prod_cases3)
  from shutdown_complete [OF k r] show ?thesis
    unfolding r Let_def by (simp add: quiet_shutdown_def)
qed

end
