(* ===== verification/Server_Props.thy ===== *)
theory Server_Props
  imports Server
begin

text \<open>
  Properties of the REST API together with the components behind it: a key that was created works, a
  key that was revoked does not, and the admin endpoints answer only the admin.
\<close>

declare map_of_eq_Some_iff [simp del] Some_eq_map_of_iff [simp del]

subsection \<open>The admin gate\<close>

lemma requireAdmin_iff:
  "requireAdmin handler r s =
    (if Header_Get ''Authorization'' r = bearer @ adminToken s then handler r s else (http_Error ''unauthorized'' 401, s))"
proof (cases "HasPrefix (Header_Get ''Authorization'' r) bearer")
  case True
  then obtain t where "Header_Get ''Authorization'' r = bearer @ t" by (auto simp: HasPrefix_iff)
  then show ?thesis by (auto simp: requireAdmin_def ConstantTimeCompare_eq Let_def)
next
  case False
  then have "Header_Get ''Authorization'' r \<noteq> bearer @ adminToken s" by (metis HasPrefix_append)
  with False show ?thesis by (simp add: requireAdmin_def)
qed

text \<open>
  C32: The key-management endpoints answer exactly the admin. A request that carries the admin token as
  its bearer token reaches the handler; any other request gets 401 and changes nothing, whatever its
  body. No key-management endpoint is reachable on the public listener.
\<close>

theorem admin_only:
  assumes "ep \<in> {EpCreate, EpList, EpRevoke}"
  shows "serve_rest ep e r s =
      (if Header_Get ''Authorization'' r = ''Bearer '' @ adminToken s
       then (case ep of EpCreate \<Rightarrow> rest_create e r s | EpList \<Rightarrow> rest_list e r s | _ \<Rightarrow> rest_revoke e r s)
       else (http_Error ''unauthorized'' 401, s)) \<and>
    (\<forall>p. Server_New getenv c st token w = Some p \<longrightarrow> RestEp ep \<notin> snd ` set (mux p))"
  using assms requireAdmin_iff [of _ r s]
  by (auto simp: bearer_def Server_New_def RegisterPublic_def Let_def split: option.splits)

definition demo_rest :: rest_env where
  "demo_rest = \<lparr>e_rnd = Some (replicate 32 CHR ''r''), e_jti = Some (replicate 16 CHR ''j''), e_fault = None, e_ulid = ''u'', e_now = 0,
     e_ParseStrict = (\<lambda>_. True)\<rparr>"

theorem admin_only_witness:
  "serve_rest EpList demo_rest direct_request demo_server = (http_Error ''unauthorized'' 401, demo_server)"
proof -
  have h: "Header_Get ''Authorization'' direct_request \<noteq> ''Bearer '' @ adminToken demo_server"
    by (simp add: Header_Get_def direct_request_def)
  have "EpList \<in> {EpCreate, EpList, EpRevoke}" by simp
  note a = admin_only [OF this, of demo_rest direct_request demo_server "\<lambda>_. []" "\<lparr>Addr = [], AdminAddr = [], AllowedOrigins = []\<rparr>"
    "MemoryStore []" "[]" demo_world]
  show ?thesis using conjunct1 [OF a] h by (simp only: if_False)
qed

subsection \<open>Created keys\<close>

lemma create_lookup:
  assumes "st_CreateKey fault i t n h st = (Inr k, st')"
  shows "\<exists>k'. st_LookupKey None i st' = Inr k' \<and> ID k = i \<and> ID k' = i \<and> SecretHash k' = h \<and> RevokedAt k' = None"
proof (cases st)
  case (MemoryStore m)
  then show ?thesis using assms by (auto simp: memory_CreateKey_def memory_LookupKey_def Let_def)
next
  case (SqliteStore d)
  have n: "i \<notin> r_id ` set (key_rows d)" using assms SqliteStore
    by (auto simp: sqlite_CreateKey_def Let_def split: option.splits if_splits prod.splits)
  then have "find (\<lambda>r. r_id r = i) (key_rows d) = None" by (auto simp: find_None_iff)
  with assms SqliteStore n show ?thesis
    by (auto simp: sqlite_CreateKey_def sqlite_LookupKey_def Let_def find_append scan_key_def split: option.splits)
qed

lemma rest_create_201:
  assumes "rest_create e r s = (\<lparr>status = 201, rbody = b\<rparr>, s')"
  obtains k name secret st where "GenerateSecret (e_rnd e) = Some secret" "s' = s\<lparr>sstore := st\<rparr>"
    "st_CreateKey (e_fault e) (e_ulid e) (e_now e) name (HashSecret secret) (sstore s) = (Inr k, st)"
    "b = Pairs [(''id'', ID k), (''name'', KName k), (''secret'', secret)]"
proof -
  have "\<exists>k name secret st. GenerateSecret (e_rnd e) = Some secret \<and> s' = s\<lparr>sstore := st\<rparr> \<and>
    st_CreateKey (e_fault e) (e_ulid e) (e_now e) name (HashSecret secret) (sstore s) = (Inr k, st) \<and>
    b = Pairs [(''id'', ID k), (''name'', KName k), (''secret'', secret)]"
    using assms by (auto simp: rest_create_def http_Error_def writeJSON_def split: option.splits if_splits sum.splits prod.splits)
  then show thesis using that by blast
qed

lemma SplitN2: "c \<notin> set a \<Longrightarrow> SplitN (a @ c # b) c 2 = [a, b]"
  by (simp add: numeral_2_eq_2 cut_append)

lemma sign_ok:
  assumes "Header_Get ''Authorization'' r = ''Bearer '' @ kid @ CHR '':'' # secret" "CHR '':'' \<notin> set kid"
    "st_LookupKey (e_fault e) kid (sstore s) = Inr k" "RevokedAt k = None" "SecretHash k = HashSecret secret"
    "json_Decode [(''socket_id'', FString), (''channel'', FString)] False (take maxAdminBodyBytes (req_body r)) = Some b"
    "e_ParseStrict e (str_field ''socket_id'' b)" "ValidateChannelName (str_field ''channel'' b) = None"
    "ChannelRequiresAuth (str_field ''channel'' b)"
    "SignToken (e_jti e) (signingSecret (sworld s)) (str_field ''socket_id'' b) (str_field ''channel'' b) (e_now e + token_lifetime) = Some t"
  shows "rest_sign e r s = (\<lparr>status = 200, rbody = Pairs [(''token'', t)]\<rparr>, s)"
proof -
  have "TrimPrefix (''Bearer '' @ kid @ CHR '':'' # secret) bearer = kid @ CHR '':'' # secret"
    by (simp add: TrimPrefix_def bearer_def HasPrefix_def)
  then show ?thesis using assms SplitN2 [OF assms(2), of secret]
    by (simp add: rest_sign_def Let_def VerifySecret_def ConstantTimeCompare_eq writeJSON_def)
qed

text \<open>
  C17: From creating a key to joining a private channel. If \<open>POST /v1/keys\<close> answers 201, then the id and
  the secret in its answer, used as credentials, get a token from \<open>POST /v1/auth/sign\<close> for any valid
  socket id and private channel, and for the next five minutes that token, unless it was used, is accepted
  for exactly this socket and channel. This holds for both stores.
\<close>

theorem created_key_signs:
  assumes "rest_create e r s = (\<lparr>status = 201, rbody = Pairs [(''id'', kid), (''name'', n), (''secret'', secret)]\<rparr>, s1)"
    "CHR '':'' \<notin> set (e_ulid e)"
    "Header_Get ''Authorization'' r2 = ''Bearer '' @ kid @ CHR '':'' # secret"
    "json_Decode [(''socket_id'', FString), (''channel'', FString)] False (take maxAdminBodyBytes (req_body r2)) = Some b"
    "e_ParseStrict e2 (str_field ''socket_id'' b)" "ValidateChannelName (str_field ''channel'' b) = None"
    "ChannelRequiresAuth (str_field ''channel'' b)"
    "e_fault e2 = None" "e_jti e2 = Some jb" "length jb = 16"
    "0 \<le> e_now e2" "e_now e2 < 2 ^ 63" "UnixMilli now \<le> UnixMilli (e_now e2 + token_lifetime)"
    "gm_get seen (hex_EncodeToString jb) = None"
  shows "\<exists>t. rest_sign e2 r2 s1 = (\<lparr>status = 200, rbody = Pairs [(''token'', t)]\<rparr>, s1) \<and>
    fst (VerifyTokenAgainst now (signingSecret (sworld s)) (str_field ''socket_id'' b) (str_field ''channel'' b) t (Some seen)) = None"
proof -
  obtain k name secret' st where c: "GenerateSecret (e_rnd e) = Some secret'" "s1 = s\<lparr>sstore := st\<rparr>"
    "st_CreateKey (e_fault e) (e_ulid e) (e_now e) name (HashSecret secret') (sstore s) = (Inr k, st)"
    "Pairs [(''id'', kid), (''name'', n), (''secret'', secret)] = Pairs [(''id'', ID k), (''name'', KName k), (''secret'', secret')]"
    by (rule rest_create_201 [OF assms(1)])
  obtain k' where k': "st_LookupKey None (e_ulid e) st = Inr k'" "ID k = e_ulid e" "SecretHash k' = HashSecret secret'" "RevokedAt k' = None"
    using create_lookup [OF c(3)] by blast
  have ids: "kid = e_ulid e" "secret = secret'" using c(4) k'(2) by simp_all
  let ?sid = "str_field ''socket_id'' b" and ?ch = "str_field ''channel'' b" and ?x = "e_now e2 + token_lifetime"
  obtain t where t: "SignToken (Some jb) (signingSecret (sworld s)) ?sid ?ch ?x = Some t"
    by (simp add: SignToken_def Let_def)
  have w: "signingSecret (sworld s1) = signingSecret (sworld s)" "sstore s1 = st" using c(2) by simp_all
  have "rest_sign e2 r2 s1 = (\<lparr>status = 200, rbody = Pairs [(''token'', t)]\<rparr>, s1)"
    by (rule sign_ok [OF assms(3) _ _ k'(4) _ assms(4-7)]) (use assms(2,8,9) ids k' t w in simp_all)
  moreover have "- (2 ^ 63) \<le> UnixMilli ?x" "UnixMilli ?x < 2 ^ 63"
    using assms(11,12) by (auto simp: UnixMilli_def token_lifetime_def)
  then have "fst (VerifyTokenAgainst now (signingSecret (sworld s)) ?sid ?ch t (Some seen)) = None"
    unfolding Verify_accepts_iff using token_fields_signed [OF t assms(10)] assms(13,14) by simp
  ultimately show ?thesis by blast
qed

lemma demo_bodies:
  "json_Decode [(''name'', FString)] True ''{\"name\":\"n\"}'' = Some [(''name'', ''n'')]"
  "json_Decode [(''socket_id'', FString), (''channel'', FString)] False ''{\"socket_id\":\"s\",\"channel\":\"private-c\"}'' =
    Some [(''socket_id'', ''s''), (''channel'', ''private-c'')]"
  "ValidateChannelName ''private-c'' = None" "ChannelRequiresAuth ''private-c''"
  by code_simp+

lemma take_small: "length b < 100 \<Longrightarrow> take maxAdminBodyBytes b = b"
  by (simp add: maxAdminBodyBytes_def)

definition demo_create :: request where
  "demo_create = direct_request\<lparr>req_body := ''{\"name\":\"n\"}''\<rparr>"

definition demo_sign :: "string \<Rightarrow> request" where
  "demo_sign cred = direct_request\<lparr>header := [(''Authorization'', [''Bearer '' @ cred])],
     req_body := ''{\"socket_id\":\"s\",\"channel\":\"private-c\"}''\<rparr>"

theorem created_key_signs_witness:
  "\<exists>secret s1 t.
     rest_create demo_rest demo_create demo_server =
       (\<lparr>status = 201, rbody = Pairs [(''id'', ''u''), (''name'', ''n''), (''secret'', secret)]\<rparr>, s1) \<and>
     rest_sign demo_rest (demo_sign (''u:'' @ secret)) s1 = (\<lparr>status = 200, rbody = Pairs [(''token'', t)]\<rparr>, s1) \<and>
     fst (VerifyTokenAgainst 0 (signingSecret (sworld demo_server)) ''s'' ''private-c'' t (Some [])) = None"
proof -
  obtain secret where g: "GenerateSecret (e_rnd demo_rest) = Some secret" by (simp add: GenerateSecret_def demo_rest_def)
  obtain s1 where c: "rest_create demo_rest demo_create demo_server =
      (\<lparr>status = 201, rbody = Pairs [(''id'', ''u''), (''name'', ''n''), (''secret'', secret)]\<rparr>, s1)"
    using g demo_bodies(1)
    by (simp add: rest_create_def demo_create_def take_small str_field_def writeJSON_def demo_server_def memory_CreateKey_def demo_rest_def Let_def)
  let ?b = "[(''socket_id'', ''s''), (''channel'', ''private-c'')]"
  have b: "json_Decode [(''socket_id'', FString), (''channel'', FString)] False
      (take maxAdminBodyBytes (req_body (demo_sign (''u:'' @ secret)))) = Some ?b"
    using demo_bodies(2) by (simp add: demo_sign_def take_small)
  have f: "str_field ''socket_id'' ?b = ''s''" "str_field ''channel'' ?b = ''private-c''" by (simp_all add: str_field_def)
  have h: "Header_Get ''Authorization'' (demo_sign (''u:'' @ secret)) = ''Bearer '' @ ''u'' @ CHR '':'' # secret"
    by (simp add: Header_Get_def demo_sign_def)
  have "\<exists>t. rest_sign demo_rest (demo_sign (''u:'' @ secret)) s1 = (\<lparr>status = 200, rbody = Pairs [(''token'', t)]\<rparr>, s1) \<and>
      fst (VerifyTokenAgainst 0 (signingSecret (sworld demo_server)) (str_field ''socket_id'' ?b) (str_field ''channel'' ?b) t (Some [])) = None"
    by (rule created_key_signs [OF c _ h b, where jb = "replicate 16 CHR ''j''"])
      (simp_all only: f demo_bodies, simp_all add: demo_rest_def UnixMilli_def token_lifetime_def)
  then show ?thesis using c f by auto
qed

subsection \<open>Revoked keys\<close>

lemma run_close_frames:
  "conns (fold run_close (map (\<lambda>c. CloseFrame c (code, reason)) cs) w) d =
    (conns w d)\<lparr>ws_log := ws_log (conns w d) @ replicate (count_list cs d) (WsClose code reason)\<rparr>"
proof (induction cs arbitrary: w)
  case (Cons c cs)
  show ?case by (simp add: Cons.IH Conn_CloseFrame_def ws_call_def)
qed simp

lemma rest_revoke_204:
  assumes "rest_revoke e r s = (resp, s')" "status resp = 204"
  obtains st where "st_RevokeKey (e_fault e) (e_now e) (path_id r) (sstore s) = (None, st)"
    "s' = s\<lparr>sstore := st, sworld := world_CloseKey (path_id r) StatusPolicyViolation ''key revoked'' (sworld s)\<rparr>"
proof -
  have "\<exists>st. st_RevokeKey (e_fault e) (e_now e) (path_id r) (sstore s) = (None, st) \<and>
    s' = s\<lparr>sstore := st, sworld := world_CloseKey (path_id r) StatusPolicyViolation ''key revoked'' (sworld s)\<rparr>"
    using assms by (auto simp: rest_revoke_def http_Error_def split: option.splits store_error.splits prod.splits)
  then show thesis using that by blast
qed

lemma world_CloseKey_conns:
  "conns (world_CloseKey kid code reason w) d =
    (conns w d)\<lparr>ws_log := ws_log (conns w d) @
       replicate (count_list (filter (\<lambda>c. apiKeyID (conns w c) = kid) (hconns (hubst w))) d) (WsClose code reason)\<rparr>"
  "hubst (world_CloseKey kid code reason w) = (hubst w)\<lparr>closedKeys := gm_put kid (code, reason) (closedKeys (hubst w))\<rparr>"
  by (simp_all add: world_CloseKey_def hub_CloseKey_def Let_def run_close_frames run_closes_hub APIKeyID_def)

text \<open>
  C18: A revoked key is cut off at once and everywhere. When \<open>DELETE /v1/keys/{id}\<close> answers 204, every
  connection the hub tracks for the key has been sent the policy-violation close and no other connection
  was touched; from then on the key signs no token, opens no WebSocket, and a connection that passed the
  key check just before is refused by the hub.
\<close>

theorem revoked_key_cut_off:
  assumes "rest_revoke e r s = (resp, s')" "status resp = 204" "CHR '':'' \<notin> set (path_id r)"
  shows "(\<forall>c. c \<in> set (hconns (hubst (sworld s))) \<and> apiKeyID (conns (sworld s) c) = path_id r \<longrightarrow>
      WsClose StatusPolicyViolation ''key revoked'' \<in> set (ws_log (conns (sworld s') c))) \<and>
    (\<forall>c. apiKeyID (conns (sworld s) c) \<noteq> path_id r \<longrightarrow> conns (sworld s') c = conns (sworld s) c) \<and>
    (\<forall>e2 r2 secret. Header_Get ''Authorization'' r2 = ''Bearer '' @ path_id r @ CHR '':'' # secret \<longrightarrow>
      rest_sign e2 r2 s' = (http_Error ''bad credentials'' 401, s')) \<and>
    (\<forall>fault r2 ip kid. query_key r2 = path_id r \<longrightarrow> fst (upgrade_admit fault r2 s') \<noteq> Admitted ip kid) \<and>
    (\<forall>key c. key c = path_id r \<longrightarrow> fst (hub_Add key c (hubst (sworld s'))) \<noteq> None)"
proof -
  obtain st where st: "st_RevokeKey (e_fault e) (e_now e) (path_id r) (sstore s) = (None, st)"
    and s': "s' = s\<lparr>sstore := st, sworld := world_CloseKey (path_id r) StatusPolicyViolation ''key revoked'' (sworld s)\<rparr>"
    using rest_revoke_204 [OF assms(1,2)] by blast
  have rev: "RevokedAt k \<noteq> None" if "st_LookupKey f (path_id r) (sstore s') = Inr k" for f k
    using revoked_in_lookup [OF revoke_revokes [OF st]] that s' by simp
  note CK = world_CloseKey_conns [of "path_id r" StatusPolicyViolation "''key revoked''" "sworld s"]
  have told: "WsClose StatusPolicyViolation ''key revoked'' \<in> set (ws_log (conns (sworld s') c))"
    if "c \<in> set (hconns (hubst (sworld s)))" "apiKeyID (conns (sworld s) c) = path_id r" for c
  proof -
    have "count_list (filter (\<lambda>c. apiKeyID (conns (sworld s) c) = path_id r) (hconns (hubst (sworld s)))) c \<noteq> 0"
      using that by (simp add: count_list_0_iff)
    then show ?thesis by (simp add: s' CK(1))
  qed
  have other: "conns (sworld s') c = conns (sworld s) c" if "apiKeyID (conns (sworld s) c) \<noteq> path_id r" for c
  proof -
    have "count_list (filter (\<lambda>c. apiKeyID (conns (sworld s) c) = path_id r) (hconns (hubst (sworld s)))) c = 0"
      using that by (simp add: count_list_0_iff)
    then show ?thesis by (simp add: s' CK(1))
  qed
  have sign: "rest_sign e2 r2 s' = (http_Error ''bad credentials'' 401, s')"
    if "Header_Get ''Authorization'' r2 = ''Bearer '' @ path_id r @ CHR '':'' # secret" for e2 r2 secret
  proof -
    have "TrimPrefix (''Bearer '' @ path_id r @ CHR '':'' # secret) bearer = path_id r @ CHR '':'' # secret"
      by (simp add: TrimPrefix_def bearer_def HasPrefix_def)
    with that rev show ?thesis
      by (auto simp: rest_sign_def Let_def SplitN2 [OF assms(3)] split: sum.split)
  qed
  have up: "fst (upgrade_admit fault r2 s') \<noteq> Admitted ip kid" if "query_key r2 = path_id r" for fault r2 ip kid
    using admit_admitted(5) [of fault r2 s' ip kid] rev that by (metis prod.collapse)
  have "fst (hub_Add key c (hubst (sworld s'))) \<noteq> None" if "key c = path_id r" for key c
    using that by (simp add: s' CK(2) hub_Add_def)
  with told other sign up show ?thesis by blast
qed

theorem revoked_key_cut_off_witness:
  "fst (upgrade_admit None direct_request (snd (rest_revoke demo_rest (direct_request\<lparr>path_id := ''k''\<rparr>) demo_server))) \<noteq>
     Admitted ''1.2.3.4'' ''k''"
proof -
  obtain resp s' where r: "rest_revoke demo_rest (direct_request\<lparr>path_id := ''k''\<rparr>) demo_server = (resp, s')" by fastforce
  then have "status resp = 204" by (auto simp: rest_revoke_def demo_server_def memory_RevokeKey_def)
  from revoked_key_cut_off [OF r this] show ?thesis using r by (simp add: direct_request_def)
qed

end
