(* ===== verification/Migrate.thy ===== *)
theory Migrate
  imports Store "HOL-Library.List_Lexorder" "HOL-Library.Char_ord" "HOL-Library.Multiset"
begin

text \<open>
  \<open>internal/store/migrate.go\<close> and the opening half of \<open>sqlite.go\<close>: which database files the server
  accepts, how it brings them to the current schema, and what several processes opening one file do
  to it.

  Every call on the driver or the file system can fail: the faults are arguments, and \<open>None\<close> in all
  fields is a run without failures. What other processes commit between the check and a migration's
  \<open>BEGIN IMMEDIATE\<close> is the argument \<open>itf\<close>. A transaction that does not commit is rolled back.
\<close>

declare map_of_eq_Some_iff [simp del] Some_eq_map_of_iff [simp del]

subsection \<open>Errors\<close>

datatype open_error =
    PathEmpty
  | PathNotAbsolute string
  | PathForbidden string
  | ListInvalid nat int
  | DriverFault string
  | VersionTooNew int int
  | ForeignTables "string list"
  | KeysMismatch string
  | MigrationFailed int string open_error

subsection \<open>Migrations\<close>

text \<open>A step runs its statements on the database or fails.\<close>

record migration =
  version :: int
  mname :: string
  apply_step :: "database \<Rightarrow> open_error + database"

definition ascii_lower :: "string \<Rightarrow> string" where
  "ascii_lower = map (\<lambda>c. if 65 \<le> byte_val c \<and> byte_val c \<le> 90 then char_of (byte_val c + 32) else c)"

definition new_keys_columns :: "keyColumn list" where
  "new_keys_columns =
    [\<lparr>col_name = ''id'', notNull = 0, pk = 1\<rparr>, \<lparr>col_name = ''name'', notNull = 1, pk = 0\<rparr>,
     \<lparr>col_name = ''secret_hash'', notNull = 1, pk = 0\<rparr>, \<lparr>col_name = ''created_at'', notNull = 1, pk = 0\<rparr>,
     \<lparr>col_name = ''revoked_at'', notNull = 0, pk = 0\<rparr>]"

text \<open>\<open>CREATE TABLE IF NOT EXISTS keys (...)\<close>; SQLite compares table names without case.\<close>

definition createKeysTable :: "database \<Rightarrow> database" where
  "createKeysTable db =
    (if \<exists>t \<in> set (tables db). ascii_lower (fst t) = ''keys'' then db
     else db\<lparr>tables := tables db @ [(''keys'', new_keys_columns)], key_rows := []\<rparr>)"

definition baseline :: "string option \<Rightarrow> migration" where
  "baseline fault =
    \<lparr>version = 1, mname = ''baseline: keys table (v0.2.0 schema)'',
     apply_step = (\<lambda>db. case fault of Some e \<Rightarrow> Inl (DriverFault e) | None \<Rightarrow> Inr (createKeysTable db))\<rparr>"

definition migrations :: "string option \<Rightarrow> migration list" where
  "migrations fault = [baseline fault]"

fun validate_from :: "nat \<Rightarrow> migration list \<Rightarrow> open_error option" where
  "validate_from i [] = None"
| "validate_from i (m # ms) = (if version m \<noteq> int i + 1 then Some (ListInvalid i (version m)) else validate_from (i + 1) ms)"

definition validateMigrations :: "migration list \<Rightarrow> open_error option" where
  "validateMigrations ms = validate_from 0 ms"

subsection \<open>Recognising a database\<close>

definition v020KeysColumns :: "keyColumn list" where
  "v020KeysColumns =
    [\<lparr>col_name = ''created_at'', notNull = 1, pk = 0\<rparr>, \<lparr>col_name = ''id'', notNull = 0, pk = 1\<rparr>,
     \<lparr>col_name = ''name'', notNull = 1, pk = 0\<rparr>, \<lparr>col_name = ''revoked_at'', notNull = 0, pk = 0\<rparr>,
     \<lparr>col_name = ''secret_hash'', notNull = 1, pk = 0\<rparr>]"

definition format_column :: "keyColumn \<Rightarrow> string" where
  "format_column c = col_name c @ (if pk c \<noteq> 0 then '' pk'' else []) @ (if notNull c \<noteq> 0 then '' notnull'' else [])"

definition formatColumns :: "keyColumn list \<Rightarrow> string" where
  "formatColumns cols = Join (map format_column cols) '', ''"

text \<open>Column names of one table differ, so the order of equal names in \<open>sort.Slice\<close> is irrelevant.\<close>

definition checkV020KeysTable :: "string option \<Rightarrow> database \<Rightarrow> open_error option" where
  "checkV020KeysTable fault db =
    (case fault of
       Some e \<Rightarrow> Some (DriverFault e)
     | None \<Rightarrow>
        let cols = sort_key col_name (case map_of (tables db) ''keys'' of Some cs \<Rightarrow> cs | None \<Rightarrow> [])
        in if formatColumns cols \<noteq> formatColumns v020KeysColumns then Some (KeysMismatch (formatColumns cols)) else None)"

text \<open>
  \<open>LIKE 'sqlite_%'\<close>: without case, and the underscore stands for any character.
\<close>

definition like_sqlite :: "string \<Rightarrow> bool" where
  "like_sqlite n \<longleftrightarrow> ascii_lower (take 6 n) = ''sqlite'' \<and> length n > 6"

definition user_tables :: "database \<Rightarrow> string list" where
  "user_tables db = sort (filter (\<lambda>n. \<not> like_sqlite n) (map fst (tables db)))"

definition checkPreVersioningDatabase :: "string option \<Rightarrow> string option \<Rightarrow> database \<Rightarrow> open_error option" where
  "checkPreVersioningDatabase fault fault_cols db =
    (case fault of
       Some e \<Rightarrow> Some (DriverFault e)
     | None \<Rightarrow>
        let ts = user_tables db in
        if length ts = 0 then None
        else if length ts = 1 \<and> ts ! 0 = ''keys'' then checkV020KeysTable fault_cols db
        else Some (ForeignTables ts))"

record check_faults =
  f_begin :: "string option"
  f_version :: "string option"
  f_tables :: "string option"
  f_columns :: "string option"

definition no_check_faults :: check_faults where
  "no_check_faults = \<lparr>f_begin = None, f_version = None, f_tables = None, f_columns = None\<rparr>"

definition latest_version :: "migration list \<Rightarrow> int" where
  "latest_version ms = (if length ms > 0 then version (ms ! (length ms - 1)) else 0)"

definition checkDatabase :: "check_faults \<Rightarrow> migration list \<Rightarrow> database \<Rightarrow> open_error + int" where
  "checkDatabase f ms db =
    (case f_begin f of Some e \<Rightarrow> Inl (DriverFault e) | None \<Rightarrow>
     case f_version f of Some e \<Rightarrow> Inl (DriverFault e) | None \<Rightarrow>
     let current = user_version db; latest = latest_version ms in
     if current > latest then Inl (VersionTooNew current latest)
     else if current = 0 then
       (case checkPreVersioningDatabase (f_tables f) (f_columns f) db of
          Some err \<Rightarrow> Inl err
        | None \<Rightarrow> Inr current)
     else Inr current)"

subsection \<open>Applying migrations\<close>

record apply_faults =
  f_conn :: "string option"
  f_immediate :: "string option"
  f_reread :: "string option"
  f_bump :: "string option"
  f_commit :: "string option"

definition no_apply_faults :: apply_faults where
  "no_apply_faults = \<lparr>f_conn = None, f_immediate = None, f_reread = None, f_bump = None, f_commit = None\<rparr>"

definition applyMigration :: "apply_faults \<Rightarrow> migration \<Rightarrow> database \<Rightarrow> open_error option \<times> database" where
  "applyMigration f m db =
    (case f_conn f of Some e \<Rightarrow> (Some (DriverFault e), db) | None \<Rightarrow>
     case f_immediate f of Some e \<Rightarrow> (Some (DriverFault e), db) | None \<Rightarrow>
     case f_reread f of Some e \<Rightarrow> (Some (DriverFault e), db) | None \<Rightarrow>
     if user_version db \<ge> version m then (None, db)
     else case apply_step m db of
         Inl err \<Rightarrow> (Some err, db)
       | Inr tx \<Rightarrow>
         (case f_bump f of Some e \<Rightarrow> (Some (DriverFault e), db) | None \<Rightarrow>
          let tx' = tx\<lparr>user_version := version m\<rparr> in
          case f_commit f of Some e \<Rightarrow> (Some (DriverFault e), db) | None \<Rightarrow> (None, tx')))"

fun migrate_loop ::
  "(int \<Rightarrow> apply_faults) \<Rightarrow> (int \<Rightarrow> database \<Rightarrow> database) \<Rightarrow> migration list \<Rightarrow> int \<Rightarrow> database \<Rightarrow> open_error option \<times> database" where
  "migrate_loop f itf [] current db = (None, db)"
| "migrate_loop f itf (m # ms) current db =
    (if version m \<le> current then migrate_loop f itf ms current db
     else case applyMigration (f (version m)) m (itf (version m) db) of
         (Some err, db') \<Rightarrow> (Some (MigrationFailed (version m) (mname m) err), db')
       | (None, db') \<Rightarrow> migrate_loop f itf ms (version m) db')"

text \<open>
  \<open>sql.Open\<close> does not connect; the first statement does. A connection made with the writable DSN runs
  \<open>PRAGMA journal_mode=WAL\<close>, which rewrites the file's header bytes, before anything is read.
\<close>

definition wal_connect :: "string option \<Rightarrow> database \<Rightarrow> string + database" where
  "wal_connect fault db = (case fault of Some e \<Rightarrow> Inl e | None \<Rightarrow> Inr (db\<lparr>journal_wal := True\<rparr>))"

definition migrate ::
  "string option \<Rightarrow> check_faults \<Rightarrow> (int \<Rightarrow> apply_faults) \<Rightarrow> (int \<Rightarrow> database \<Rightarrow> database) \<Rightarrow> migration list \<Rightarrow> database \<Rightarrow> open_error option \<times> database" where
  "migrate conn cf f itf ms db =
    (case validateMigrations ms of
       Some err \<Rightarrow> (Some err, db)
     | None \<Rightarrow> (case wal_connect conn db of
         Inl e \<Rightarrow> (Some (DriverFault e), db)
       | Inr db1 \<Rightarrow> (case checkDatabase cf ms db1 of
           Inl err \<Rightarrow> (Some err, db1)
         | Inr current \<Rightarrow> migrate_loop f itf ms current db1)))"

subsection \<open>Preflight\<close>

datatype file_stat = NotExist | StatFailed string | FileSize nat

text \<open>The file's bytes, or the error of opening or reading it.\<close>

definition isCleanWALDatabase :: "file_stat \<Rightarrow> string + bytes \<Rightarrow> open_error + bool" where
  "isCleanWALDatabase wal content =
    (case wal of
       FileSize n \<Rightarrow> Inr False
     | StatFailed e \<Rightarrow> Inl (DriverFault e)
     | NotExist \<Rightarrow>
        (case content of
           Inl e \<Rightarrow> Inl (DriverFault e)
         | Inr bs \<Rightarrow>
            if length bs < 20 then Inr False
            else Inr (byte_val (bs ! 18) = 2 \<and> byte_val (bs ! 19) = 2)))"

text \<open>\<open>url.URL.EscapedPath\<close> of a path.\<close>

definition path_plain :: "char \<Rightarrow> bool" where
  "path_plain c \<longleftrightarrow> (let b = byte_val c in
     (97 \<le> b \<and> b \<le> 122) \<or> (65 \<le> b \<and> b \<le> 90) \<or> (48 \<le> b \<and> b \<le> 57) \<or> c \<in> set ''-_.~$&+,/:;=@'')"

definition upper_hex :: "nat \<Rightarrow> char" where
  "upper_hex n = (if n < 10 then char_of (48 + n) else char_of (55 + n))"

definition escape_char :: "char \<Rightarrow> string" where
  "escape_char c = (if path_plain c then [c] else [CHR ''%'', upper_hex (byte_val c div 16), upper_hex (byte_val c mod 16)])"

definition EscapedPath :: "string \<Rightarrow> string" where
  "EscapedPath p = (if p = ''*'' then ''*'' else concat (map escape_char p))"

definition readOnlyDSN :: "string \<Rightarrow> bool \<Rightarrow> string" where
  "readOnlyDSN path immutable =
    (let p = (if HasPrefix path ''/'' then path else ''/'' @ path);
         q = (if immutable then ''?mode=ro&immutable=1&_busy_timeout=5000'' else ''?mode=ro&_busy_timeout=5000'')
     in ''file://'' @ EscapedPath p @ q)"

text \<open>\<open>ro_open\<close> is what SQLite shows of the file at a DSN, or its error.\<close>

definition preflight ::
  "file_stat \<Rightarrow> file_stat \<Rightarrow> string + bytes \<Rightarrow> (string \<Rightarrow> string + database) \<Rightarrow> check_faults \<Rightarrow> migration list \<Rightarrow> string \<Rightarrow> open_error option" where
  "preflight st wal content ro_open cf ms path =
    (case st of
       NotExist \<Rightarrow> None
     | StatFailed e \<Rightarrow> Some (DriverFault e)
     | FileSize n \<Rightarrow>
        if n = 0 then None
        else (case isCleanWALDatabase wal content of
            Inl err \<Rightarrow> Some err
          | Inr immutable \<Rightarrow>
             (case ro_open (readOnlyDSN path immutable) of
                Inl e \<Rightarrow> Some (DriverFault e)
              | Inr view \<Rightarrow> (case checkDatabase cf ms view of Inl err \<Rightarrow> Some err | Inr v \<Rightarrow> None))))"

definition validateDBPath :: "string \<Rightarrow> open_error option" where
  "validateDBPath path =
    (if path = [] then Some PathEmpty
     else if \<not> HasPrefix path ''/'' then Some (PathNotAbsolute path)
     else if ContainsAny path [CHR ''?'', CHR ''#'', CHR 0x00, CHR 0x0A, CHR 0x0D] then Some (PathForbidden path)
     else None)"

record open_env =
  o_stat :: file_stat
  o_wal :: file_stat
  o_content :: "string + bytes"
  o_ro :: "string \<Rightarrow> string + database"
  o_pre :: check_faults
  o_open :: "string option"
  o_connect :: "string option"
  o_check :: check_faults
  o_apply :: "int \<Rightarrow> apply_faults"
  o_itf :: "int \<Rightarrow> database \<Rightarrow> database"

definition NewSQLite :: "open_env \<Rightarrow> migration list \<Rightarrow> string \<Rightarrow> database \<Rightarrow> (open_error + store) \<times> database" where
  "NewSQLite e ms path db =
    (case validateDBPath path of
       Some err \<Rightarrow> (Inl err, db)
     | None \<Rightarrow>
        (case preflight (o_stat e) (o_wal e) (o_content e) (o_ro e) (o_pre e) ms path of
           Some err \<Rightarrow> (Inl err, db)
         | None \<Rightarrow>
            (case o_open e of
               Some err \<Rightarrow> (Inl (DriverFault err), db)
             | None \<Rightarrow>
                (case migrate (o_connect e) (o_check e) (o_apply e) (o_itf e) ms db of
                   (Some err, db') \<Rightarrow> (Inl err, db')
                 | (None, db') \<Rightarrow> (Inr (SqliteStore db'), db')))))"

subsection \<open>One migration\<close>

lemma applyMigration_cases:
  obtains (failed) err where "applyMigration f m db = (Some err, db)"
  | (skipped) "applyMigration f m db = (None, db)" "version m \<le> user_version db"
  | (applied) tx where "applyMigration f m db = (None, tx\<lparr>user_version := version m\<rparr>)" "user_version db < version m" "apply_step m db = Inr tx"
proof -
  have "(\<exists>err. applyMigration f m db = (Some err, db)) \<or>
      applyMigration f m db = (None, db) \<and> version m \<le> user_version db \<or>
      (\<exists>tx. applyMigration f m db = (None, tx\<lparr>user_version := version m\<rparr>) \<and> user_version db < version m \<and> apply_step m db = Inr tx)"
    by (auto simp: applyMigration_def Let_def split: option.split sum.split)
  then show thesis using that by blast
qed

lemma validate_from_None: "validate_from i ms = None \<longleftrightarrow> (\<forall>k < length ms. version (ms ! k) = int (i + k) + 1)"
proof (induction ms arbitrary: i)
  case (Cons m ms)
  have "(\<forall>k < length (m # ms). version ((m # ms) ! k) = int (i + k) + 1) \<longleftrightarrow>
      version m = int i + 1 \<and> (\<forall>k < length ms. version (ms ! k) = int (i + 1 + k) + 1)"
    by (auto simp: less_Suc_eq_0_disj)
  then show ?case using Cons.IH [of "i + 1"] by simp
qed simp

lemma validate_None: "validateMigrations ms = None \<longleftrightarrow> (\<forall>k < length ms. version (ms ! k) = int k + 1)"
  by (simp add: validateMigrations_def validate_from_None)

lemma validate_latest: "validateMigrations ms = None \<Longrightarrow> latest_version ms = int (length ms)"
  by (cases ms rule: rev_cases) (auto simp: validate_None latest_version_def)

subsection \<open>Processes racing to open one file\<close>

text \<open>
  Any number of processes run \<open>migrate\<close> on the same file. A process checks the database, which gives
  it the steps above the version it read; each \<open>applyMigration\<close> then is one step, since it holds the
  write lock from its first read to its commit. \<open>ready\<close> are the processes whose \<open>migrate\<close> returned no error.
  The file is in WAL mode from the first connection on, so connecting is not a step here.
\<close>

record mig_sys =
  mdb :: database
  todo :: "nat \<Rightarrow> migration list"
  busy :: "nat set"
  ready :: "nat set"

inductive mig_step :: "migration list \<Rightarrow> mig_sys \<Rightarrow> mig_sys \<Rightarrow> bool" for ms where
  check: "i \<notin> busy s \<Longrightarrow> checkDatabase cf ms (mdb s) = Inr current \<Longrightarrow>
    mig_step ms s (s\<lparr>todo := (todo s)(i := filter (\<lambda>m. \<not> version m \<le> current) ms), busy := insert i (busy s)\<rparr>)"
| step: "i \<in> busy s \<Longrightarrow> todo s i = m # rest \<Longrightarrow> applyMigration f m (mdb s) = (None, db') \<Longrightarrow>
    mig_step ms s (s\<lparr>mdb := db', todo := (todo s)(i := rest)\<rparr>)"
| fail: "i \<in> busy s \<Longrightarrow> todo s i = m # rest \<Longrightarrow> applyMigration f m (mdb s) = (Some err, db') \<Longrightarrow>
    mig_step ms s (s\<lparr>mdb := db', busy := busy s - {i}\<rparr>)"
| finish: "i \<in> busy s \<Longrightarrow> todo s i = [] \<Longrightarrow>
    mig_step ms s (s\<lparr>busy := busy s - {i}, ready := insert i (ready s)\<rparr>)"

inductive mig_reach :: "migration list \<Rightarrow> database \<Rightarrow> mig_sys \<Rightarrow> bool" for ms db0 where
  init: "mig_reach ms db0 \<lparr>mdb = db0, todo = (\<lambda>_. []), busy = {}, ready = {}\<rparr>"
| next_step: "mig_reach ms db0 s \<Longrightarrow> mig_step ms s s' \<Longrightarrow> mig_reach ms db0 s'"

text \<open>What a process has left to do: a tail of the list that starts no later than one above \<open>v\<close>.\<close>

definition behind :: "migration list \<Rightarrow> int \<Rightarrow> migration list \<Rightarrow> bool" where
  "behind ms v xs \<longleftrightarrow> (\<exists>k \<le> length ms. xs = drop k ms \<and> int k \<le> v)"

text \<open>A list of migrations run one after the other on a database, by one process with no failures.\<close>

fun apply_steps :: "migration list \<Rightarrow> database \<Rightarrow> database option" where
  "apply_steps [] db = Some db"
| "apply_steps (m # ms) db =
    (case apply_step m db of Inl err \<Rightarrow> None | Inr tx \<Rightarrow> apply_steps ms (tx\<lparr>user_version := version m\<rparr>))"

lemma apply_steps_append: "apply_steps (xs @ ys) db = (case apply_steps xs db of None \<Rightarrow> None | Some d \<Rightarrow> apply_steps ys d)"
  by (induction xs arbitrary: db) (simp_all split: sum.split)

text \<open>The migrations above version \<open>v0\<close> up to version \<open>v\<close>.\<close>

definition steps_between :: "migration list \<Rightarrow> int \<Rightarrow> int \<Rightarrow> migration list" where
  "steps_between ms v0 v = take (nat (v - v0)) (drop (nat v0) ms)"

lemma steps_between_Suc:
  assumes "0 \<le> v0" "v0 \<le> v" "nat v < length ms"
  shows "steps_between ms v0 (v + 1) = steps_between ms v0 v @ [ms ! nat v]"
proof -
  have "nat (v + 1 - v0) = Suc (nat (v - v0))" "nat v0 + nat (v - v0) = nat v" using assms by simp_all
  then show ?thesis using assms(3) by (simp add: steps_between_def take_Suc_conv_app_nth)
qed

definition mig_inv :: "migration list \<Rightarrow> database \<Rightarrow> mig_sys \<Rightarrow> bool" where
  "mig_inv ms db0 s \<longleftrightarrow> user_version db0 \<le> user_version (mdb s) \<and>
    apply_steps (steps_between ms (user_version db0) (user_version (mdb s))) db0 = Some (mdb s) \<and>
    (\<forall>i \<in> busy s. behind ms (user_version (mdb s)) (todo s i)) \<and>
    (ready s \<noteq> {} \<longrightarrow> int (length ms) \<le> user_version (mdb s)) \<and>
    (user_version db0 < user_version (mdb s) \<longrightarrow> user_version (mdb s) \<le> int (length ms))"

lemma behind_mono: "behind ms v xs \<Longrightarrow> v \<le> v' \<Longrightarrow> behind ms v' xs"
  unfolding behind_def by (metis order_trans)

lemma behind_Nil: "behind ms v [] \<Longrightarrow> int (length ms) \<le> v"
  by (auto simp: behind_def)

lemma behind_Cons:
  assumes "behind ms v (m # rest)" "\<forall>k < length ms. version (ms ! k) = int k + 1"
  shows "version m \<le> v + 1" "version m \<le> int (length ms)" "behind ms (version m) rest"
    "0 < version m" "ms ! nat (version m - 1) = m"
proof -
  obtain k where k: "k \<le> length ms" "m # rest = drop k ms" "int k \<le> v" using assms(1) by (auto simp: behind_def)
  have kl: "k < length ms" using k(1,2) by (metis drop_all le_neq_implies_less list.distinct(1) nat_le_linear)
  then have "drop k ms = ms ! k # drop (Suc k) ms" by (simp add: Cons_nth_drop_Suc)
  with k(2) have m: "m = ms ! k" "rest = drop (Suc k) ms" by simp_all
  have vm: "version m = int k + 1" using assms(2) kl m by simp
  show "version m \<le> v + 1" "version m \<le> int (length ms)" using vm k(3) kl by simp_all
  show "0 < version m" "ms ! nat (version m - 1) = m" using vm m(1) by simp_all
  show "behind ms (version m) rest" unfolding behind_def by (rule exI [of _ "Suc k"]) (use kl m vm in simp)
qed

lemma filter_versions:
  assumes "\<forall>k < length ms. version (ms ! k) = int k + 1" "0 \<le> current" "current \<le> int (length ms)"
  shows "filter (\<lambda>m. \<not> version m \<le> current) ms = drop (nat current) ms"
proof -
  have "ms = take (nat current) ms @ drop (nat current) ms" by simp
  moreover have "filter (\<lambda>m. \<not> version m \<le> current) (take (nat current) ms) = []"
    using assms(1) by (auto simp: filter_empty_conv in_set_conv_nth)
  moreover have "filter (\<lambda>m. \<not> version m \<le> current) (drop (nat current) ms) = drop (nat current) ms"
    using assms by (auto simp: filter_id_conv in_set_conv_nth)
  ultimately show ?thesis by (metis append_Nil filter_append)
qed

lemma checkDatabase_Inr: "checkDatabase f ms db = Inr v \<Longrightarrow> v = user_version db \<and> v \<le> latest_version ms"
  by (auto simp: checkDatabase_def Let_def split: option.splits if_splits)

lemma mig_inv_step:
  assumes "mig_step ms s s'" "mig_inv ms db0 s" "validateMigrations ms = None" "0 \<le> user_version db0"
  shows "mig_inv ms db0 s'"
  using assms(1,2)
proof (induction rule: mig_step.induct)
  case (check i s cf current)
  have v: "current = user_version (mdb s)" "current \<le> int (length ms)"
    using checkDatabase_Inr [OF check(2)] validate_latest [OF assms(3)] by auto
  have "0 \<le> current" using check.prems assms(4) v(1) by (simp add: mig_inv_def)
  then have "filter (\<lambda>m. \<not> version m \<le> current) ms = drop (nat current) ms" "nat current \<le> length ms"
    using assms(3) v(2) by (auto simp: validate_None intro: filter_versions)
  then have "behind ms current (filter (\<lambda>m. \<not> version m \<le> current) ms)"
    unfolding behind_def using \<open>0 \<le> current\<close> by (intro exI [of _ "nat current"]) simp
  with check.prems v(1) show ?case by (simp add: mig_inv_def)
next
  case (step i s m rest f db')
  let ?v0 = "user_version db0"
  have inv: "?v0 \<le> user_version (mdb s)" "apply_steps (steps_between ms ?v0 (user_version (mdb s))) db0 = Some (mdb s)" "behind ms (user_version (mdb s)) (m # rest)"
    using step.prems step(1,2) by (auto simp: mig_inv_def)
  note B = behind_Cons [OF inv(3) assms(3) [unfolded validate_None]]
  show ?case
  proof (cases rule: applyMigration_cases [of f m "mdb s"])
    case (failed err)
    then show ?thesis using step(3) by simp
  next
    case skipped
    then have "db' = mdb s" "behind ms (user_version (mdb s)) rest" using step(3) behind_mono [OF B(3)] by auto
    with step.prems skipped(2) show ?thesis by (simp add: mig_inv_def)
  next
    case (applied tx)
    have uv: "user_version db' = version m" "version m = user_version (mdb s) + 1" using step(3) applied B(1) by auto
    have m: "ms ! nat (user_version (mdb s)) = m" using B(5) uv(2) by simp
    have "nat (user_version (mdb s)) < length ms" using B(2,4) uv(2) by linarith
    from steps_between_Suc [OF assms(4) inv(1) this]
    have "apply_steps (steps_between ms ?v0 (version m)) db0 = Some db'"
      using inv(2) applied step(3) by (simp add: uv(2) m apply_steps_append)
    moreover have "\<forall>j \<in> busy s. behind ms (version m) (if j = i then rest else todo s j)"
      using step.prems B(3) uv(2) by (auto simp: mig_inv_def intro: behind_mono)
    ultimately show ?thesis using step.prems applied(2) uv B(2) inv(1) by (simp add: mig_inv_def)
  qed
next
  case (fail i s m rest f err db')
  then have "db' = mdb s" by (cases rule: applyMigration_cases [of f m "mdb s"]) auto
  then show ?case using fail.prems by (auto simp: mig_inv_def)
next
  case (finish i s)
  then have "behind ms (user_version (mdb s)) []" by (auto simp: mig_inv_def)
  from behind_Nil [OF this] show ?case using finish.prems by (simp add: mig_inv_def)
qed

lemma mig_reach_inv:
  assumes "mig_reach ms db0 s" "validateMigrations ms = None" "0 \<le> user_version db0"
  shows "mig_inv ms db0 s"
  using assms(1)
proof (induction rule: mig_reach.induct)
  case init
  then show ?case by (simp add: mig_inv_def steps_between_def)
next
  case (next_step s s')
  then show ?case using mig_inv_step assms(2,3) by blast
qed


definition empty_db :: database where
  "empty_db = \<lparr>user_version = 0, journal_wal = True, tables = [], key_rows = []\<rparr>"


subsection \<open>Which files are opened\<close>

definition recognised :: "database \<Rightarrow> bool" where
  "recognised db \<longleftrightarrow> user_version db \<le> 1 \<and> (user_version db = 0 \<longrightarrow>
    user_tables db = [] \<or>
    user_tables db = [''keys''] \<and>
      formatColumns (sort_key col_name (case map_of (tables db) ''keys'' of Some cs \<Rightarrow> cs | None \<Rightarrow> [])) = formatColumns v020KeysColumns)"

lemma check_recognised:
  "checkDatabase no_check_faults (migrations f) db = (if recognised db then Inr (user_version db)
     else case checkDatabase no_check_faults (migrations f) db of Inl err \<Rightarrow> Inl err | Inr v \<Rightarrow> Inl PathEmpty)"
proof -
  have l: "length ts = Suc 0 \<and> ts ! 0 = x \<longleftrightarrow> ts = [x]" for ts and x :: string by (cases ts) auto
  show ?thesis
    by (auto simp: checkDatabase_def no_check_faults_def latest_version_def migrations_def baseline_def recognised_def
        checkPreVersioningDatabase_def checkV020KeysTable_def Let_def l)
qed

text \<open>No call fails, nobody else opens the file, and the read-only connection shows the file as it is.\<close>

definition quiet_env :: "open_env \<Rightarrow> database \<Rightarrow> bool" where
  "quiet_env e db \<longleftrightarrow> o_pre e = no_check_faults \<and> o_open e = None \<and> o_connect e = None \<and> o_check e = no_check_faults \<and>
    o_apply e = (\<lambda>_. no_apply_faults) \<and> o_itf e = (\<lambda>_. id) \<and>
    (\<exists>n. o_stat e = FileSize n) \<and> (\<forall>x. o_wal e \<noteq> StatFailed x) \<and> (\<exists>bs. o_content e = Inr bs) \<and> (\<forall>dsn. o_ro e dsn = Inr db)"

lemma preflight_quiet:
  assumes "quiet_env e db" "o_stat e \<noteq> FileSize 0"
  shows "preflight (o_stat e) (o_wal e) (o_content e) (o_ro e) (o_pre e) (migrations f) path =
    (case checkDatabase no_check_faults (migrations f) db of Inl err \<Rightarrow> Some err | Inr v \<Rightarrow> None)"
  using assms
  by (auto simp: quiet_env_def preflight_def isCleanWALDatabase_def split: file_stat.splits sum.split)

lemma NewSQLite_recognised:
  assumes "quiet_env e db" "o_stat e \<noteq> FileSize 0" "validateDBPath path = None" "recognised db"
  obtains db' where "NewSQLite e (migrations None) path db = (Inr (SqliteStore db'), db')"
    "db' = (if user_version db = 1 then db\<lparr>journal_wal := True\<rparr> else (createKeysTable (db\<lparr>journal_wal := True\<rparr>))\<lparr>user_version := 1\<rparr>)"
proof -
  let ?db1 = "db\<lparr>journal_wal := True\<rparr>"
  let ?db' = "if user_version db = 1 then ?db1 else (createKeysTable ?db1)\<lparr>user_version := 1\<rparr>"
  have r1: "recognised ?db1" using assms(4) by (simp add: recognised_def user_tables_def)
  have c: "checkDatabase no_check_faults (migrations None) db = Inr (user_version db)"
    "checkDatabase no_check_faults (migrations None) ?db1 = Inr (user_version db)"
    using check_recognised [of None db] check_recognised [of None ?db1] assms(4) r1 by simp_all
  have v: "validateMigrations (migrations None) = None" by (simp add: validate_None migrations_def baseline_def)
  have "user_version db \<le> 1" using assms(4) by (simp add: recognised_def)
  then have loop: "migrate_loop (\<lambda>_. no_apply_faults) (\<lambda>_. id) (migrations None) (user_version db) ?db1 = (None, ?db')"
    by (auto simp: migrations_def baseline_def applyMigration_def no_apply_faults_def)
  have q: "o_open e = None" "o_connect e = None" "o_check e = no_check_faults" "o_apply e = (\<lambda>_. no_apply_faults)" "o_itf e = (\<lambda>_. id)"
    using assms(1) by (simp_all add: quiet_env_def)
  have "NewSQLite e (migrations None) path db = (Inr (SqliteStore ?db'), ?db')"
    using assms(3) preflight_quiet [OF assms(1,2), of None path] c v loop q
    by (simp add: NewSQLite_def migrate_def wal_connect_def)
  then show thesis using that by blast
qed


definition v020_db :: database where
  "v020_db = \<lparr>user_version = 0, journal_wal = False, tables = [(''keys'', new_keys_columns)],
     key_rows = [\<lparr>r_id = ''a'', r_name = ''n'', r_secret_hash = ''h'', r_created_at = 5, r_revoked_at = None\<rparr>]\<rparr>"

definition quiet :: "database \<Rightarrow> open_env" where
  "quiet db = \<lparr>o_stat = FileSize 4096, o_wal = NotExist, o_content = Inr [], o_ro = (\<lambda>_. Inr db), o_pre = no_check_faults,
     o_open = None, o_connect = None, o_check = no_check_faults, o_apply = (\<lambda>_. no_apply_faults), o_itf = (\<lambda>_. id)\<rparr>"


text \<open>The columns of v0.2.0, with the flags of those that \<open>bs\<close> selects made part of the name.\<close>

definition flattened :: "bool list \<Rightarrow> keyColumn list" where
  "flattened bs = map2 (\<lambda>b c. if b then \<lparr>col_name = format_column c, notNull = 0, pk = 0\<rparr> else c) bs v020KeysColumns"

lemma bool5_cases:
  assumes "length bs = 5"
  obtains a b c d e where "bs = [a, b, c, d, e :: bool]"
  using assms by (auto simp: numeral_eq_Suc length_Suc_conv)

lemma flattened_eq: "flattened [a, b, c, d, e] =
    [if a then \<lparr>col_name = ''created_at notnull'', notNull = 0, pk = 0\<rparr> else \<lparr>col_name = ''created_at'', notNull = 1, pk = 0\<rparr>,
     if b then \<lparr>col_name = ''id pk'', notNull = 0, pk = 0\<rparr> else \<lparr>col_name = ''id'', notNull = 0, pk = 1\<rparr>,
     if c then \<lparr>col_name = ''name notnull'', notNull = 0, pk = 0\<rparr> else \<lparr>col_name = ''name'', notNull = 1, pk = 0\<rparr>,
     \<lparr>col_name = ''revoked_at'', notNull = 0, pk = 0\<rparr>,
     if e then \<lparr>col_name = ''secret_hash notnull'', notNull = 0, pk = 0\<rparr> else \<lparr>col_name = ''secret_hash'', notNull = 1, pk = 0\<rparr>]"
  by (simp add: flattened_def v020KeysColumns_def format_column_def)

lemma flattened_sort:
  assumes "length bs = 5" "mset cols = mset (flattened bs)"
  shows "sort_key col_name cols = flattened bs"
proof (rule sort_key_inj_key_eq [OF assms(2)])
  obtain a b c d e where bs: "bs = [a, b, c, d, e]" by (rule bool5_cases [OF assms(1)])
  have "set cols = set (flattened bs)" using assms(2) by (metis set_mset_mset)
  then show "inj_on col_name (set cols)" by (auto simp: bs flattened_eq inj_on_def split: if_splits)
  show "sorted (map col_name (flattened bs))" by (simp add: bs flattened_eq less_eq_char_def)
qed

lemma flattened_format: "length bs = 5 \<Longrightarrow> formatColumns (flattened bs) = formatColumns v020KeysColumns"
  by (erule bool5_cases) (simp add: flattened_eq formatColumns_def v020KeysColumns_def format_column_def)

text \<open>
  C39: The check lets through three kinds of file its comments exclude, and they are then opened and
  stamped as wirefan's. A file with a negative version is not inspected at all. A version-0 file passes as
  empty if every table's name is \<open>sqlite\<close>, in any case, and at least one more character, because the
  underscore of the \<open>LIKE\<close> pattern matches any character. And a version-0 \<open>keys\<close> table passes whatever
  order its columns have and whichever of them carry their flags in their name instead of as flags, because
  the columns are compared as rendered text; if that is the case of \<open>id\<close>, the table has no column \<open>id\<close> and
  no primary key.
\<close>

theorem check_lets_through:
  assumes "user_version db < 0 \<or> user_version db = 0 \<and>
      ((\<forall>t \<in> set (tables db). ascii_lower (take 6 (fst t)) = ''sqlite'' \<and> 6 < length (fst t)) \<or>
       tables db = [(''keys'', cols)] \<and> length bs = 5 \<and> mset cols = mset (flattened bs))"
    and "quiet_env e db" "o_stat e \<noteq> FileSize 0" "validateDBPath path = None"
  shows "checkDatabase no_check_faults (migrations None) db = Inr (user_version db) \<and>
    (\<exists>db'. NewSQLite e (migrations None) path db = (Inr (SqliteStore db'), db') \<and> user_version db' = 1 \<and>
      (\<forall>t \<in> set (tables db). t \<in> set (tables db'))) \<and>
    (length bs = 5 \<and> mset cols = mset (flattened bs) \<and> bs ! 1 \<longrightarrow> (\<forall>c \<in> set cols. col_name c \<noteq> ''id'' \<and> pk c = 0))"
proof -
  have keys: "\<not> like_sqlite ''keys''" by code_simp
  have "recognised db"
    using assms(1)
  proof (elim disjE conjE)
    assume "user_version db = 0" "\<forall>t \<in> set (tables db). ascii_lower (take 6 (fst t)) = ''sqlite'' \<and> 6 < length (fst t)"
    then have "user_tables db = []" by (simp add: user_tables_def filter_empty_conv like_sqlite_def)
    with \<open>user_version db = 0\<close> show ?thesis by (simp add: recognised_def)
  next
    assume k: "tables db = [(''keys'', cols)]" "length bs = 5" "mset cols = mset (flattened bs)" "user_version db = 0"
    then have "user_tables db = [''keys'']" using keys by (simp add: user_tables_def)
    with k flattened_sort [OF k(2,3)] flattened_format [OF k(2)] show ?thesis by (simp add: recognised_def)
  qed (simp add: recognised_def)
  then have 1: "checkDatabase no_check_faults (migrations None) db = Inr (user_version db)"
    using check_recognised [of None db] by simp
  obtain db' where n: "NewSQLite e (migrations None) path db = (Inr (SqliteStore db'), db')" and
    db': "db' = (if user_version db = 1 then db\<lparr>journal_wal := True\<rparr> else (createKeysTable (db\<lparr>journal_wal := True\<rparr>))\<lparr>user_version := 1\<rparr>)"
    by (rule NewSQLite_recognised [OF assms(2-4) \<open>recognised db\<close>])
  have 2: "user_version db' = 1" "\<forall>t \<in> set (tables db). t \<in> set (tables db')" by (auto simp: db' createKeysTable_def)
  have "col_name c \<noteq> ''id'' \<and> pk c = 0"
    if b: "length bs = 5" "mset cols = mset (flattened bs)" "bs ! 1" "c \<in> set cols" for c
  proof -
    obtain b1 b2 b3 b4 b5 where bs: "bs = [b1, b2, b3, b4, b5]" by (rule bool5_cases [OF b(1)])
    have "c \<in> set (flattened bs)" using b(2,4) by (metis set_mset_mset)
    then show ?thesis using b(3) by (auto simp: bs flattened_eq split: if_splits)
  qed
  with 1 n 2 show ?thesis by blast
qed

definition odd_columns :: "keyColumn list" where
  "odd_columns =
    [\<lparr>col_name = ''id pk'', notNull = 0, pk = 0\<rparr>, \<lparr>col_name = ''name'', notNull = 1, pk = 0\<rparr>,
     \<lparr>col_name = ''secret_hash'', notNull = 1, pk = 0\<rparr>, \<lparr>col_name = ''created_at'', notNull = 1, pk = 0\<rparr>,
     \<lparr>col_name = ''revoked_at'', notNull = 0, pk = 0\<rparr>]"

theorem check_lets_through_witness:
  "(let db = \<lparr>user_version = 0, journal_wal = False, tables = [(''keys'', odd_columns)], key_rows = []\<rparr>
    in checkDatabase no_check_faults (migrations None) db = Inr 0 \<and>
      (\<exists>db'. NewSQLite (quiet db) (migrations None) ''/var/wirefan.db'' db = (Inr (SqliteStore db'), db') \<and>
        user_version db' = 1 \<and> (''keys'', odd_columns) \<in> set (tables db'))) \<and>
   (let db = \<lparr>user_version = 0, journal_wal = False, tables = [(''SQLite3cache'', [])], key_rows = []\<rparr>
    in checkDatabase no_check_faults (migrations None) db = Inr 0) \<and>
   (let db = \<lparr>user_version = - 7, journal_wal = False, tables = [(''invoices'', [])], key_rows = []\<rparr>
    in checkDatabase no_check_faults (migrations None) db = Inr (- 7))"
proof -
  have q: "quiet_env (quiet db) db" "o_stat (quiet db) \<noteq> FileSize 0" for db by (simp_all add: quiet_env_def quiet_def)
  have p: "validateDBPath ''/var/wirefan.db'' = None" by code_simp
  have m: "mset odd_columns = mset (flattened [False, True, False, False, False])"
    by (simp add: flattened_eq odd_columns_def add_mset_commute)
  have l: "ascii_lower (take 6 ''SQLite3cache'') = ''sqlite''" by code_simp
  let ?d1 = "\<lparr>user_version = 0, journal_wal = False, tables = [(''keys'', odd_columns)], key_rows = []\<rparr>"
  from check_lets_through [of ?d1 odd_columns "[False, True, False, False, False]", OF _ q p] m
  have "checkDatabase no_check_faults (migrations None) ?d1 = Inr 0 \<and>
      (\<exists>db'. NewSQLite (quiet ?d1) (migrations None) ''/var/wirefan.db'' ?d1 = (Inr (SqliteStore db'), db') \<and>
        user_version db' = 1 \<and> (''keys'', odd_columns) \<in> set (tables db'))" by auto
  moreover have "checkDatabase no_check_faults (migrations None) \<lparr>user_version = 0, journal_wal = False, tables = [(''SQLite3cache'', [])], key_rows = []\<rparr> = Inr 0"
    using check_lets_through [OF _ q p, of "\<lparr>user_version = 0, journal_wal = False, tables = [(''SQLite3cache'', [])], key_rows = []\<rparr>"] l by simp
  moreover have "checkDatabase no_check_faults (migrations None) \<lparr>user_version = - 7, journal_wal = False, tables = [(''invoices'', [])], key_rows = []\<rparr> = Inr (- 7)"
    using check_lets_through [OF _ q p, of "\<lparr>user_version = - 7, journal_wal = False, tables = [(''invoices'', [])], key_rows = []\<rparr>"] by simp
  ultimately show ?thesis unfolding Let_def by blast
qed

subsection \<open>The read-only DSN\<close>

definition unhex :: "char \<Rightarrow> nat" where
  "unhex c = (if byte_val c < 58 then byte_val c - 48 else byte_val c - 55)"

fun pct_decode :: "string \<Rightarrow> string" where
  "pct_decode (c # h # l # xs) =
    (if c = CHR ''%'' then char_of (unhex h * 16 + unhex l) # pct_decode xs else c # pct_decode (h # l # xs))"
| "pct_decode xs = xs"

lemma unhex_upper: "n < 16 \<Longrightarrow> unhex (upper_hex n) = n"
  by (simp add: unhex_def upper_hex_def)

lemma pct_decode_Cons: "c \<noteq> CHR ''%'' \<Longrightarrow> pct_decode (c # xs) = c # pct_decode xs"
  by (cases xs rule: pct_decode.cases) auto

lemma pct_decode_escape: "pct_decode (escape_char c @ xs) = c # pct_decode xs"
proof (cases "path_plain c")
  case True
  then have "c \<noteq> CHR ''%''" by (auto simp: path_plain_def)
  with True show ?thesis by (simp add: escape_char_def pct_decode_Cons)
next
  case False
  have "byte_val c div 16 < 16" using byte_val_less [of c] by linarith
  then have "unhex (upper_hex (byte_val c div 16)) * 16 + unhex (upper_hex (byte_val c mod 16)) = byte_val c"
    by (simp add: unhex_upper)
  with False show ?thesis by (simp add: escape_char_def)
qed

lemma pct_decode_path: "pct_decode (concat (map escape_char p)) = p"
  by (induction p) (simp_all add: pct_decode_escape)

lemma escape_char_safe: "x \<in> set (escape_char c) \<Longrightarrow> x \<notin> {CHR ''?'', CHR ''#''}"
proof -
  have "upper_hex n \<notin> {CHR ''?'', CHR ''#''}" if "n < 16" for n
  proof
    assume "upper_hex n \<in> {CHR ''?'', CHR ''#''}"
    then have "byte_val (upper_hex n) \<in> {63, 35}" by auto
    with that show False by (auto simp: upper_hex_def split: if_splits)
  qed
  moreover assume "x \<in> set (escape_char c)"
  moreover have "byte_val c div 16 < 16" using byte_val_less [of c] by linarith
  ultimately show ?thesis by (auto simp: escape_char_def path_plain_def split: if_splits)
qed

text \<open>
  The preflight really opens the configured file, and read-only. For every accepted path, whatever
  bytes it holds, the DSN is \<open>file://\<close>, a part without \<open>?\<close> and \<open>#\<close> that percent-decodes to exactly the
  path, and a query that starts with \<open>mode=ro\<close> and sets \<open>immutable\<close> only when asked to.
\<close>

theorem readOnlyDSN_names_file:
  assumes "validateDBPath path = None"
  shows "\<exists>esc q. readOnlyDSN path immutable = ''file://'' @ esc @ CHR ''?'' # q \<and>
    CHR ''?'' \<notin> set esc \<and> CHR ''#'' \<notin> set esc \<and> pct_decode esc = path \<and>
    q = ''mode=ro'' @ (if immutable then ''&immutable=1'' else []) @ ''&_busy_timeout=5000''"
proof -
  have p: "HasPrefix path ''/''" using assms by (auto simp: validateDBPath_def split: if_splits)
  then have "path \<noteq> ''*''" by (auto simp: HasPrefix_iff)
  then have e: "EscapedPath path = concat (map escape_char path)" by (simp add: EscapedPath_def)
  have "CHR ''?'' \<notin> set (EscapedPath path)" "CHR ''#'' \<notin> set (EscapedPath path)"
    using escape_char_safe unfolding e by fastforce+
  moreover have "pct_decode (EscapedPath path) = path" by (simp add: e pct_decode_path)
  ultimately show ?thesis using p by (auto simp: readOnlyDSN_def Let_def)
qed

theorem readOnlyDSN_names_file_witness:
  "\<exists>esc q. readOnlyDSN ''/a b%'' True = ''file://'' @ esc @ CHR ''?'' # q \<and> pct_decode esc = ''/a b%''"
proof -
  have "validateDBPath ''/a b%'' = None" by code_simp
  from readOnlyDSN_names_file [OF this, of True] show ?thesis by blast
qed

end
