(* ===== verification/Go_Flag.thy ===== *)
theory Go_Flag
  imports Go_Strings
begin

text \<open>
  What \<open>cmd/wirefan\<close> uses of two packages of the standard library: \<open>flag\<close>, a flag set of strings and
  booleans parsed with \<open>ContinueOnError\<close>, and \<open>path/filepath\<close> on Unix. A flag set is the list of its flags
  with their current values; arguments after the first that is no flag are left over and play no part.
\<close>

subsection \<open>Flags\<close>

datatype flag_value = FlagString string | FlagBool bool

datatype flag_error = BadSyntax string | NotDefined string | ErrHelp | BadBool string string | NeedsArgument string

type_synonym flag_set = "(string, flag_value) gomap"

definition ParseBool :: "string \<Rightarrow> bool option" where
  "ParseBool s =
    (if s \<in> {''1'', ''t'', ''T'', ''true'', ''TRUE'', ''True''} then Some True
     else if s \<in> {''0'', ''f'', ''F'', ''false'', ''FALSE'', ''False''} then Some False
     else None)"

text \<open>An argument that is a flag, without its dashes, and its name and value at the first \<open>=\<close>.\<close>

definition flag_name :: "string \<Rightarrow> string" where
  "flag_name s = drop (if s ! 1 = CHR ''-'' then 2 else 1) s"

definition flag_split :: "string \<Rightarrow> string \<times> string option" where
  "flag_split name = (case cut CHR ''='' name of None \<Rightarrow> (name, None) | Some (n, v) \<Rightarrow> (n, Some v))"

fun fs_Parse :: "string list \<Rightarrow> flag_set \<Rightarrow> flag_error + flag_set" where
  "fs_Parse [] fl = Inr fl"
| "fs_Parse (s # args) fl =
    (if length s < 2 \<or> s ! 0 \<noteq> CHR ''-'' then Inr fl
     else if s = ''--'' then Inr fl
     else if flag_name s = [] \<or> hd (flag_name s) = CHR ''-'' \<or> hd (flag_name s) = CHR ''='' then Inl (BadSyntax s)
     else let (name, val) = flag_split (flag_name s) in
       case gm_get fl name of
         None \<Rightarrow> Inl (if name = ''help'' \<or> name = ''h'' then ErrHelp else NotDefined name)
       | Some (FlagBool _) \<Rightarrow>
          (let v = (case val of None \<Rightarrow> ''true'' | Some v \<Rightarrow> v) in
           case ParseBool v of None \<Rightarrow> Inl (BadBool v name) | Some b \<Rightarrow> fs_Parse args (gm_put name (FlagBool b) fl))
       | Some (FlagString _) \<Rightarrow>
          (case val of
             Some v \<Rightarrow> fs_Parse args (gm_put name (FlagString v) fl)
           | None \<Rightarrow> (case args of [] \<Rightarrow> Inl (NeedsArgument name) | v # rest \<Rightarrow> fs_Parse rest (gm_put name (FlagString v) fl))))"

text \<open>A flag keeps its kind, so reading one after parsing gives what was defined.\<close>

definition flag_string :: "flag_set \<Rightarrow> string \<Rightarrow> string" where
  "flag_string fl n = (case gm_get fl n of Some (FlagString s) \<Rightarrow> s | _ \<Rightarrow> [])"

definition flag_bool :: "flag_set \<Rightarrow> string \<Rightarrow> bool" where
  "flag_bool fl n = (gm_get fl n = Some (FlagBool True))"

fun flag_kind :: "flag_value \<Rightarrow> bool" where
  "flag_kind (FlagString _) = True"
| "flag_kind (FlagBool _) = False"

lemma fs_Parse_step:
  assumes "fs_Parse (s # args) fl = Inr fl'"
  shows "fl' = fl \<or> (\<exists>args' n v old. length args' \<le> length args \<and> gm_get fl n = Some old \<and> flag_kind v = flag_kind old \<and>
    fs_Parse args' (gm_put n v fl) = Inr fl')"
proof -
  obtain n val where sp: "flag_split (flag_name s) = (n, val)" by fastforce
  show ?thesis
  proof (cases "fl' = fl")
    case False
    with assms sp obtain old where old: "gm_get fl n = Some old" by (auto split: if_splits option.splits)
    have "\<exists>args' v. length args' \<le> length args \<and> flag_kind v = flag_kind old \<and> fs_Parse args' (gm_put n v fl) = Inr fl'"
    proof (cases old)
      case (FlagString x)
      have "(\<exists>a. fs_Parse args (gm_put n (FlagString a) fl) = Inr fl') \<or>
          (\<exists>a rest. args = a # rest \<and> fs_Parse rest (gm_put n (FlagString a) fl) = Inr fl')"
        using assms sp old FlagString False by (auto split: if_splits option.splits list.splits)
      then show ?thesis
      proof (elim disjE exE conjE)
        fix a assume "fs_Parse args (gm_put n (FlagString a) fl) = Inr fl'"
        with FlagString show ?thesis by (intro exI [of _ args] exI [of _ "FlagString a"]) simp
      next
        fix a rest assume "args = a # rest" "fs_Parse rest (gm_put n (FlagString a) fl) = Inr fl'"
        with FlagString show ?thesis by (intro exI [of _ rest] exI [of _ "FlagString a"]) simp
      qed
    next
      case (FlagBool x)
      have "\<exists>b. fs_Parse args (gm_put n (FlagBool b) fl) = Inr fl'"
        using assms sp old FlagBool False by (auto simp: Let_def split: if_splits option.splits)
      then obtain b where "fs_Parse args (gm_put n (FlagBool b) fl) = Inr fl'" ..
      with FlagBool show ?thesis by (intro exI [of _ args] exI [of _ "FlagBool b"]) simp
    qed
    with old show ?thesis by blast
  qed simp
qed

lemma fs_Parse_kinds: "fs_Parse args fl = Inr fl' \<Longrightarrow> map_option flag_kind (gm_get fl' n) = map_option flag_kind (gm_get fl n)"
proof (induction args arbitrary: fl rule: length_induct)
  case (1 args)
  show ?case
  proof (cases args)
    case (Cons s rest)
    from fs_Parse_step [OF "1.prems" [unfolded Cons]] show ?thesis
    proof (elim disjE exE conjE)
      fix args' m v old
      assume a: "length args' \<le> length rest" "gm_get fl m = Some old" "flag_kind v = flag_kind old"
        "fs_Parse args' (gm_put m v fl) = Inr fl'"
      have "map_option flag_kind (gm_get fl' n) = map_option flag_kind (gm_get (gm_put m v fl) n)"
        by (rule "1.IH" [rule_format, OF _ a(4)]) (use a(1) Cons in simp)
      also have "\<dots> = map_option flag_kind (gm_get fl n)" using a(2,3) by simp
      finally show ?thesis .
    qed simp
  qed (use "1.prems" in simp)
qed

text \<open>An argument \<open>--name=value\<close> sets the flag to the value, whatever the value holds.\<close>

definition flag_arg :: "string \<Rightarrow> string \<Rightarrow> string" where
  "flag_arg n v = ''--'' @ n @ ''='' @ v"

lemma fs_Parse_arg:
  assumes "gm_get fl n = Some (FlagString old)" "n \<noteq> []" "CHR ''='' \<notin> set n" "hd n \<noteq> CHR ''-''"
  shows "fs_Parse (flag_arg n v # args) fl = fs_Parse args (gm_put n (FlagString v) fl)"
proof -
  have "flag_name (flag_arg n v) = n @ CHR ''='' # v" by (simp add: flag_name_def flag_arg_def)
  moreover have "hd n \<noteq> CHR ''=''" using assms(2,3) by (cases n) auto
  moreover have "flag_split (n @ CHR ''='' # v) = (n, Some v)"
    using assms(3) by (simp add: flag_split_def cut_append)
  ultimately show ?thesis using assms by (simp add: flag_arg_def)
qed

lemma fs_Parse_switch:
  assumes "gm_get fl n = Some (FlagBool old)" "n \<noteq> []" "CHR ''='' \<notin> set n" "hd n \<noteq> CHR ''-''"
  shows "fs_Parse ((''--'' @ n) # args) fl = fs_Parse args (gm_put n (FlagBool True) fl)"
proof -
  have "flag_name (''--'' @ n) = n" by (simp add: flag_name_def)
  moreover have "hd n \<noteq> CHR ''=''" using assms(2,3) by (cases n) auto
  moreover have "flag_split n = (n, None)" using assms(3) by (simp add: flag_split_def cut_None_iff [THEN iffD2])
  ultimately show ?thesis using assms by (simp add: ParseBool_def)
qed

subsection \<open>Paths\<close>

fun path_step :: "bool \<Rightarrow> string \<Rightarrow> string list \<Rightarrow> string list" where
  "path_step rooted c out =
    (if c = [] \<or> c = ''.'' then out
     else if c = ''..'' then
       (case out of
          [] \<Rightarrow> if rooted then [] else [''..'']
        | d # ds \<Rightarrow> if d = ''..'' then ''..'' # out else ds)
     else c # out)"

definition filepath_Clean :: "string \<Rightarrow> string" where
  "filepath_Clean p =
    (let rooted = HasPrefix p ''/'';
         s = Join (rev (fold (path_step rooted) (Split p CHR ''/'') [])) ''/''
     in if rooted then ''/'' @ s else if s = [] then ''.'' else s)"

definition filepath_Join :: "string list \<Rightarrow> string" where
  "filepath_Join elems =
    (let es = dropWhile (\<lambda>e. e = []) elems in if es = [] then [] else filepath_Clean (Join es ''/''))"

text \<open>The working directory may be unknown; \<open>Inl\<close> is the error of \<open>os.Getwd\<close>.\<close>

definition filepath_Abs :: "string + string \<Rightarrow> string \<Rightarrow> string + string" where
  "filepath_Abs wd p =
    (if HasPrefix p ''/'' then Inr (filepath_Clean p)
     else case wd of Inl err \<Rightarrow> Inl err | Inr d \<Rightarrow> Inr (filepath_Join [d, p]))"

definition filepath_Dir :: "string \<Rightarrow> string" where
  "filepath_Dir p = filepath_Clean (case LastIndex p CHR ''/'' of None \<Rightarrow> [] | Some i \<Rightarrow> take (Suc i) p)"

lemma Clean_rooted: "HasPrefix p ''/'' \<Longrightarrow> HasPrefix (filepath_Clean p) ''/''"
  by (simp add: filepath_Clean_def Let_def HasPrefix_def)

lemma Abs_rooted:
  assumes "filepath_Abs wd p = Inr a" "\<And>d. wd = Inr d \<Longrightarrow> HasPrefix d ''/''"
  shows "HasPrefix a ''/''"
proof (cases "HasPrefix p ''/''")
  case True
  with assms(1) show ?thesis using Clean_rooted [OF True] by (simp add: filepath_Abs_def)
next
  case False
  with assms obtain d where d: "wd = Inr d" "HasPrefix d ''/''" "a = filepath_Join [d, p]"
    by (auto simp: filepath_Abs_def split: sum.splits)
  then have "HasPrefix (Join [d, p] ''/'') ''/''" "d \<noteq> []" by (auto simp: HasPrefix_iff)
  from Clean_rooted [OF this(1)] this(2) d(3) show ?thesis by (simp add: filepath_Join_def)
qed

end
