(* ===== verification/Wirefan_Main.thy ===== *)
theory Wirefan_Main
  imports Server_Props Migrate Go_Flag
begin

text \<open>
  \<open>cmd/wirefan/main.go\<close>: the command line, the choice of the components, the admin token, and the start
  of the server. The process reads its surroundings through \<open>boot_env\<close> (the environment, the errors of the
  file system, random bytes); what survives it is \<open>host\<close>, the files and the databases by path.
\<close>

declare map_of_eq_Some_iff [simp del] Some_eq_map_of_iff [simp del] fs_Parse.simps(2) [simp del]

subsection \<open>Version\<close>

text \<open>\<open>bi\<close> is the main module's version of \<open>debug.ReadBuildInfo\<close>, if there is build information.\<close>

definition buildVersion :: "string \<Rightarrow> string option \<Rightarrow> string" where
  "buildVersion stamp bi =
    (if stamp \<noteq> [] then stamp
     else case bi of
         Some v \<Rightarrow> if v \<noteq> [] \<and> v \<noteq> ''(devel)'' then v else ''dev''
       | None \<Rightarrow> ''dev'')"

definition versionLine :: "string \<Rightarrow> string option \<Rightarrow> string \<Rightarrow> string \<Rightarrow> string \<Rightarrow> string" where
  "versionLine stamp bi go os arch = ''wirefan '' @ buildVersion stamp bi @ '' ('' @ go @ '', '' @ os @ ''/'' @ arch @ '')''"

subsection \<open>The command line\<close>

record appConfig =
  srv :: srv_config
  store_kind :: string
  dbPath :: string
  registry_kind :: string
  fanout_kind :: string
  showVersion :: bool

datatype config_error =
    FlagError flag_error
  | BadStore
  | BadRegistry
  | BadFanout
  | OriginsRequired
  | OriginsEmpty
  | StarNeedsDev

definition flag_defaults :: flag_set where
  "flag_defaults =
    [(''listen'', FlagString '':8080''), (''admin-addr'', FlagString ''127.0.0.1:6060''), (''allowed-origins'', FlagString []),
     (''dev'', FlagBool False), (''store'', FlagString ''sqlite''), (''db-path'', FlagString []),
     (''registry'', FlagString ''sync-map''), (''fanout'', FlagString ''per-conn''), (''version'', FlagBool False)]"

definition zero_config :: appConfig where
  "zero_config = \<lparr>srv = \<lparr>Addr = [], AdminAddr = [], AllowedOrigins = []\<rparr>, store_kind = [], dbPath = [], registry_kind = [],
     fanout_kind = [], showVersion = False\<rparr>"

definition clean_origins :: "string \<Rightarrow> string list" where
  "clean_origins s = filter (\<lambda>p. p \<noteq> []) (map TrimSpace (Split s CHR '',''))"

definition parseFlags :: "string list \<Rightarrow> config_error + appConfig" where
  "parseFlags args =
    (case fs_Parse args flag_defaults of
       Inl err \<Rightarrow> Inl (FlagError err)
     | Inr fl \<Rightarrow>
        let storeKind = flag_string fl ''store''; registryKind = flag_string fl ''registry'';
            fanoutKind = flag_string fl ''fanout''; origins = flag_string fl ''allowed-origins'';
            cleaned = clean_origins origins
        in if flag_bool fl ''version'' then Inr (zero_config\<lparr>showVersion := True\<rparr>)
           else if storeKind \<noteq> ''sqlite'' \<and> storeKind \<noteq> ''memory'' then Inl BadStore
           else if registryKind \<noteq> ''sync-map'' \<and> registryKind \<noteq> ''sharded'' then Inl BadRegistry
           else if fanoutKind \<noteq> ''per-conn'' \<and> fanoutKind \<noteq> ''sharded'' then Inl BadFanout
           else if origins = [] then Inl OriginsRequired
           else if length cleaned = 0 then Inl OriginsEmpty
           else if \<not> flag_bool fl ''dev'' \<and> list_ex (\<lambda>o'. o' = ''*'') cleaned then Inl StarNeedsDev
           else Inr \<lparr>srv = \<lparr>Addr = flag_string fl ''listen'', AdminAddr = flag_string fl ''admin-addr'', AllowedOrigins = cleaned\<rparr>,
             store_kind = storeKind, dbPath = flag_string fl ''db-path'', registry_kind = registryKind,
             fanout_kind = fanoutKind, showVersion = False\<rparr>)"

subsection \<open>Choosing the components\<close>

datatype run_error =
    UnknownStore string
  | UnknownRegistry string
  | UnknownFanout string
  | OsError string
  | OpenError open_error
  | RandError
  | RegisterPanic
  | ListenError string
  | ContextCanceled

record boot_env =
  b_getenv :: "string \<Rightarrow> string"
  b_mkdir :: "string \<Rightarrow> string option"
  b_getwd :: "string + string"
  b_ddl :: "string option"
  b_open :: open_env
  b_read :: "string option"
  b_write :: "(string \<times> nat option) option"
  b_rnd_admin :: "bytes option"
  b_rnd_sign :: "bytes option"
  b_procs :: nat

record host =
  h_files :: "(string, bytes) gomap"
  h_db :: "string \<Rightarrow> database"

definition ensureStateDir :: "boot_env \<Rightarrow> run_error + string" where
  "ensureStateDir e =
    (let v = b_getenv e ''WIREFAN_STATE_DIR''; dir = (if v = [] then ''var'' else v)
     in case b_mkdir e dir of Some err \<Rightarrow> Inl (OsError err) | None \<Rightarrow> Inr dir)"

definition openStore :: "boot_env \<Rightarrow> appConfig \<Rightarrow> host \<Rightarrow> (run_error + store) \<times> host" where
  "openStore e c h =
    (if store_kind c = ''memory'' then (Inr (MemoryStore NewMemory), h)
     else if store_kind c = ''sqlite'' then
       (case (if dbPath c \<noteq> [] then Inr (dbPath c)
              else case ensureStateDir e of Inl err \<Rightarrow> Inl err | Inr dir \<Rightarrow> Inr (filepath_Join [dir, ''wirefan.db''])) of
          Inl err \<Rightarrow> (Inl err, h)
        | Inr p \<Rightarrow>
           (case filepath_Abs (b_getwd e) p of
              Inl err \<Rightarrow> (Inl (OsError err), h)
            | Inr full \<Rightarrow>
               (case b_mkdir e (filepath_Dir full) of
                  Some err \<Rightarrow> (Inl (OsError err), h)
                | None \<Rightarrow>
                   (case NewSQLite (b_open e) (migrations (b_ddl e)) full (h_db h full) of
                      (Inl err, d) \<Rightarrow> (Inl (OpenError err), h\<lparr>h_db := (h_db h)(full := d)\<rparr>)
                    | (Inr st, d) \<Rightarrow> (Inr st, h\<lparr>h_db := (h_db h)(full := d)\<rparr>)))))
     else (Inl (UnknownStore (store_kind c)), h))"

definition newRegistry :: "string \<Rightarrow> run_error + registry" where
  "newRegistry kind =
    (if kind = ''sync-map'' then Inr (SyncMapReg NewSyncMap)
     else if kind = ''sharded'' then Inr (ShardedReg NewSharded)
     else Inl (UnknownRegistry kind))"

definition newFanout :: "nat \<Rightarrow> string \<Rightarrow> run_error + fanout" where
  "newFanout procs kind =
    (if kind = ''per-conn'' then Inr NewPerConn
     else if kind = ''sharded'' then Inr (Pool (NewShardedPool procs))
     else Inl (UnknownFanout kind))"

subsection \<open>The admin token\<close>

definition trim_token :: "string \<Rightarrow> string" where
  "trim_token t = rev (dropWhile (\<lambda>c. c = CHR 0x0A \<or> c = CHR 0x0D \<or> c = CHR '' '') (rev t))"

text \<open>
  \<open>os.WriteFile\<close> truncates the file and writes; when it fails the file may be untouched or hold a prefix.
\<close>

definition os_WriteFile :: "(string \<times> nat option) option \<Rightarrow> string \<Rightarrow> bytes \<Rightarrow> host \<Rightarrow> string option \<times> host" where
  "os_WriteFile fault path data h =
    (case fault of
       None \<Rightarrow> (None, h\<lparr>h_files := gm_put path data (h_files h)\<rparr>)
     | Some (err, None) \<Rightarrow> (Some err, h)
     | Some (err, Some n) \<Rightarrow> (Some err, h\<lparr>h_files := gm_put path (take n data) (h_files h)\<rparr>))"

definition new_token :: "boot_env \<Rightarrow> string \<Rightarrow> host \<Rightarrow> (run_error + string) \<times> host" where
  "new_token e path h =
    (case GenerateSecret (b_rnd_admin e) of
       None \<Rightarrow> (Inl RandError, h)
     | Some t \<Rightarrow>
        (case os_WriteFile (b_write e) path t h of
           (Some err, h') \<Rightarrow> (Inl (OsError err), h')
         | (None, h') \<Rightarrow> (Inr t, h')))"

definition resolveAdminToken :: "boot_env \<Rightarrow> host \<Rightarrow> (run_error + string) \<times> host" where
  "resolveAdminToken e h =
    (let t = b_getenv e ''WIREFAN_ADMIN_TOKEN'' in
     if t \<noteq> [] then (Inr t, h)
     else case ensureStateDir e of
         Inl err \<Rightarrow> (Inl err, h)
       | Inr stateDir \<Rightarrow>
          (let path = filepath_Join [stateDir, ''admin.token''] in
           case b_read e of
             Some err \<Rightarrow> (Inl (OsError err), h)
           | None \<Rightarrow>
              (case gm_get (h_files h) path of
                 Some data \<Rightarrow> if trim_token data \<noteq> [] then (Inr (trim_token data), h) else new_token e path h
               | None \<Rightarrow> new_token e path h)))"

subsection \<open>Starting and running\<close>

definition metrics_zero :: metrics where
  "metrics_zero = \<lparr>mcalls = [], channelSource = None, registerOnce = False, registered = []\<rparr>"

text \<open>\<open>run\<close> up to the server's \<open>Run\<close>. One hour in nanoseconds.\<close>

definition boot :: "'l rate_ops \<Rightarrow> boot_env \<Rightarrow> appConfig \<Rightarrow> host \<Rightarrow> (run_error + 'l proc) \<times> host" where
  "boot ops e c h =
    (case openStore e c h of
       (Inl err, h1) \<Rightarrow> (Inl err, h1)
     | (Inr st, h1) \<Rightarrow>
        (case resolveAdminToken e h1 of
           (Inl err, h2) \<Rightarrow> (Inl err, h2)
         | (Inr token, h2) \<Rightarrow>
            (case GenerateSecret (b_rnd_sign e) of
               None \<Rightarrow> (Inl RandError, h2)
             | Some secret \<Rightarrow>
                (case newRegistry (registry_kind c) of
                   Inl err \<Rightarrow> (Inl err, h2)
                 | Inr r \<Rightarrow>
                    (case newFanout (b_procs e) (fanout_kind c) of
                       Inl err \<Rightarrow> (Inl err, h2)
                     | Inr f \<Rightarrow>
                        (case Server_New (b_getenv e) (srv c) st token
                            \<lparr>reg = r, chans = [], signingSecret = secret, cache = None, rlim = Limiter_New 100 200 3600000000000,
                             fan = f, hubst = hub_New, mets = metrics_zero, conns = (\<lambda>_. dead_conn ops)\<rparr> of
                           None \<Rightarrow> (Inl RegisterPanic, h2)
                         | Some p \<Rightarrow>
                            (Inr (p\<lparr>core := (core p)\<lparr>sworld := (sworld (core p))
                               \<lparr>mets := SetChannelSource (Some reg_Len) (mets (sworld (core p)))\<rparr>\<rparr>\<rparr>), h2)))))))"

text \<open>
  The whole of \<open>run\<close>: \<open>life\<close> is what the server's goroutines do between its start and the end of \<open>Run\<close>'s
  \<open>select\<close>. The deferred \<open>Close\<close> of the fanout runs last.
\<close>

definition main_run :: "'l rate_ops \<Rightarrow> boot_env \<Rightarrow> ('l server \<Rightarrow> 'l server) \<Rightarrow> string option \<Rightarrow> 'l shutdown_env \<Rightarrow>
    appConfig \<Rightarrow> host \<Rightarrow> run_error option \<times> 'l server option \<times> host" where
  "main_run ops e life listen_err sh c h =
    (case boot ops e c h of
       (Inl err, h') \<Rightarrow> (Some err, None, h')
     | (Inr p, h') \<Rightarrow>
        (case Server_Run (adminSrv p \<noteq> None) listen_err sh (life (core p)) of
           (err, lcalls, s) \<Rightarrow> (map_option ListenError err, Some (close_fanout s), h')))"

text \<open>\<open>main\<close>: the exit code, what is printed, and the files left behind.\<close>

definition main_exit :: "'l rate_ops \<Rightarrow> boot_env \<Rightarrow> ('l server \<Rightarrow> 'l server) \<Rightarrow> string option \<Rightarrow> 'l shutdown_env \<Rightarrow>
    string \<Rightarrow> string list \<Rightarrow> host \<Rightarrow> nat \<times> string \<times> host" where
  "main_exit ops e life listen_err sh line args h =
    (case parseFlags args of
       Inl err \<Rightarrow> (if err = FlagError ErrHelp then 0 else 1, [], h)
     | Inr c \<Rightarrow>
        if showVersion c then (0, line @ [CHR 0x0A], h)
        else case main_run ops e life listen_err sh c h of
            (Some err, _, h') \<Rightarrow> (if err = ContextCanceled then 0 else 1, [], h')
          | (None, _, h') \<Rightarrow> (0, [], h'))"

subsection \<open>What the command line accepts\<close>

lemma clean_origins_clean:
  "o' \<in> set (clean_origins s) \<Longrightarrow> o' \<noteq> [] \<and> TrimSpace o' = o' \<and> CHR '','' \<notin> set o'"
proof -
  assume "o' \<in> set (clean_origins s)"
  then obtain p where p: "o' \<noteq> []" "o' = TrimSpace p" "p \<in> set (Split s CHR '','')" by (auto simp: clean_origins_def)
  obtain a b where "p = a @ TrimSpace p @ b" using TrimSpace_infix by blast
  then have "set (TrimSpace p) \<subseteq> set p" by (metis Un_iff set_append subsetI)
  moreover have "CHR '','' \<notin> set p" using Split_no_sep p(3) by fastforce
  ultimately show ?thesis using p TrimSpace_idem by auto
qed

lemma parseFlags_ok:
  assumes "parseFlags args = Inr c" "\<not> showVersion c"
  obtains fl where "fs_Parse args flag_defaults = Inr fl" "AllowedOrigins (srv c) = clean_origins (flag_string fl ''allowed-origins'')"
    "AllowedOrigins (srv c) \<noteq> []" "''*'' \<in> set (AllowedOrigins (srv c)) \<longrightarrow> flag_bool fl ''dev''"
    "store_kind c \<in> {''sqlite'', ''memory''}" "registry_kind c \<in> {''sync-map'', ''sharded''}" "fanout_kind c \<in> {''per-conn'', ''sharded''}"
proof -
  obtain fl where fl: "fs_Parse args flag_defaults = Inr fl"
    using assms(1) by (cases "fs_Parse args flag_defaults") (simp_all add: parseFlags_def)
  have v: "\<not> flag_bool fl ''version''" using assms fl by (auto simp: parseFlags_def Let_def)
  show thesis
    by (rule that [OF fl]) (use assms(1) fl v in \<open>auto simp: parseFlags_def Let_def list_ex_iff split: if_splits\<close>)
qed

lemma ensureStateDir_error: "ensureStateDir e = Inl err \<Longrightarrow> \<exists>x. err = OsError x"
  by (auto simp: ensureStateDir_def Let_def split: option.splits)

lemma openStore_known:
  assumes "store_kind c \<in> {''sqlite'', ''memory''}"
  shows "fst (openStore e c h) \<noteq> Inl (UnknownStore k)"
proof (cases "store_kind c = ''memory''")
  case False
  have path: "(case filepath_Abs (b_getwd e) p of
        Inl err \<Rightarrow> (Inl (OsError err), h)
      | Inr full \<Rightarrow> (case b_mkdir e (filepath_Dir full) of
          Some err \<Rightarrow> (Inl (OsError err), h)
        | None \<Rightarrow> (case NewSQLite (b_open e) (migrations (b_ddl e)) full (h_db h full) of
            (Inl err, d) \<Rightarrow> (Inl (OpenError err), h\<lparr>h_db := (h_db h)(full := d)\<rparr>)
          | (Inr st, d) \<Rightarrow> (Inr st, h\<lparr>h_db := (h_db h)(full := d)\<rparr>)))) = (r, h') \<Longrightarrow> r \<noteq> Inl (UnknownStore k)" for p r h'
    by (auto split: sum.splits option.splits prod.splits)
  show ?thesis
  proof (cases "ensureStateDir e")
    case (Inl err)
    then obtain x where "err = OsError x" using ensureStateDir_error by blast
    with Inl False assms show ?thesis using path [of "dbPath c"] by (simp add: openStore_def prod_eq_iff)
  next
    case (Inr dir)
    with False assms show ?thesis
      using path [of "dbPath c"] path [of "filepath_Join [dir, ''wirefan.db'']"] by (simp add: openStore_def prod_eq_iff)
  qed
qed (simp add: openStore_def)

text \<open>
  What the process agrees to run with. A command line that is accepted, and does not ask for the
  version, gives at least one origin; every origin is non-empty, trimmed and comma-free; the wildcard is
  among them only if \<open>--dev\<close> was given; and the store, registry and fanout it names exist, so none of the
  later choices can fail on an unknown name.
\<close>

theorem accepted_config:
  assumes "parseFlags args = Inr c" "\<not> showVersion c"
  shows "AllowedOrigins (srv c) \<noteq> [] \<and>
    (\<forall>o' \<in> set (AllowedOrigins (srv c)). o' \<noteq> [] \<and> TrimSpace o' = o' \<and> CHR '','' \<notin> set o') \<and>
    (''*'' \<in> set (AllowedOrigins (srv c)) \<longrightarrow> (\<exists>fl. fs_Parse args flag_defaults = Inr fl \<and> flag_bool fl ''dev'')) \<and>
    (\<exists>r f. newRegistry (registry_kind c) = Inr r \<and> newFanout n (fanout_kind c) = Inr f) \<and>
    fst (openStore e c h) \<noteq> Inl (UnknownStore k)"
proof -
  obtain fl where fl: "fs_Parse args flag_defaults = Inr fl" "AllowedOrigins (srv c) = clean_origins (flag_string fl ''allowed-origins'')"
    "AllowedOrigins (srv c) \<noteq> []" "''*'' \<in> set (AllowedOrigins (srv c)) \<longrightarrow> flag_bool fl ''dev''"
    "store_kind c \<in> {''sqlite'', ''memory''}" "registry_kind c \<in> {''sync-map'', ''sharded''}" "fanout_kind c \<in> {''per-conn'', ''sharded''}"
    by (rule parseFlags_ok [OF assms])
  have 1: "\<forall>o' \<in> set (AllowedOrigins (srv c)). o' \<noteq> [] \<and> TrimSpace o' = o' \<and> CHR '','' \<notin> set o'"
    using clean_origins_clean fl(2) by simp
  have 2: "\<exists>r f. newRegistry (registry_kind c) = Inr r \<and> newFanout n (fanout_kind c) = Inr f"
    using fl(6,7) by (auto simp: newRegistry_def newFanout_def)
  have 3: "fst (openStore e c h) \<noteq> Inl (UnknownStore k)"
    using fl(5) openStore_known by blast
  show ?thesis using fl(1,3,4) 1 2 3 by blast
qed

subsection \<open>From a configuration to the command line and back\<close>

definition config_args :: "bool \<Rightarrow> appConfig \<Rightarrow> string list" where
  "config_args dev c =
    (if dev then [''--dev''] else []) @
    [flag_arg ''listen'' (Addr (srv c)), flag_arg ''admin-addr'' (AdminAddr (srv c)),
     flag_arg ''allowed-origins'' (Join (AllowedOrigins (srv c)) '',''), flag_arg ''store'' (store_kind c),
     flag_arg ''db-path'' (dbPath c), flag_arg ''registry'' (registry_kind c), flag_arg ''fanout'' (fanout_kind c)]"

lemma clean_origins_Join:
  assumes "os \<noteq> []" "\<forall>o' \<in> set os. o' \<noteq> [] \<and> TrimSpace o' = o' \<and> CHR '','' \<notin> set o'"
  shows "clean_origins (Join os '','') = os"
proof -
  have "Split (Join os '','') CHR '','' = os" by (rule Split_Join) (use assms in auto)
  moreover have "map TrimSpace os = os" by (rule map_idI) (use assms(2) in blast)
  ultimately show ?thesis using assms(2) by (simp add: clean_origins_def)
qed

lemma fs_Parse_config:
  "\<exists>fl. fs_Parse (config_args dev c) flag_defaults = Inr fl \<and> flag_string fl ''listen'' = Addr (srv c) \<and>
    flag_string fl ''admin-addr'' = AdminAddr (srv c) \<and> flag_string fl ''allowed-origins'' = Join (AllowedOrigins (srv c)) '','' \<and>
    flag_string fl ''store'' = store_kind c \<and> flag_string fl ''db-path'' = dbPath c \<and> flag_string fl ''registry'' = registry_kind c \<and>
    flag_string fl ''fanout'' = fanout_kind c \<and> flag_bool fl ''dev'' = dev \<and> \<not> flag_bool fl ''version''"
proof -
  define fl0 where "fl0 = (if dev then gm_put ''dev'' (FlagBool True) flag_defaults else flag_defaults)"
  define rest where "rest = [flag_arg ''listen'' (Addr (srv c)), flag_arg ''admin-addr'' (AdminAddr (srv c)),
     flag_arg ''allowed-origins'' (Join (AllowedOrigins (srv c)) '',''), flag_arg ''store'' (store_kind c),
     flag_arg ''db-path'' (dbPath c), flag_arg ''registry'' (registry_kind c), flag_arg ''fanout'' (fanout_kind c)]"
  have "fs_Parse (config_args dev c) flag_defaults = fs_Parse rest fl0"
    using fs_Parse_switch [of flag_defaults "''dev''" False rest]
    by (auto simp: config_args_def rest_def fl0_def flag_defaults_def)
  then show ?thesis
    by (simp add: rest_def fl0_def flag_defaults_def fs_Parse_arg flag_string_def flag_bool_def)
qed

text \<open>
  Every configuration can be asked for. For each well-formed configuration there is a command line,
  its flags written as \<open>--name=value\<close>, that parses to exactly this configuration, whatever the addresses
  and paths contain; a wildcard origin needs \<open>--dev\<close> and is refused with a dedicated error without it.
\<close>

theorem parseFlags_roundtrip:
  assumes "AllowedOrigins (srv c) \<noteq> []" "\<forall>o' \<in> set (AllowedOrigins (srv c)). o' \<noteq> [] \<and> TrimSpace o' = o' \<and> CHR '','' \<notin> set o'"
    "store_kind c \<in> {''sqlite'', ''memory''}" "registry_kind c \<in> {''sync-map'', ''sharded''}" "fanout_kind c \<in> {''per-conn'', ''sharded''}"
    "\<not> showVersion c"
  shows "parseFlags (config_args dev c) =
    (if ''*'' \<in> set (AllowedOrigins (srv c)) \<and> \<not> dev then Inl StarNeedsDev else Inr c)"
proof -
  obtain fl where fl: "fs_Parse (config_args dev c) flag_defaults = Inr fl" "flag_string fl ''listen'' = Addr (srv c)"
    "flag_string fl ''admin-addr'' = AdminAddr (srv c)" "flag_string fl ''allowed-origins'' = Join (AllowedOrigins (srv c)) '',''"
    "flag_string fl ''store'' = store_kind c" "flag_string fl ''db-path'' = dbPath c" "flag_string fl ''registry'' = registry_kind c"
    "flag_string fl ''fanout'' = fanout_kind c" "flag_bool fl ''dev'' = dev" "\<not> flag_bool fl ''version''"
    using fs_Parse_config by metis
  have os: "clean_origins (Join (AllowedOrigins (srv c)) '','') = AllowedOrigins (srv c)"
    by (rule clean_origins_Join [OF assms(1,2)])
  have ne: "Join (AllowedOrigins (srv c)) '','' \<noteq> []"
    using assms(1,2) by (cases "(AllowedOrigins (srv c), '','')" rule: Join.cases) auto
  have c: "\<lparr>srv = \<lparr>Addr = Addr (srv c), AdminAddr = AdminAddr (srv c), AllowedOrigins = AllowedOrigins (srv c)\<rparr>,
      store_kind = store_kind c, dbPath = dbPath c, registry_kind = registry_kind c, fanout_kind = fanout_kind c, showVersion = False\<rparr> = c"
    using assms(6) by (cases c) simp
  show ?thesis unfolding parseFlags_def fl(1) sum.case Let_def fl(2-10) os
    using assms(1,3-5) ne fl(10) c by (auto simp: list_ex_iff)
qed

definition demo_config :: appConfig where
  "demo_config = \<lparr>srv = \<lparr>Addr = '':80'', AdminAddr = [], AllowedOrigins = [''https://a'', ''*'']\<rparr>, store_kind = ''memory'', dbPath = ''/x=y'',
     registry_kind = ''sharded'', fanout_kind = ''sharded'', showVersion = False\<rparr>"

lemma demo_origins: "TrimSpace ''https://a'' = ''https://a''" "TrimSpace ''*'' = ''*''"
  by code_simp+

theorem parseFlags_roundtrip_witness:
  "parseFlags (config_args True demo_config) = Inr demo_config \<and> parseFlags (config_args False demo_config) = Inl StarNeedsDev"
  using parseFlags_roundtrip [of demo_config True] parseFlags_roundtrip [of demo_config False] demo_origins
  by (simp add: demo_config_def)

lemma demo_parse: "parseFlags [''--allowed-origins=https://a''] =
    Inr (demo_config\<lparr>srv := \<lparr>Addr = '':8080'', AdminAddr = ''127.0.0.1:6060'', AllowedOrigins = [''https://a'']\<rparr>, store_kind := ''sqlite'', dbPath := [],
      registry_kind := ''sync-map'', fanout_kind := ''per-conn''\<rparr>)"
  by code_simp

theorem accepted_config_witness:
  "\<exists>c. parseFlags [''--allowed-origins=https://a''] = Inr c \<and> AllowedOrigins (srv c) \<noteq> [] \<and> ''*'' \<notin> set (AllowedOrigins (srv c)) \<and>
     (\<exists>r f. newRegistry (registry_kind c) = Inr r \<and> newFanout 1 (fanout_kind c) = Inr f)"
  using accepted_config [OF demo_parse, where n = 1] demo_parse by (simp add: demo_config_def)

subsection \<open>The admin token over several boots\<close>

lemma trim_token_id: "(\<And>c. c \<in> set t \<Longrightarrow> is_lower_hex c) \<Longrightarrow> trim_token t = t"
proof -
  assume a: "\<And>c. c \<in> set t \<Longrightarrow> is_lower_hex c"
  have "dropWhile (\<lambda>c. c = CHR 0x0A \<or> c = CHR 0x0D \<or> c = CHR '' '') (rev t) = rev t"
    using a [of "last t"] by (cases t rule: rev_cases) (auto simp: is_lower_hex_def)
  then show ?thesis by (simp add: trim_token_def)
qed

lemma secret_is_hex: "GenerateSecret (Some b) = Some t \<Longrightarrow> trim_token t = t"
  by (rule trim_token_id) (auto simp: GenerateSecret_def dest: hex_chars)

lemma new_token_keeps:
  assumes "new_token e path h = (Inr t, h')"
  shows "gm_get (h_files h') path = Some t \<and> trim_token t = t \<and> GenerateSecret (b_rnd_admin e) = Some t"
  using assms secret_is_hex
  by (cases "b_rnd_admin e") (auto simp: new_token_def os_WriteFile_def GenerateSecret_def split: option.splits prod.splits)

text \<open>
  C37: The admin token is never empty and does not change under the operator. If a boot with working random
  bytes settles on a token, the token is non-empty, and every later boot with the same environment whose
  file read works settles on the same token without touching a file, whatever random bytes it would draw.
\<close>

theorem admin_token_stable:
  assumes "resolveAdminToken e h = (Inr t, h1)" "\<And>b. b_rnd_admin e = Some b \<Longrightarrow> b \<noteq> []"
    "b_getenv e2 = b_getenv e" "b_read e2 = None" "\<And>d. b_mkdir e2 d = None"
  shows "t \<noteq> [] \<and> resolveAdminToken e2 h1 = (Inr t, h1)"
proof (cases "b_getenv e ''WIREFAN_ADMIN_TOKEN'' = []")
  case False
  then show ?thesis using assms(1,3) by (auto simp: resolveAdminToken_def Let_def)
next
  case True
  then obtain dir where dir: "ensureStateDir e = Inr dir" "b_read e = None"
    using assms(1) by (auto simp: resolveAdminToken_def Let_def split: sum.splits option.splits)
  have dir2: "ensureStateDir e2 = Inr dir" using dir(1) assms(3,5) by (auto simp: ensureStateDir_def Let_def split: option.splits)
  let ?p = "filepath_Join [dir, ''admin.token'']"
  consider "gm_get (h_files h1) ?p = Some t" "trim_token t = t" "GenerateSecret (b_rnd_admin e) = Some t"
    | d where "gm_get (h_files h) ?p = Some d" "t = trim_token d" "t \<noteq> []" "h1 = h"
    using assms(1) True dir new_token_keeps [of e ?p h t h1]
    by (auto simp: resolveAdminToken_def Let_def split: option.splits if_splits)
  then show ?thesis
  proof cases
    case 1
    then obtain b where "b_rnd_admin e = Some b" "t = hex_EncodeToString b"
      by (cases "b_rnd_admin e") (auto simp: GenerateSecret_def)
    with assms(2) have "t \<noteq> []" by (metis hex_length length_0_conv mult_is_0 zero_neq_numeral)
    with 1 show ?thesis using True dir2 assms(3,4) by (simp add: resolveAdminToken_def Let_def)
  next
    case 2
    then show ?thesis using True dir2 assms(3,4) by (simp add: resolveAdminToken_def Let_def)
  qed
qed

definition demo_boot :: "char \<Rightarrow> boot_env" where
  "demo_boot x = \<lparr>b_getenv = (\<lambda>_. []), b_mkdir = (\<lambda>_. None), b_getwd = Inr ''/srv'', b_ddl = None, b_open = quiet v020_db, b_read = None,
     b_write = None, b_rnd_admin = Some [x], b_rnd_sign = Some [x], b_procs = 1\<rparr>"

definition demo_host :: host where
  "demo_host = \<lparr>h_files = [], h_db = (\<lambda>_. v020_db)\<rparr>"

lemma demo_token: "\<exists>h. resolveAdminToken (demo_boot CHR ''J'') demo_host = (Inr ''4a'', h)"
proof -
  have "hex_EncodeToString [CHR ''J''] = ''4a''" by code_simp
  then show ?thesis by (simp add: resolveAdminToken_def demo_boot_def demo_host_def ensureStateDir_def new_token_def GenerateSecret_def os_WriteFile_def Let_def)
qed

theorem admin_token_stable_witness:
  "\<exists>h. resolveAdminToken (demo_boot CHR ''J'') demo_host = (Inr ''4a'', h) \<and> resolveAdminToken (demo_boot CHR ''K'') h = (Inr ''4a'', h)"
proof -
  obtain h where h: "resolveAdminToken (demo_boot CHR ''J'') demo_host = (Inr ''4a'', h)" using demo_token by blast
  have "resolveAdminToken (demo_boot CHR ''K'') h = (Inr ''4a'', h)"
    using admin_token_stable [OF h, of "demo_boot CHR ''K''"] by (simp add: demo_boot_def)
  with h show ?thesis by blast
qed

subsection \<open>A server that started\<close>

lemma Register_zero:
  "Register metrics_zero = Some \<lparr>mcalls = [], channelSource = None, registerOnce = True,
     registered = [''wirefan_channels'', ''wirefan_connections'', ''wirefan_messages_published_total'', ''wirefan_messages_dropped_total'',
       ''wirefan_broadcast_latency_seconds'', ''wirefan_upgrade_rejected_total'', ''wirefan_auth_failures_total'']\<rparr>"
  by (simp add: Register_def realRegister_def metrics_zero_def)

lemma parseIPCap_pos: "0 < parseIPCap raw"
  by (auto simp: parseIPCap_def defaultIPCap_def Let_def split: option.split)

text \<open>
  C36: A process that boots starts where the other theorems begin. If \<open>run\<close> gets as far as the server's
  \<open>Run\<close>, the server's state is the initial one, in every part: the registry and the fanout the
  configuration names, new; no channel, connection, bucket or replayed token; the hub empty and not draining;
  no metric counted, all seven collectors registered, and the channel gauge reading the registry's \<open>Len\<close>; no
  client counted, and a positive cap. So it is an initial state of the connection system and of the
  per-client cap. The signing secret is the random one, the store the one that was opened and the admin
  token the one that was resolved; there is an admin listener exactly if an address for it is configured.
\<close>

theorem boot_starts_clean:
  assumes "boot ops e c h = (Inr p, h')" "0 < b_procs e" "b_procs e < 2 ^ 32"
  shows "(\<exists>r f secret. newRegistry (registry_kind c) = Inr r \<and> newFanout (b_procs e) (fanout_kind c) = Inr f \<and>
      GenerateSecret (b_rnd_sign e) = Some secret \<and>
      sworld (core p) = (world_init ops r f secret (Limiter_New 100 200 3600000000000))
        \<lparr>mets := \<lparr>mcalls = [], channelSource = Some reg_Len, registerOnce = True,
           registered = [''wirefan_channels'', ''wirefan_connections'', ''wirefan_messages_published_total'', ''wirefan_messages_dropped_total'',
             ''wirefan_broadcast_latency_seconds'', ''wirefan_upgrade_rejected_total'', ''wirefan_auth_failures_total'']\<rparr>\<rparr>) \<and>
    ipCount (core p) = [] \<and> ipCap (core p) = parseIPCap (b_getenv e ''WIREFAN_IP_CAP'') \<and> 0 < ipCap (core p) \<and>
    trustedProxies (core p) = parseTrustedProxies (b_getenv e ''WIREFAN_TRUSTED_PROXIES'') \<and>
    \<not> health_draining (core p) \<and> (adminSrv p = None \<longleftrightarrow> AdminAddr (srv c) = []) \<and>
    (\<exists>h1. openStore e c h = (Inr (sstore (core p)), h1) \<and> resolveAdminToken e h1 = (Inr (adminToken (core p)), h')) \<and>
    sys_reach ops (sworld (core p)) \<and> cap_reach (core p, [])"
proof -
  obtain st h1 token secret r f p0 where b: "openStore e c h = (Inr st, h1)" "resolveAdminToken e h1 = (Inr token, h')"
    "newRegistry (registry_kind c) = Inr r" "newFanout (b_procs e) (fanout_kind c) = Inr f" "GenerateSecret (b_rnd_sign e) = Some secret"
    and new: "Server_New (b_getenv e) (srv c) st token
      \<lparr>reg = r, chans = [], signingSecret = secret, cache = None, rlim = Limiter_New 100 200 3600000000000,
       fan = f, hubst = hub_New, mets = metrics_zero, conns = (\<lambda>_. dead_conn ops)\<rparr> = Some p0"
    and p: "p = p0\<lparr>core := (core p0)\<lparr>sworld := (sworld (core p0))\<lparr>mets := SetChannelSource (Some reg_Len) (mets (sworld (core p0)))\<rparr>\<rparr>\<rparr>"
    using assms(1) by (auto simp: boot_def split: prod.splits sum.splits option.splits)
  let ?m = "\<lparr>mcalls = [], channelSource = Some reg_Len, registerOnce = True,
     registered = [''wirefan_channels'', ''wirefan_connections'', ''wirefan_messages_published_total'', ''wirefan_messages_dropped_total'',
       ''wirefan_broadcast_latency_seconds'', ''wirefan_upgrade_rejected_total'', ''wirefan_auth_failures_total'']\<rparr> :: metrics"
  let ?w = "(world_init ops r f secret (Limiter_New 100 200 3600000000000))\<lparr>mets := ?m\<rparr>"
  have core: "sworld (core p) = ?w" "ipCount (core p) = []" "ipCap (core p) = parseIPCap (b_getenv e ''WIREFAN_IP_CAP'')"
    "trustedProxies (core p) = parseTrustedProxies (b_getenv e ''WIREFAN_TRUSTED_PROXIES'')" "\<not> health_draining (core p)"
    "adminSrv p = None \<longleftrightarrow> AdminAddr (srv c) = []" "sstore (core p) = st" "adminToken (core p) = token"
    using new by (auto simp: Server_New_def Register_zero NewUpgradeHandler_def SetChannelSource_def p world_init_def Let_def split: if_splits)
  have "r \<in> {SyncMapReg NewSyncMap, ShardedReg NewSharded}" using b(3) by (auto simp: newRegistry_def split: if_splits)
  moreover have "f = PerConn \<or> (\<exists>n. 0 < n \<and> n < 2 ^ 32 \<and> f = Pool (NewShardedPool n))"
    using b(4) assms(2,3) by (auto simp: newFanout_def NewPerConn_def split: if_splits)
  ultimately have "sys_reach ops ?w" by (intro sys_reach.init) simp_all
  moreover have "cap_reach (core p, [])" by (rule cap_reach.init) (rule core(2))
  ultimately show ?thesis using b core parseIPCap_pos by auto
qed

theorem boot_starts_clean_witness:
  "\<exists>p h. boot free_ops (demo_boot CHR ''J'') demo_config demo_host = (Inr p, h) \<and> sys_reach free_ops (sworld (core p)) \<and>
    channelSource (mets (sworld (core p))) = Some reg_Len \<and> 0 < ipCap (core p) \<and> adminSrv p = None"
proof -
  obtain h where h: "resolveAdminToken (demo_boot CHR ''J'') demo_host = (Inr ''4a'', h)" using demo_token by blast
  obtain p where "boot free_ops (demo_boot CHR ''J'') demo_config demo_host = (Inr p, h)"
    using h Register_zero by (auto simp: boot_def openStore_def demo_config_def GenerateSecret_def newRegistry_def newFanout_def Server_New_def demo_boot_def Let_def)
  with boot_starts_clean [OF this] show ?thesis by (auto simp: demo_boot_def demo_config_def)
qed

end
