(* ===== verification/Spec2Isabelle.thy ===== *)
theory Spec2Isabelle
  imports System_Publish Section_Runs Conn_Timers Subscribe_Ends Loadtest_Wire Wirefan_Main
begin

text \<open>
  A verification development for wirefan, a WebSocket fanout server written in Go. Clients connect with an
  API key, subscribe to channels and publish to them; the server delivers each published event to the
  channel's subscribers. Private and presence channels need a signed, single-use token. A load generator
  for it is in the same repository.

  \<^bold>\<open>The parts and their theories.\<close> A definition carries the name of the Go function it translates, with the
  receiver or package first where the name is taken (\<open>hub_Add\<close> is \<open>Hub.Add\<close>, \<open>st_LookupKey\<close> the method of
  the interface \<open>Store\<close>).

  \<^item> \<open>Prelude\<close>, \<open>Go_Strings\<close>, \<open>Go_Encoding\<close>, \<open>Json\<close>, \<open>Sha256\<close>, \<open>Netip\<close>, \<open>Go_Flag\<close>: what the code uses of the
    language and its standard library (maps, buffered channels, \<open>strings\<close>, \<open>strconv\<close>, hex, base64, UTF-8,
    FNV-1a, \<open>encoding/json\<close>, SHA-256 and HMAC, \<open>net/netip\<close>, \<open>flag\<close>, \<open>path/filepath\<close>).
  \<^item> \<open>Auth\<close> (\<open>internal/auth\<close>): secrets, signed subscribe tokens, the replay cache. A signed token is accepted
    for its own socket and channel only, and once.
  \<^item> \<open>Registry\<close> (\<open>internal/registry\<close>): the two channel registries as interpretations of one locale
    \<open>registry_spec\<close>, and \<open>Sweep\<close>. Channels are objects in a heap (a list), referred to by index.
  \<^item> \<open>Hub_Channel\<close>, \<open>Hub\<close> (\<open>internal/hub\<close>): a channel's subscribers; the tracked connections, \<open>CloseKey\<close> and
    \<open>Drain\<close>, whose interleavings with \<open>Add\<close> and \<open>Remove\<close> are a step relation.
  \<^item> \<open>Sweep_Race\<close>, \<open>Subscribe_Ends\<close>: the subscribe retry loop against the garbage collector, one step per
    critical section; no subscriber is orphaned, and every subscribe ends after a bounded number of its
    own steps without a deadlock.
  \<^item> \<open>Ratelimit\<close> (\<open>internal/ratelimit\<close>): buckets per key; evicting an idle bucket cannot be observed.
  \<^item> \<open>Policy\<close> (\<open>internal/conn/policy.go\<close>): the backpressure policies, interpretations of \<open>policy_spec\<close>.
  \<^item> \<open>Fanout\<close> (\<open>internal/fanout\<close>): direct and sharded broadcast; the locales \<open>checked_delivery\<close> and
    \<open>delivery\<close> carry what one \<open>Send\<close> keeps, of all messages or of those that satisfy a predicate, to every
    operation of both; they are interpreted on the connections' \<open>Send\<close> in \<open>Conn_Inv\<close> and \<open>System_Wire\<close>.
  \<^item> \<open>Metrics\<close> (\<open>internal/metrics\<close>): the calls on the collectors as a log, the snapshot, registration.
  \<^item> \<open>Frames\<close>, \<open>Conn\<close>, \<open>Conn_Inv\<close>, \<open>Conn_Props\<close>, \<open>Conn_Members\<close> (\<open>internal/conn\<close>): the wire protocol; the
    connection, its handlers, pumps and life (\<open>Run\<close>) over the shared state \<open>world\<close>; the invariant every
    operation keeps; what publishing, joining and leaving do.
  \<^item> \<open>Json_Compact\<close>, \<open>Frame_Parse\<close>: a JSON text cut out of a message and compacted into a frame still parses
    to the value that was sent; every frame the server makes is an object of one of five types.
  \<^item> \<open>Sections\<close>, \<open>Section_Runs\<close>: the same connections at the granularity of their critical sections, those of
    \<open>Run\<close>, of a subscribe, an unsubscribe and a sweep, with everything else as effects that any goroutine may
    have at any time. What agrees at every moment, and by exactly what the views and counts may differ; and
    every handler and \<open>Run\<close> of \<open>Conn\<close> is a run of these sections.
  \<^item> \<open>System\<close>, \<open>System_Props\<close>: the running server as a transition system over those operations, the stats
    publisher, sweeps, workers and closes, with its invariant in every reachable state. A step is a whole
    operation here.
  \<^item> \<open>System_Wire\<close>: the stream of a connection, that is the frames written and those queued behind them. Every
    transition extends it at its end; what was accepted is written after as many turns of the pump as
    the queue has places. The locales \<open>plain_steps\<close> and \<open>handler_steps\<close> reduce a message's handling to replies,
    broadcasts and quiet steps.
  \<^item> \<open>System_Publish\<close>: a publish end to end, from the bytes read on one connection through the handler and
    either fanout to the sockets of the channel's members.
  \<^item> \<open>Conn_Timers\<close>: the timers of a connection: the timeout over a close handshake, whose end once the TCP
    connection is closed is a hypothesis on the library, and the write pump's deadlines and pings as a timed
    run, which a dead peer cannot keep alive.
  \<^item> \<open>Store\<close>, \<open>Migrate\<close> (\<open>internal/store\<close>): the memory and SQLite key stores as interpretations of the locale
    \<open>key_store\<close>; opening a database file, the read-only check before the writable connection changes its
    journal mode, and the migrations, also when several processes open it at once.
  \<^item> \<open>Client_IP\<close>, \<open>Upgrade\<close> (\<open>internal/server/upgrade.go\<close>): the client's address behind proxies, its bucket
    and the cap per client, log sanitising, the checks of an upgrade.
  \<^item> \<open>Rest\<close>, \<open>Server\<close>, \<open>Server_Props\<close> (\<open>internal/server\<close>): the REST handlers, the health check, construction
    and shutdown of the server beside the steps of all its other goroutines (\<open>serve_step\<close>, \<open>hub_act\<close>), and
    what they guarantee together with stores, tokens and hub.
  \<^item> \<open>Wirefan_Main\<close> (\<open>cmd/wirefan\<close>): flags, the choice of components, the admin token, \<open>run\<close> and \<open>main\<close>. A
    process that boots starts in the initial states of \<open>System\<close> and \<open>Upgrade\<close>, with every metric connected.
  \<^item> \<open>Float64\<close>, \<open>Loadtest\<close>, \<open>Loadtest_Props\<close>, \<open>Loadtest_Wire\<close> (\<open>cmd/loadtest\<close>): \<open>float64\<close> as rounded rationals;
    the dial plan, one connection over a script of what the network does, the tallies and the report; what
    they account for; and the load generator against the server's frames.

  \<^bold>\<open>Concurrency.\<close> A mutex-protected section is one function. Where the order of sections of several
  goroutines matters (memberships and counts, subscribe and sweep, add and drain, migrations, shutdown,
  admissions), either a step relation takes any interleaving of them (\<open>sec_step\<close>, \<open>race_step\<close>, \<open>hub_step\<close>,
  \<open>mig_step\<close>, \<open>cap_step\<close>), or the operation takes as an argument what other goroutines do at the point where
  the code holds no lock. A handler of \<open>Conn\<close> is the composition of its sections; theorems over \<open>sys_reach\<close> speak
  of states between whole operations, those over \<open>sec_reach\<close> of every moment between two sections.

  \<^bold>\<open>Parameters.\<close> Code outside the repository is an argument: the token bucket of \<open>golang.org/x/time/rate\<close>
  (\<open>rate_ops\<close>), how long a call on the WebSocket takes, fresh ULIDs and \<open>ulid.ParseStrict\<close>, random bytes, the clock, the SQLite driver's faults, the
  Prometheus readings, the answers of \<open>net/http\<close> listeners and of \<open>websocket.Accept\<close>, and the file system's
  errors. What a theorem needs of one is a hypothesis of it, and its witness gives a concrete instance.

  \<^bold>\<open>Fuel and termination.\<close> Every function is total. JSON parsing alone takes fuel; the input's length plus one
  is always enough (\<open>parse_val_fuel\<close>). Loops over tickers are folds over the list of ticks that happen. Loops
  that wait on other goroutines are step relations, and their progress is stated as such: a measure on
  the subscriber's steps, a count of the pump's turns, a bound on the pump's clock.

  \<^bold>\<open>Not modelled.\<close> The bytes on the wire below a WebSocket message and the origin check (both inside the
  WebSocket library), logging apart from what is sanitised, file modes, the HTTP library's routing and what
  it does with its timeouts, the embedded demo page, and the part of the load generator's report that is printed for
  people. Denormal and overflowing \<open>float64\<close> values do not arise from its flags and are left out.

  \<^bold>\<open>Next.\<close> The end-to-end delivery with other jobs ahead in a worker's queue, liveness of the drain under
  the timers, and the human-readable report.
\<close>

end
